(* ===== verification/Edda_Prelude.thy ===== *)
theory Edda_Prelude
  imports Main "HOL-Library.Word" "HOL-Library.AList"
begin

text \<open>
  Shared vocabulary of the development. The compiler's opaque handles are 32-bit
  indices (\<^verbatim>\<open>Symbol\<close> of edda-intern, \<^verbatim>\<open>TyId\<close> of edda-types, \<^verbatim>\<open>FileId\<close> and
  \<^verbatim>\<open>BytePos\<close> of edda-span), so they are \<^typ>\<open>32 word\<close>; bytes are \<^typ>\<open>8 word\<close>;
  strings are UTF-8 byte sequences, \<^typ>\<open>string\<close>. A Rust panic is the value
  \<^const>\<open>None\<close> of an option type. The theory also holds the association-list and
  list lemmas that the components share, and the collections
  \<open>wf_intros\<close> (well-formedness preservation) and \<open>codec_simps\<close> (byte encoders).
\<close>

type_synonym u8 = "8 word"
type_synonym u32 = "32 word"
type_synonym u64 = "64 word"
type_synonym u128 = "128 word"
type_synonym bytes = "u8 list"
type_synonym symbol = u32
type_synonym ty_id = u32

named_theorems wf_intros \<open>operations preserve the well-formedness invariants\<close>
named_theorems codec_simps \<open>unfolding equations of the byte encoders\<close>

section \<open>Association lists as hash maps\<close>

text \<open>
  A Rust \<^verbatim>\<open>HashMap\<close> that the code iterates is an association list with distinct
  keys whose order is the (unspecified) iteration order; \<^const>\<open>AList.update\<close> is
  \<^verbatim>\<open>insert\<close> and \<^const>\<open>map_of\<close> is \<^verbatim>\<open>get\<close>.
\<close>

abbreviation distinct_keys :: "('k \<times> 'v) list \<Rightarrow> bool" where
  "distinct_keys al \<equiv> distinct (map fst al)"

fun modify_entry :: "'k \<Rightarrow> ('v \<Rightarrow> 'v) \<Rightarrow> ('k \<times> 'v) list \<Rightarrow> ('k \<times> 'v) list" where
  "modify_entry k f [] = []"
| "modify_entry k f ((k', v) # al) =
     (if k = k' then (k', f v) # al else (k', v) # modify_entry k f al)"

lemma map_fst_modify_entry [simp]: "map fst (modify_entry k f al) = map fst al"
  by (induction k f al rule: modify_entry.induct) auto

lemma map_of_modify_entry [simp]:
  "map_of (modify_entry k f al) k' =
     (if k = k' then map_option f (map_of al k) else map_of al k')"
  by (induction k f al rule: modify_entry.induct) auto

lemma map_of_map_snd:
  "map_of (map (\<lambda>(k, v). (k, f v)) al) k = map_option f (map_of al k)"
  by (induction al) auto

lemma map_fst_map_snd [simp]: "map fst (map (\<lambda>(k, v). (k, f v)) al) = map fst al"
  by (induction al) auto

lemma map_of_in_set_iff:
  assumes "distinct_keys al"
  shows "(k, v) \<in> set al \<longleftrightarrow> map_of al k = Some v"
  using assms by (simp add: map_of_eq_Some_iff)

section \<open>Lists\<close>

lemma append_prefix_cases:
  assumes "xs @ ys = us @ vs"
  obtains zs where "xs = us @ zs" "zs @ ys = vs" | zs where "us = xs @ zs" "ys = zs @ vs"
  using assms by (auto simp: append_eq_append_conv2)

lemma list_all2_append_same_length:
  "length xs = length us \<Longrightarrow> xs @ ys = us @ vs \<longleftrightarrow> xs = us \<and> ys = vs"
  by auto

section \<open>Words\<close>

lemma unat_of_nat_less: "n < 2 ^ LENGTH('a::len) \<Longrightarrow> unat (of_nat n :: 'a word) = n"
  by (simp add: unat_of_nat)

lemma of_nat_word_inj:
  "m < 2 ^ LENGTH('a::len) \<Longrightarrow> n < 2 ^ LENGTH('a) \<Longrightarrow>
     (of_nat m :: 'a word) = of_nat n \<longleftrightarrow> m = n"
  by (metis unat_of_nat_less)

section \<open>Decimal rendering\<close>

text \<open>\<^verbatim>\<open>to_string\<close> of the unsigned integers.\<close>

fun dec_nat :: "nat \<Rightarrow> string" where
  "dec_nat n = (if n < 10 then [char_of (48 + n)]
     else dec_nat (n div 10) @ [char_of (48 + n mod 10)])"

declare dec_nat.simps [simp del]

fun undec :: "nat \<Rightarrow> string \<Rightarrow> nat" where
  "undec acc [] = acc"
| "undec acc (c # cs) = undec (10 * acc + (of_char c - 48)) cs"

lemma undec_append: "undec acc (xs @ ys) = undec (undec acc xs) ys"
  by (induction xs arbitrary: acc) auto

lemma undec_dec_nat: "undec 0 (dec_nat n) = n"
proof (induction n rule: dec_nat.induct)
  case (1 n)
  show ?case
  proof (cases "n < 10")
    case True
    then show ?thesis by (simp add: dec_nat.simps [of n])
  next
    case False
    have "(48 + n mod 10) mod 256 = 48 + n mod 10"
      by (rule mod_less) (use mod_less_divisor [of 10 n] in linarith)
    with False 1 show ?thesis
      by (simp add: dec_nat.simps [of n] undec_append)
  qed
qed

lemma dec_nat_inj: "dec_nat m = dec_nat n \<longleftrightarrow> m = n"
  by (metis undec_dec_nat)

end
