(* ===== verification/Interner.thy ===== *)
theory Interner
  imports Edda_Prelude
begin

text \<open>
  The string interner of \<^verbatim>\<open>crates/edda-intern/src/lib.rs\<close>. The state is the pair of
  tables behind the lock (\<^verbatim>\<open>InternerState\<close>). \<^verbatim>\<open>Interner::intern\<close> first looks the string
  up under the read lock and only then takes the write lock, where it looks it up again;
  the two critical sections are the atomic steps of the machine \<open>intern_step\<close>, in which
  any number of threads interleave.
\<close>

record interner =
  int_lookup :: "string \<rightharpoonup> symbol"
  int_strings :: "string list"

definition symbol_dummy :: symbol where
  "symbol_dummy = 0xFFFFFFFF"

definition interner_new :: interner where
  "interner_new = \<lparr>int_lookup = Map.empty, int_strings = []\<rparr>"

definition intern_contains :: "interner \<Rightarrow> string \<Rightarrow> symbol option" where
  "intern_contains i s = int_lookup i s"

definition intern_slow :: "interner \<Rightarrow> string \<Rightarrow> (interner \<times> symbol) option" where
  "intern_slow i s =
     (case int_lookup i s of
        Some sy \<Rightarrow> Some (i, sy)
      | None \<Rightarrow>
          let idx = length (int_strings i)
          in if idx < 2 ^ 32 - 1
             then let sy = of_nat idx
                  in Some (i\<lparr>int_strings := int_strings i @ [s],
                             int_lookup := (int_lookup i)(s \<mapsto> sy)\<rparr>, sy)
             else None)"

definition intern :: "interner \<Rightarrow> string \<Rightarrow> (interner \<times> symbol) option" where
  "intern i s =
     (case int_lookup i s of
        Some sy \<Rightarrow> Some (i, sy)
      | None \<Rightarrow> intern_slow i s)"

definition try_resolve :: "interner \<Rightarrow> symbol \<Rightarrow> string option" where
  "try_resolve i sy =
     (if sy = symbol_dummy then None
      else if unat sy < length (int_strings i) then Some (int_strings i ! unat sy)
      else None)"

definition intern_len :: "interner \<Rightarrow> nat" where
  "intern_len i = length (int_strings i)"

definition intern_is_empty :: "interner \<Rightarrow> bool" where
  "intern_is_empty i \<longleftrightarrow> int_strings i = []"

text \<open>Each thread runs one call of \<^verbatim>\<open>intern\<close>; a thread that finds the table full panics.\<close>

datatype intern_pc = Start string | Slow string | Done string symbol | Panicked string

record intern_sys =
  sys_table :: interner
  sys_pc :: "nat \<Rightarrow> intern_pc"

inductive intern_step :: "intern_sys \<Rightarrow> intern_sys \<Rightarrow> bool" where
  read_hit: "sys_pc s t = Start str \<Longrightarrow> int_lookup (sys_table s) str = Some sy \<Longrightarrow>
     intern_step s (s\<lparr>sys_pc := (sys_pc s)(t := Done str sy)\<rparr>)"
| read_miss: "sys_pc s t = Start str \<Longrightarrow> int_lookup (sys_table s) str = None \<Longrightarrow>
     intern_step s (s\<lparr>sys_pc := (sys_pc s)(t := Slow str)\<rparr>)"
| write_ok: "sys_pc s t = Slow str \<Longrightarrow> intern_slow (sys_table s) str = Some (i', sy) \<Longrightarrow>
     intern_step s (s\<lparr>sys_table := i', sys_pc := (sys_pc s)(t := Done str sy)\<rparr>)"
| write_panic: "sys_pc s t = Slow str \<Longrightarrow> intern_slow (sys_table s) str = None \<Longrightarrow>
     intern_step s (s\<lparr>sys_pc := (sys_pc s)(t := Panicked str)\<rparr>)"

inductive intern_reachable :: "intern_sys \<Rightarrow> bool" where
  init: "(\<And>t. \<exists>str. pcs t = Start str) \<Longrightarrow>
     intern_reachable \<lparr>sys_table = interner_new, sys_pc = pcs\<rparr>"
| step: "intern_reachable s \<Longrightarrow> intern_step s s' \<Longrightarrow> intern_reachable s'"

section \<open>The table invariant\<close>

definition wf_interner :: "interner \<Rightarrow> bool" where
  "wf_interner i \<longleftrightarrow>
     length (int_strings i) \<le> 2 ^ 32 - 1 \<and>
     (\<forall>s sy. int_lookup i s = Some sy \<longleftrightarrow>
        unat sy < length (int_strings i) \<and> int_strings i ! unat sy = s)"

definition extends :: "interner \<Rightarrow> interner \<Rightarrow> bool" where
  "extends i i' \<longleftrightarrow> int_lookup i \<subseteq>\<^sub>m int_lookup i' \<and>
     (\<exists>new. int_strings i' = int_strings i @ new)"

lemma wf_interner_new [wf_intros]: "wf_interner interner_new"
  by (simp add: wf_interner_def interner_new_def)

lemma unat_symbol_bound:
  assumes "idx < 2 ^ 32 - 1"
  shows "unat (of_nat idx :: symbol) = idx"
  using assms by (intro unat_of_nat_less) simp

lemma wf_interner_push:
  assumes wf: "wf_interner i" and fresh: "int_lookup i s = None"
    and room: "length (int_strings i) < 2 ^ 32 - 1"
  shows "wf_interner (i\<lparr>int_strings := int_strings i @ [s],
           int_lookup := (int_lookup i)(s \<mapsto> of_nat (length (int_strings i)))\<rparr>)"
proof -
  let ?n = "length (int_strings i)"
  have n: "unat (of_nat ?n :: symbol) = ?n"
    using room by (rule unat_symbol_bound)
  have fresh': "int_strings i ! k \<noteq> s" if "k < ?n" for k
  proof
    assume "int_strings i ! k = s"
    moreover have "unat (of_nat k :: symbol) = k"
      using that room by (intro unat_symbol_bound) simp
    ultimately have "int_lookup i s = Some (of_nat k)"
      using wf that by (simp add: wf_interner_def)
    with fresh show False by simp
  qed
  have "(of_nat ?n :: symbol) = sy \<longleftrightarrow> unat sy = ?n" for sy :: symbol
    using n by (auto simp: word_unat_eq_iff)
  with wf room fresh fresh' show ?thesis
    by (auto simp: wf_interner_def nth_append less_Suc_eq)
qed

lemma intern_slow_cases:
  assumes "intern_slow i s = Some (i', sy)"
  obtains (hit) "int_lookup i s = Some sy" "i' = i"
  | (new) "int_lookup i s = None" "length (int_strings i) < 2 ^ 32 - 1"
      "sy = of_nat (length (int_strings i))"
      "i' = i\<lparr>int_strings := int_strings i @ [s], int_lookup := (int_lookup i)(s \<mapsto> sy)\<rparr>"
  using assms by (auto simp: intern_slow_def Let_def split: option.splits if_splits)

lemma intern_slow_wf [wf_intros]:
  assumes "wf_interner i" "intern_slow i s = Some (i', sy)"
  shows "wf_interner i'"
  using assms(2) assms(1) by (cases rule: intern_slow_cases) (auto intro: wf_interner_push)

lemma intern_slow_lookup:
  assumes "intern_slow i s = Some (i', sy)"
  shows "int_lookup i' s = Some sy"
  using assms by (cases rule: intern_slow_cases) auto

lemma intern_slow_extends:
  assumes "intern_slow i s = Some (i', sy)"
  shows "extends i i'"
  using assms by (cases rule: intern_slow_cases) (auto simp: extends_def map_le_def)

lemma intern_eq_slow: "intern i s = intern_slow i s"
  by (simp add: intern_def intern_slow_def split: option.split)

lemma resolve_of_lookup:
  assumes "wf_interner i" "int_lookup i s = Some sy"
  shows "try_resolve i sy = Some s"
proof -
  from assms have b: "unat sy < length (int_strings i)" "int_strings i ! unat sy = s"
    by (auto simp: wf_interner_def)
  have "sy \<noteq> symbol_dummy"
  proof
    assume "sy = symbol_dummy"
    then have "unat sy = 2 ^ 32 - 1"
      by (simp add: symbol_dummy_def)
    with b assms(1) show False by (simp add: wf_interner_def)
  qed
  with b show ?thesis by (simp add: try_resolve_def)
qed

lemma lookup_extends: "extends i i' \<Longrightarrow> int_lookup i s = Some sy \<Longrightarrow> int_lookup i' s = Some sy"
  by (auto simp: extends_def map_le_def dom_def)

lemma resolve_extends:
  "extends i i' \<Longrightarrow> try_resolve i sy = Some s \<Longrightarrow> try_resolve i' sy = Some s"
  by (auto simp: extends_def try_resolve_def nth_append split: if_splits)

section \<open>The concurrent invariant\<close>

definition sys_inv :: "intern_sys \<Rightarrow> bool" where
  "sys_inv s \<longleftrightarrow> wf_interner (sys_table s) \<and>
     (\<forall>t str sy. sys_pc s t = Done str sy \<longrightarrow> int_lookup (sys_table s) str = Some sy)"

lemma intern_step_inv:
  assumes "intern_step s s'" "sys_inv s"
  shows "sys_inv s'"
  using assms
proof (induction rule: intern_step.induct)
  case (write_ok s t str i' sy)
  have "wf_interner i'"
    using write_ok by (auto simp: sys_inv_def intro: wf_intros)
  moreover have "int_lookup i' str = Some sy"
    using write_ok.hyps(2) by (rule intern_slow_lookup)
  moreover have "extends (sys_table s) i'"
    using write_ok.hyps(2) by (rule intern_slow_extends)
  ultimately show ?case
    using write_ok.prems by (auto simp: sys_inv_def intro: lookup_extends)
qed (auto simp: sys_inv_def)

lemma reachable_sys_inv: "intern_reachable s \<Longrightarrow> sys_inv s"
proof (induction rule: intern_reachable.induct)
  case (init pcs)
  have "pcs t \<noteq> Done str sy" for t str sy
    using init [of t] by auto
  then show ?case by (simp add: sys_inv_def wf_interner_new)
next
  case (step s s')
  then show ?case by (blast intro: intern_step_inv)
qed

section \<open>Properties\<close>

text \<open>
  C27: interning returns a symbol that resolves back to the interned string, keeps the
  table well formed, keeps the meaning of every symbol issued before, and is idempotent:
  interning the same string again changes nothing and returns the same symbol.
\<close>

theorem intern_roundtrip:
  assumes "wf_interner i" "intern i s = Some (i', sy)"
  shows "wf_interner i' \<and> try_resolve i' sy = Some s \<and> intern i' s = Some (i', sy) \<and>
    (\<forall>sy' s'. try_resolve i sy' = Some s' \<longrightarrow> try_resolve i' sy' = Some s')"
proof -
  from assms(2) have slow: "intern_slow i s = Some (i', sy)"
    by (simp add: intern_eq_slow)
  have wf': "wf_interner i'" using assms(1) slow by (rule intern_slow_wf)
  have lk: "int_lookup i' s = Some sy" using slow by (rule intern_slow_lookup)
  have ex: "extends i i'" using slow by (rule intern_slow_extends)
  show ?thesis
    using wf' lk resolve_of_lookup [OF wf' lk] resolve_extends [OF ex]
    by (simp add: intern_def)
qed

theorem intern_roundtrip_witness:
  "wf_interner interner_new \<and>
   (\<exists>i' sy. intern interner_new ''foo'' = Some (i', sy) \<and> try_resolve i' sy = Some ''foo'')"
proof -
  obtain i' sy where e: "intern interner_new ''foo'' = Some (i', sy)"
    by (simp add: intern_def intern_slow_def interner_new_def)
  from intern_roundtrip [OF wf_interner_new e] e show ?thesis
    by (auto simp: wf_interner_new)
qed

text \<open>
  C14: however the threads interleave their read-locked and write-locked sections, two
  completed calls return equal symbols exactly when they interned equal strings, and every
  returned symbol resolves to its string in the current table.
\<close>

theorem intern_interleaving_safe:
  assumes "intern_reachable s" "sys_pc s t = Done str sy" "sys_pc s t' = Done str' sy'"
  shows "(sy = sy' \<longleftrightarrow> str = str') \<and> try_resolve (sys_table s) sy = Some str"
proof -
  from assms(1) have "sys_inv s" by (rule reachable_sys_inv)
  with assms(2,3) have wf: "wf_interner (sys_table s)"
    and l: "int_lookup (sys_table s) str = Some sy" "int_lookup (sys_table s) str' = Some sy'"
    by (auto simp: sys_inv_def)
  from resolve_of_lookup [OF wf l(1)] resolve_of_lookup [OF wf l(2)] l show ?thesis
    by auto
qed

definition demo_sys :: intern_sys where
  "demo_sys = \<lparr>sys_table = interner_new, sys_pc = (\<lambda>_. Start ''x'')\<rparr>"

definition demo_table :: interner where
  "demo_table = \<lparr>int_lookup = [''x'' \<mapsto> 0], int_strings = [''x'']\<rparr>"

lemma demo_sys_run:
  "intern_reachable \<lparr>sys_table = demo_table,
     sys_pc = (\<lambda>_. Start ''x'')(0 := Done ''x'' 0)\<rparr>"
proof -
  have 1: "intern_reachable demo_sys"
    unfolding demo_sys_def by (rule intern_reachable.init) simp
  have 2: "intern_reachable (demo_sys\<lparr>sys_pc := (sys_pc demo_sys)(0 := Slow ''x'')\<rparr>)"
    by (rule intern_reachable.step [OF 1])
      (rule intern_step.read_miss, simp_all add: demo_sys_def interner_new_def)
  have "intern_slow interner_new ''x'' = Some (demo_table, 0)"
    by (simp add: intern_slow_def interner_new_def demo_table_def)
  then have "intern_step (demo_sys\<lparr>sys_pc := (sys_pc demo_sys)(0 := Slow ''x'')\<rparr>)
     ((demo_sys\<lparr>sys_pc := (sys_pc demo_sys)(0 := Slow ''x'')\<rparr>)
       \<lparr>sys_table := demo_table,
        sys_pc := (sys_pc (demo_sys\<lparr>sys_pc := (sys_pc demo_sys)(0 := Slow ''x'')\<rparr>))
          (0 := Done ''x'' 0)\<rparr>)"
    by (intro intern_step.write_ok) (simp_all add: demo_sys_def)
  from intern_reachable.step [OF 2 this] show ?thesis
    by (simp add: demo_sys_def)
qed

theorem intern_interleaving_safe_witness:
  "try_resolve demo_table 0 = Some ''x''"
  using intern_interleaving_safe [OF demo_sys_run, of 0 "''x''" 0 0 "''x''" 0] by simp

end
