(* ===== verification/Mode_Lattice.thy ===== *)
theory Mode_Lattice
  imports Edda_Prelude
begin

text \<open>
  The per-binding state lattice of the mode discipline,
  \<^verbatim>\<open>crates/edda-types/src/infer/mode/lattice.rs\<close>. The order read off the source's
  comments is \<open>Consumed < Uninit < PartialInit F < Valid\<close>, with the partial states ordered
  by inclusion of their valid fields; \<open>glb\<close> is the branch merge. The library's lattice
  classes are instantiated with it, which discharges their laws for the code's function.
\<close>

datatype binding_state =
  Consumed | Uninit | PartialInit "symbol set" | Valid

fun glb :: "binding_state \<Rightarrow> binding_state \<Rightarrow> binding_state" where
  "glb Consumed _ = Consumed"
| "glb _ Consumed = Consumed"
| "glb Valid Valid = Valid"
| "glb Valid (PartialInit f) = PartialInit f"
| "glb (PartialInit f) Valid = PartialInit f"
| "glb Valid Uninit = Uninit"
| "glb Uninit Valid = Uninit"
| "glb (PartialInit f1) (PartialInit f2) = PartialInit (f1 \<inter> f2)"
| "glb (PartialInit _) Uninit = Uninit"
| "glb Uninit (PartialInit _) = Uninit"
| "glb Uninit Uninit = Uninit"

definition is_readable :: "binding_state \<Rightarrow> bool" where
  "is_readable s \<longleftrightarrow> s = Valid"

fun describe :: "binding_state \<Rightarrow> string" where
  "describe Uninit = ''uninitialised''"
| "describe Valid = ''valid''"
| "describe Consumed = ''consumed (moved out)''"
| "describe (PartialInit _) = ''partially initialised''"

fun field_state :: "binding_state \<Rightarrow> symbol \<Rightarrow> binding_state" where
  "field_state Valid _ = Valid"
| "field_state Uninit _ = Uninit"
| "field_state Consumed _ = Consumed"
| "field_state (PartialInit f) field = (if field \<in> f then Valid else Uninit)"

section \<open>The order and its lattice\<close>

instantiation binding_state :: "{semilattice_inf, bounded_lattice_top, order_bot}"
begin

fun less_eq_binding_state :: "binding_state \<Rightarrow> binding_state \<Rightarrow> bool" where
  "less_eq_binding_state Consumed _ = True"
| "less_eq_binding_state _ Valid = True"
| "less_eq_binding_state Uninit s = (s \<noteq> Consumed)"
| "less_eq_binding_state (PartialInit f) (PartialInit f') = (f \<subseteq> f')"
| "less_eq_binding_state (PartialInit _) _ = False"
| "less_eq_binding_state Valid _ = False"

definition less_binding_state :: "binding_state \<Rightarrow> binding_state \<Rightarrow> bool" where
  "less_binding_state a b \<longleftrightarrow> a \<le> b \<and> \<not> b \<le> (a :: binding_state)"

definition inf_binding_state :: "binding_state \<Rightarrow> binding_state \<Rightarrow> binding_state" where
  "inf_binding_state = glb"

fun sup_binding_state :: "binding_state \<Rightarrow> binding_state \<Rightarrow> binding_state" where
  "sup_binding_state Consumed s = s"
| "sup_binding_state s Consumed = s"
| "sup_binding_state Valid _ = Valid"
| "sup_binding_state _ Valid = Valid"
| "sup_binding_state Uninit s = s"
| "sup_binding_state s Uninit = s"
| "sup_binding_state (PartialInit f) (PartialInit f') = PartialInit (f \<union> f')"

definition top_binding_state :: binding_state where
  "top_binding_state = Valid"

definition bot_binding_state :: binding_state where
  "bot_binding_state = Consumed"

instance
proof
  fix x y z :: binding_state
  show "x < y \<longleftrightarrow> x \<le> y \<and> \<not> y \<le> x"
    by (simp add: less_binding_state_def)
  show "x \<le> x"
    by (cases x) simp_all
  show "x \<le> y \<Longrightarrow> y \<le> z \<Longrightarrow> x \<le> z"
    by (cases x; cases y; cases z) auto
  show "x \<le> y \<Longrightarrow> y \<le> x \<Longrightarrow> x = y"
    by (cases x; cases y) auto
  show "inf x y \<le> x"
    by (cases x; cases y) (auto simp: inf_binding_state_def)
  show "inf x y \<le> y"
    by (cases x; cases y) (auto simp: inf_binding_state_def)
  show "x \<le> y \<Longrightarrow> x \<le> z \<Longrightarrow> x \<le> inf y z"
    by (cases x; cases y; cases z) (auto simp: inf_binding_state_def)
  show "x \<le> sup x y"
    by (cases x; cases y) auto
  show "y \<le> sup x y"
    by (cases x; cases y) auto
  show "y \<le> x \<Longrightarrow> z \<le> x \<Longrightarrow> sup y z \<le> x"
    by (cases x; cases y; cases z) auto
  show "x \<le> top"
    by (cases x) (simp_all add: top_binding_state_def)
  show "bot \<le> x"
    by (simp add: bot_binding_state_def)
qed

end

lemmas glb_as_inf = inf_binding_state_def [symmetric]

section \<open>Definitely valid members\<close>

text \<open>
  The set of members of an aggregate that a state guarantees to be initialised, relative to
  the full member set \<open>T\<close> of the binding's type.
\<close>

fun valid_members :: "symbol set \<Rightarrow> binding_state \<Rightarrow> symbol set" where
  "valid_members T Valid = T"
| "valid_members T (PartialInit f) = f"
| "valid_members T Uninit = {}"
| "valid_members T Consumed = {}"

definition wf_state :: "symbol set \<Rightarrow> binding_state \<Rightarrow> bool" where
  "wf_state T s \<longleftrightarrow> valid_members T s \<subseteq> T"

lemma glb_wf_state [wf_intros]: "wf_state T a \<Longrightarrow> wf_state T b \<Longrightarrow> wf_state T (glb a b)"
  by (cases a; cases b) (auto simp: wf_state_def)

lemma field_state_valid_iff:
  "field \<in> T \<Longrightarrow> field_state s field = Valid \<longleftrightarrow> field \<in> valid_members T s"
  by (cases s) auto

lemma valid_members_mono:
  "wf_state T a \<Longrightarrow> wf_state T b \<Longrightarrow> a \<le> b \<Longrightarrow> valid_members T a \<subseteq> valid_members T b"
  by (cases a; cases b) (auto simp: wf_state_def)

lemma valid_members_glb:
  "wf_state T a \<Longrightarrow> wf_state T b \<Longrightarrow>
     valid_members T (glb a b) = valid_members T a \<inter> valid_members T b"
  by (cases a; cases b) (auto simp: wf_state_def)

text \<open>
  C29: \<open>glb\<close> is the greatest lower bound of the documented order with \<open>Valid\<close> on top and
  \<open>Consumed\<close> at the bottom: a state is below the merge exactly when it is below both
  branches. Hence the merge of any number of branches does not depend on their order or
  grouping, and merging a state with itself changes nothing.
\<close>

theorem glb_greatest_lower_bound:
  "(c \<le> glb a b \<longleftrightarrow> c \<le> a \<and> c \<le> b) \<and> glb a b = glb b a \<and>
   glb (glb a b) c = glb a (glb b c) \<and> glb a a = a \<and> glb Valid a = a \<and> glb Consumed a = Consumed"
proof -
  have "glb Valid a = a" "glb Consumed a = Consumed"
    by (cases a; simp)+
  then show ?thesis
    by (simp add: glb_as_inf inf.commute inf.left_commute inf.assoc)
qed

text \<open>
  after a merge a field is readable exactly when it was readable at the end of both
  branches, and the whole binding exactly when both branches left it readable.
\<close>

theorem merge_readable_iff_both:
  assumes "wf_state T a" "wf_state T b" "field \<in> T"
  shows "(field_state (glb a b) field = Valid \<longleftrightarrow>
            field_state a field = Valid \<and> field_state b field = Valid) \<and>
         (is_readable (glb a b) \<longleftrightarrow> is_readable a \<and> is_readable b)"
proof -
  have "is_readable (glb a b) \<longleftrightarrow> is_readable a \<and> is_readable b"
    by (cases a; cases b) (simp_all add: is_readable_def)
  with assms show ?thesis
    by (simp add: field_state_valid_iff valid_members_glb)
qed

theorem merge_readable_iff_both_witness:
  "field_state (glb (PartialInit {1, 2}) (PartialInit {2})) 2 = Valid"
  using merge_readable_iff_both [of "{1, 2}" "PartialInit {1, 2}" "PartialInit {2}" 2]
  by (simp add: wf_state_def)

end
