(* ===== verification/Type_Env.thy ===== *)
theory Type_Env
  imports Mode_Lattice
begin

text \<open>
  The lexical type-and-mode environment, \<^verbatim>\<open>crates/edda-types/src/infer/env.rs\<close>. An
  environment is the vector of open frames, outermost first as in the source; a frame is
  the hash map of one block, an association list in its iteration order. Operations that
  the source performs in place return the new environment. Binding into an environment
  without a frame is the source's \<^verbatim>\<open>expect\<close> panic, \<^const>\<open>None\<close>; the debug assertions of
  \<^verbatim>\<open>exit_scope\<close>, \<^verbatim>\<open>merge_glb\<close> and \<^verbatim>\<open>restore_mutability\<close> are not part of a release build.
\<close>

record binding_info =
  bi_ty :: ty_id
  bi_state :: binding_state
  bi_mutable :: bool

type_synonym frame = "(symbol \<times> binding_info) list"
type_synonym ty_env = "frame list"
type_synonym mutability_snapshot = "(symbol \<times> bool) list list"

definition env_new :: ty_env where
  "env_new = [[]]"

definition enter_scope :: "ty_env \<Rightarrow> ty_env" where
  "enter_scope env = env @ [[]]"

definition exit_scope :: "ty_env \<Rightarrow> ty_env" where
  "exit_scope env = butlast env"

definition bind_with_state_mut ::
  "ty_env \<Rightarrow> symbol \<Rightarrow> ty_id \<Rightarrow> binding_state \<Rightarrow> bool \<Rightarrow> ty_env option" where
  "bind_with_state_mut env name ty state mut =
     (if env = [] then None
      else Some (butlast env @
        [AList.update name \<lparr>bi_ty = ty, bi_state = state, bi_mutable = mut\<rparr> (last env)]))"

definition bind_with_state :: "ty_env \<Rightarrow> symbol \<Rightarrow> ty_id \<Rightarrow> binding_state \<Rightarrow> ty_env option" where
  "bind_with_state env name ty state = bind_with_state_mut env name ty state True"

definition env_bind :: "ty_env \<Rightarrow> symbol \<Rightarrow> ty_id \<Rightarrow> ty_env option" where
  "env_bind env name ty = bind_with_state env name ty Valid"

primrec lookup_frames :: "frame list \<Rightarrow> symbol \<Rightarrow> binding_info option" where
  "lookup_frames [] name = None"
| "lookup_frames (f # fs) name =
     (case map_of f name of Some info \<Rightarrow> Some info | None \<Rightarrow> lookup_frames fs name)"

definition lookup_info :: "ty_env \<Rightarrow> symbol \<Rightarrow> binding_info option" where
  "lookup_info env name = lookup_frames (rev env) name"

definition env_lookup :: "ty_env \<Rightarrow> symbol \<Rightarrow> ty_id option" where
  "env_lookup env name = map_option bi_ty (lookup_info env name)"

definition lookup_field_state :: "ty_env \<Rightarrow> symbol \<Rightarrow> symbol \<Rightarrow> binding_state option" where
  "lookup_field_state env name field =
     map_option (\<lambda>info. field_state (bi_state info) field) (lookup_info env name)"

definition lookup_state :: "ty_env \<Rightarrow> symbol \<Rightarrow> binding_state option" where
  "lookup_state env name = map_option bi_state (lookup_info env name)"

definition lookup_mutable :: "ty_env \<Rightarrow> symbol \<Rightarrow> bool option" where
  "lookup_mutable env name = map_option bi_mutable (lookup_info env name)"

primrec transition_frames :: "frame list \<Rightarrow> symbol \<Rightarrow> binding_state \<Rightarrow> frame list \<times> bool" where
  "transition_frames [] name new_state = ([], False)"
| "transition_frames (f # fs) name new_state =
     (if map_of f name \<noteq> None
      then (modify_entry name (\<lambda>info. info\<lparr>bi_state := new_state\<rparr>) f # fs, True)
      else let (fs', found) = transition_frames fs name new_state in (f # fs', found))"

definition transition :: "ty_env \<Rightarrow> symbol \<Rightarrow> binding_state \<Rightarrow> ty_env \<times> bool" where
  "transition env name new_state =
     (let (fs, found) = transition_frames (rev env) name new_state in (rev fs, found))"

fun merge_frame :: "frame \<Rightarrow> frame \<Rightarrow> frame" where
  "merge_frame mine [] = mine"
| "merge_frame mine ((name, their_info) # theirs) =
     merge_frame
       (modify_entry name
          (\<lambda>my_info. my_info\<lparr>bi_state := glb (bi_state my_info) (bi_state their_info)\<rparr>) mine)
       theirs"

fun merge_glb :: "ty_env \<Rightarrow> ty_env \<Rightarrow> ty_env" where
  "merge_glb (mine # ms) (theirs # ts) = merge_frame mine theirs # merge_glb ms ts"
| "merge_glb ms [] = ms"
| "merge_glb [] ts = []"

definition env_depth :: "ty_env \<Rightarrow> nat" where
  "env_depth env = length env"

definition restrict_mutability :: "ty_env \<Rightarrow> ty_env \<times> mutability_snapshot" where
  "restrict_mutability env =
     (map (map (\<lambda>(s, info). (s, info\<lparr>bi_mutable := False\<rparr>))) env,
      map (map (\<lambda>(s, info). (s, bi_mutable info))) env)"

fun restore_frame :: "frame \<Rightarrow> (symbol \<times> bool) list \<Rightarrow> frame" where
  "restore_frame f [] = f"
| "restore_frame f ((s, mut) # saved) =
     restore_frame (modify_entry s (\<lambda>info. info\<lparr>bi_mutable := mut\<rparr>) f) saved"

fun restore_mutability :: "ty_env \<Rightarrow> mutability_snapshot \<Rightarrow> ty_env" where
  "restore_mutability (f # fs) (saved # ss) = restore_frame f saved # restore_mutability fs ss"
| "restore_mutability fs [] = fs"
| "restore_mutability [] ss = []"

definition iter_states :: "ty_env \<Rightarrow> (symbol \<times> binding_state) list" where
  "iter_states env = concat (map (map (\<lambda>(s, info). (s, bi_state info))) (rev env))"

definition iter_top_frame :: "ty_env \<Rightarrow> (symbol \<times> binding_state \<times> ty_id) list" where
  "iter_top_frame env =
     (if env = [] then [] else map (\<lambda>(s, info). (s, bi_state info, bi_ty info)) (last env))"

section \<open>The interface the mode checker relies on\<close>

text \<open>
  The checker reads and replaces binding states by name. The laws below are what a lookup
  returns after a transition; the client lemmas hold for every store with these laws.
\<close>

locale state_store =
  fixes get :: "'e \<Rightarrow> symbol \<Rightarrow> binding_state option"
    and put :: "'e \<Rightarrow> symbol \<Rightarrow> binding_state \<Rightarrow> 'e"
  assumes get_put: "get (put e x s) y = (if x = y \<and> get e x \<noteq> None then Some s else get e y)"
begin

lemma get_put_same: "get e x = Some s' \<Longrightarrow> get (put e x s) x = Some s"
  by (simp add: get_put)

lemma get_put_other: "x \<noteq> y \<Longrightarrow> get (put e x s) y = get e y"
  by (simp add: get_put)

lemma get_put_undefined: "get e x = None \<Longrightarrow> get (put e x s) = get e"
  by (auto simp: get_put)

lemma get_put_commute:
  "x \<noteq> y \<Longrightarrow> get (put (put e x s) y s') = get (put (put e y s') x s)"
  by (rule ext) (auto simp: get_put)

lemma get_put_overwrite: "get (put (put e x s) x s') = get (put e x s')"
  by (rule ext) (auto simp: get_put)

lemma get_put_mono:
  assumes "\<And>y a. get e y = Some a \<Longrightarrow> \<exists>b. get e' y = Some b \<and> a \<le> b" "s \<le> s'"
    and "get e x = None \<Longrightarrow> get e' x = None" "get (put e x s) y = Some a"
  shows "\<exists>b. get (put e' x s') y = Some b \<and> a \<le> b"
  using assms by (cases "get e x") (auto simp: get_put split: if_splits)

end

section \<open>Laws of the environment\<close>

definition wf_env :: "ty_env \<Rightarrow> bool" where
  "wf_env env \<longleftrightarrow> env \<noteq> [] \<and> (\<forall>f \<in> set env. distinct_keys f)"

lemma lookup_transition_frames:
  "lookup_frames (fst (transition_frames fs x s)) y =
     (if x = y then map_option (\<lambda>info. info\<lparr>bi_state := s\<rparr>) (lookup_frames fs x)
      else lookup_frames fs y)"
  by (induction fs) (auto simp: Let_def split: option.splits prod.splits)

lemma lookup_info_transition:
  "lookup_info (fst (transition env x s)) y =
     (if x = y then map_option (\<lambda>info. info\<lparr>bi_state := s\<rparr>) (lookup_info env x)
      else lookup_info env y)"
  by (simp add: transition_def lookup_info_def split_def Let_def lookup_transition_frames)

lemma env_lookup_transition [simp]: "env_lookup (fst (transition env x s)) y = env_lookup env y"
  by (simp add: env_lookup_def lookup_info_transition option.map_comp comp_def)

lemma lookup_mutable_transition [simp]:
  "lookup_mutable (fst (transition env x s)) y = lookup_mutable env y"
  by (simp add: lookup_mutable_def lookup_info_transition option.map_comp comp_def)

interpretation env_store: state_store lookup_state "\<lambda>env x s. fst (transition env x s)"
  by unfold_locales (auto simp: lookup_state_def lookup_info_transition)

lemma map_fst_transition_frames:
  "map (map fst) (fst (transition_frames fs x s)) = map (map fst) fs"
  by (induction fs) (auto simp: Let_def split: prod.splits)

lemma keys_transition: "map (map fst) (fst (transition env x s)) = map (map fst) env"
  by (simp add: transition_def split_def Let_def rev_map [symmetric] map_fst_transition_frames)

lemma distinct_keys_via_map: "(\<forall>f \<in> set fs. distinct_keys f) \<longleftrightarrow> list_all distinct (map (map fst) fs)"
  by (simp add: list_all_iff)

lemma wf_env_keys: "map (map fst) env = map (map fst) env' \<Longrightarrow> wf_env env \<longleftrightarrow> wf_env env'"
  by (metis distinct_keys_via_map map_is_Nil_conv wf_env_def)

lemma transition_wf [wf_intros]: "wf_env env \<Longrightarrow> wf_env (fst (transition env x s))"
  using wf_env_keys [OF keys_transition] by blast

lemma env_new_wf [wf_intros]: "wf_env env_new"
  by (simp add: wf_env_def env_new_def)

lemma enter_scope_wf [wf_intros]: "wf_env env \<Longrightarrow> wf_env (enter_scope env)"
  by (simp add: wf_env_def enter_scope_def)

lemma bind_wf [wf_intros]:
  "wf_env env \<Longrightarrow> bind_with_state_mut env x ty s m = Some env' \<Longrightarrow> wf_env env'"
  unfolding wf_env_def bind_with_state_mut_def
  by (auto simp: distinct_update split: if_splits) (meson in_set_butlastD)

lemma lookup_info_snoc:
  "lookup_info (env @ [f]) x =
     (case map_of f x of Some info \<Rightarrow> Some info | None \<Rightarrow> lookup_info env x)"
  unfolding lookup_info_def by simp

section \<open>Branch merges\<close>

definition same_shape :: "ty_env \<Rightarrow> ty_env \<Rightarrow> bool" where
  "same_shape a b \<longleftrightarrow> list_all2 (\<lambda>f g. set (map fst f) = set (map fst g)) a b"

definition merge_info :: "binding_info \<Rightarrow> binding_info \<Rightarrow> binding_info" where
  "merge_info mine theirs = mine\<lparr>bi_state := glb (bi_state mine) (bi_state theirs)\<rparr>"

lemma map_fst_merge_frame [simp]: "map fst (merge_frame mine theirs) = map fst mine"
  by (induction mine theirs rule: merge_frame.induct) auto

lemma map_of_merge_frame:
  assumes "distinct_keys theirs"
  shows "map_of (merge_frame mine theirs) x =
    (case map_of theirs x of None \<Rightarrow> map_of mine x
     | Some j \<Rightarrow> map_option (\<lambda>i. merge_info i j) (map_of mine x))"
  using assms
proof (induction mine theirs rule: merge_frame.induct)
  case (2 mine name j theirs)
  have "map_of theirs name = None"
    using "2.prems" by (simp add: map_of_eq_None_iff)
  with 2 show ?case
    by (auto simp: merge_info_def split: option.splits)
qed simp

lemma map_of_None_keys: "map_of f x = None \<longleftrightarrow> x \<notin> set (map fst f)"
  by (simp add: map_of_eq_None_iff)

lemma keys_merge_glb: "map (map fst) (merge_glb a b) = map (map fst) a"
  by (induction a b rule: merge_glb.induct) auto

lemma merge_glb_wf [wf_intros]: "wf_env a \<Longrightarrow> wf_env (merge_glb a b)"
  using wf_env_keys [OF keys_merge_glb] by blast

lemma merge_glb_snoc:
  "length a = length b \<Longrightarrow> merge_glb (a @ [f]) (b @ [g]) = merge_glb a b @ [merge_frame f g]"
  by (induction a b rule: list_induct2) auto

lemma lookup_info_merge:
  assumes "same_shape a b" "\<forall>f \<in> set b. distinct_keys f"
  shows "lookup_info (merge_glb a b) x =
    (case lookup_info a x of None \<Rightarrow> None
     | Some i \<Rightarrow> map_option (merge_info i) (lookup_info b x))"
  using assms
proof (induction a arbitrary: b rule: rev_induct)
  case Nil
  then show ?case by (simp add: same_shape_def lookup_info_def)
next
  case (snoc f a)
  from snoc.prems(1) obtain b' g where b: "b = b' @ [g]"
    and sh: "same_shape a b'" and keys: "set (map fst f) = set (map fst g)"
    by (auto simp: same_shape_def list_all2_append1 list_all2_Cons1)
  have len: "length a = length b'"
    using sh by (auto simp: same_shape_def dest: list_all2_lengthD)
  have "map_of f x = None \<longleftrightarrow> map_of g x = None"
    using keys by (simp add: map_of_eq_None_iff)
  with snoc.IH [OF sh] snoc.prems(2) b len show ?case
    by (auto simp: merge_glb_snoc lookup_info_snoc map_of_merge_frame split: option.splits)
qed

lemma lookup_state_merge:
  assumes "same_shape a b" "\<forall>f \<in> set b. distinct_keys f"
    and "lookup_state a x = Some s" "lookup_state b x = Some s'"
  shows "lookup_state (merge_glb a b) x = Some (glb s s')"
  using assms by (auto simp: lookup_state_def lookup_info_merge merge_info_def)

lemma same_shape_keys_eq: "map (map fst) a = map (map fst) b \<Longrightarrow> same_shape a b"
  by (induction a arbitrary: b) (auto simp: same_shape_def list_all2_Cons1 Cons_eq_map_conv
      simp flip: set_map)

lemma restore_frame_other:
  "x \<notin> set (map fst saved) \<Longrightarrow> map_of (restore_frame f saved) x = map_of f x"
  by (induction f saved rule: restore_frame.induct) auto

lemma restore_frame_Cons:
  "x \<notin> set (map fst saved) \<Longrightarrow> restore_frame ((x, i) # f) saved = (x, i) # restore_frame f saved"
  by (induction saved arbitrary: f) auto

lemma restore_restricted_frame:
  assumes "distinct_keys f"
  shows "restore_frame (map (\<lambda>(s, info). (s, info\<lparr>bi_mutable := False\<rparr>)) f)
     (map (\<lambda>(s, info). (s, bi_mutable info)) f) = f"
  using assms
proof (induction f)
  case (Cons a f)
  obtain x i where a: "a = (x, i)" by fastforce
  have "x \<notin> set (map fst (map (\<lambda>(s, info). (s, bi_mutable info)) f))"
    using Cons.prems a by (simp add: case_prod_unfold comp_def)
  with Cons a show ?case
    by (simp add: restore_frame_Cons)
qed simp

text \<open>
  C15: looking a binding up after a branch merge of two environments grown from one
  snapshot yields the greatest lower bound of its two states, with the type and the
  mutability of the surviving environment; a merged environment stays well formed.
\<close>

theorem merge_glb_pointwise:
  assumes "wf_env a" "wf_env b" "same_shape a b"
    and "lookup_info a x = Some i" "lookup_info b x = Some j"
  shows "wf_env (merge_glb a b) \<and>
    lookup_info (merge_glb a b) x = Some (i\<lparr>bi_state := glb (bi_state i) (bi_state j)\<rparr>)"
proof -
  have "\<forall>f \<in> set b. distinct_keys f"
    using assms(2) by (simp add: wf_env_def)
  with assms show ?thesis
    by (simp add: lookup_info_merge merge_info_def merge_glb_wf)
qed

definition demo_env :: "binding_state \<Rightarrow> ty_env" where
  "demo_env s = [[(1, \<lparr>bi_ty = 0, bi_state = s, bi_mutable = True\<rparr>)]]"

theorem merge_glb_pointwise_witness:
  "lookup_state (merge_glb (demo_env Valid) (demo_env Consumed)) 1 = Some Consumed"
  using merge_glb_pointwise [of "demo_env Valid" "demo_env Consumed" 1]
  by (simp add: demo_env_def wf_env_def same_shape_def lookup_info_def lookup_state_def)

text \<open>
  restricting mutability for a spawned body makes every visible binding immutable, and
  restoring the snapshot at the same frame depth gives back exactly the original environment.
\<close>

theorem restrict_restore_roundtrip:
  assumes "wf_env env"
  shows "restore_mutability (fst (restrict_mutability env)) (snd (restrict_mutability env)) = env \<and>
    (\<forall>x. lookup_mutable (fst (restrict_mutability env)) x \<noteq> Some True)"
proof -
  have "restore_mutability (fst (restrict_mutability fs)) (snd (restrict_mutability fs)) = fs"
    if "\<forall>f \<in> set fs. distinct_keys f" for fs
    using that by (induction fs) (simp_all add: restrict_mutability_def restore_restricted_frame)
  moreover have "lookup_frames (map (map (\<lambda>(s, info). (s, info\<lparr>bi_mutable := False\<rparr>))) fs) x = Some i
      \<Longrightarrow> \<not> bi_mutable i" for fs x i
    by (induction fs) (auto simp: map_of_map_snd split: option.splits)
  ultimately show ?thesis
    using assms
    by (auto simp: wf_env_def restrict_mutability_def lookup_mutable_def lookup_info_def rev_map)
qed

theorem restrict_restore_roundtrip_witness:
  "restore_mutability (fst (restrict_mutability (demo_env Uninit)))
     (snd (restrict_mutability (demo_env Uninit))) = demo_env Uninit"
  using restrict_restore_roundtrip [of "demo_env Uninit"]
  by (simp add: demo_env_def wf_env_def)

end
