(* ===== verification/Primitives.thy ===== *)
theory Primitives
  imports Edda_Prelude
begin

text \<open>
  The locked catalogue of built-in types, \<^verbatim>\<open>crates/edda-types/src/prim.rs\<close>: the enum
  \<^verbatim>\<open>Primitive\<close>, its discriminants, its source spellings with the reverse lookup, and the
  classification predicates that the type checker and the compile-time evaluator use.
\<close>

datatype primitive =
  I8 | I16 | I32 | I64 | I128 | Isize
| U8 | U16 | U32 | U64 | U128 | Usize
| F32 | F64
| PBool | PUnit | PNever | PType | PString | HeapPtr | Codepoint

definition prim_all :: "primitive list" where
  "prim_all = [I8, I16, I32, I64, I128, Isize, U8, U16, U32, U64, U128, Usize,
     F32, F64, PBool, PUnit, PNever, PType, PString, HeapPtr, Codepoint]"

fun prim_as_index :: "primitive \<Rightarrow> nat" where
  "prim_as_index I8 = 0"
| "prim_as_index I16 = 1"
| "prim_as_index I32 = 2"
| "prim_as_index I64 = 3"
| "prim_as_index I128 = 4"
| "prim_as_index Isize = 5"
| "prim_as_index U8 = 6"
| "prim_as_index U16 = 7"
| "prim_as_index U32 = 8"
| "prim_as_index U64 = 9"
| "prim_as_index U128 = 10"
| "prim_as_index Usize = 11"
| "prim_as_index F32 = 12"
| "prim_as_index F64 = 13"
| "prim_as_index PBool = 14"
| "prim_as_index PUnit = 15"
| "prim_as_index PNever = 16"
| "prim_as_index PType = 17"
| "prim_as_index PString = 18"
| "prim_as_index HeapPtr = 19"
| "prim_as_index Codepoint = 20"

fun prim_name :: "primitive \<Rightarrow> string" where
  "prim_name I8 = ''i8''"
| "prim_name I16 = ''i16''"
| "prim_name I32 = ''i32''"
| "prim_name I64 = ''i64''"
| "prim_name I128 = ''i128''"
| "prim_name Isize = ''isize''"
| "prim_name U8 = ''u8''"
| "prim_name U16 = ''u16''"
| "prim_name U32 = ''u32''"
| "prim_name U64 = ''u64''"
| "prim_name U128 = ''u128''"
| "prim_name Usize = ''usize''"
| "prim_name F32 = ''f32''"
| "prim_name F64 = ''f64''"
| "prim_name PBool = ''bool''"
| "prim_name PUnit = ''()''"
| "prim_name PNever = ''never''"
| "prim_name PType = ''Type''"
| "prim_name PString = ''String''"
| "prim_name HeapPtr = ''HeapPtr''"
| "prim_name Codepoint = ''Codepoint''"

definition prim_from_name :: "string \<Rightarrow> primitive option" where
  "prim_from_name s = List.find (\<lambda>p. prim_name p = s) prim_all"

fun is_signed_integer :: "primitive \<Rightarrow> bool" where
  "is_signed_integer p = (p \<in> {I8, I16, I32, I64, I128, Isize})"

fun is_unsigned_integer :: "primitive \<Rightarrow> bool" where
  "is_unsigned_integer p = (p \<in> {U8, U16, U32, U64, U128, Usize})"

definition is_integer :: "primitive \<Rightarrow> bool" where
  "is_integer p \<longleftrightarrow> is_signed_integer p \<or> is_unsigned_integer p"

definition is_float :: "primitive \<Rightarrow> bool" where
  "is_float p \<longleftrightarrow> p \<in> {F32, F64}"

definition is_numeric :: "primitive \<Rightarrow> bool" where
  "is_numeric p \<longleftrightarrow> is_integer p \<or> is_float p"

fun is_trivially_droppable :: "primitive \<Rightarrow> bool" where
  "is_trivially_droppable PString = False"
| "is_trivially_droppable HeapPtr = False"
| "is_trivially_droppable _ = True"

lemma prim_all_complete: "p \<in> set prim_all"
  by (cases p) (simp_all add: prim_all_def)

lemma find_unique:
  assumes "x \<in> set xs" "\<And>y. y \<in> set xs \<Longrightarrow> P y \<longleftrightarrow> y = x"
  shows "List.find P xs = Some x"
  using assms by (induction xs) auto

lemma prim_name_inj: "prim_name p = prim_name q \<Longrightarrow> p = q"
  by (cases p; cases q) simp_all

lemma signed_xor_unsigned: "is_signed_integer p \<Longrightarrow> \<not> is_unsigned_integer p"
  by auto

text \<open>
  the catalogue table is in discriminant order without gaps, and the source spelling
  of a primitive parses back to exactly that primitive; no other string parses.
\<close>

theorem prim_from_name_iff:
  "prim_all ! prim_as_index p = p \<and> (prim_from_name s = Some p \<longleftrightarrow> s = prim_name p)"
proof -
  have "prim_from_name (prim_name p) = Some p"
    unfolding prim_from_name_def
    by (rule find_unique) (auto simp: prim_all_complete dest: prim_name_inj)
  moreover have "s = prim_name p" if "prim_from_name s = Some p"
    using that by (auto simp: prim_from_name_def find_Some_iff)
  moreover have "prim_all ! prim_as_index p = p"
    by (cases p) (simp_all add: prim_all_def)
  ultimately show ?thesis by auto
qed

end
