(* ===== verification/Source_Map.thy ===== *)
theory Source_Map
  imports Edda_Prelude
begin

text \<open>
  Source spans and the source map, \<^verbatim>\<open>crates/edda-span/src/lib.rs\<close>. File contents are
  UTF-8 byte sequences. A lookup with an unknown file handle, an offset outside the file or
  a slice that is not on character boundaries is the source's panic, \<^const>\<open>None\<close>.
\<close>

record span =
  span_file :: u32
  span_lo :: u32
  span_hi :: u32

definition span_dummy :: span where
  "span_dummy = \<lparr>span_file = 0xFFFFFFFF, span_lo = 0, span_hi = 0\<rparr>"

definition span_new :: "u32 \<Rightarrow> u32 \<Rightarrow> u32 \<Rightarrow> span" where
  "span_new file lo hi = \<lparr>span_file = file, span_lo = lo, span_hi = hi\<rparr>"

definition span_len :: "span \<Rightarrow> u32" where
  "span_len s = (if span_lo s \<le> span_hi s then span_hi s - span_lo s else 0)"

definition span_is_empty :: "span \<Rightarrow> bool" where
  "span_is_empty s \<longleftrightarrow> span_lo s = span_hi s"

definition span_is_dummy :: "span \<Rightarrow> bool" where
  "span_is_dummy s \<longleftrightarrow> span_file s = span_file span_dummy"

definition span_join :: "span \<Rightarrow> span \<Rightarrow> span" where
  "span_join a b = \<lparr>span_file = span_file a, span_lo = min (span_lo a) (span_lo b),
     span_hi = max (span_hi a) (span_hi b)\<rparr>"

record file_entry =
  fe_name :: string
  fe_content :: bytes

type_synonym source_map = "file_entry list"

record line_col =
  lc_line :: u32
  lc_col :: u32

definition add_file :: "source_map \<Rightarrow> string \<Rightarrow> bytes \<Rightarrow> (source_map \<times> u32) option" where
  "add_file files name content =
     (if length files < 2 ^ 32
      then Some (files @ [\<lparr>fe_name = name, fe_content = content\<rparr>], of_nat (length files))
      else None)"

definition file_name :: "source_map \<Rightarrow> u32 \<Rightarrow> string option" where
  "file_name files i =
     (if unat i < length files then Some (fe_name (files ! unat i)) else None)"

definition file_content :: "source_map \<Rightarrow> u32 \<Rightarrow> bytes option" where
  "file_content files i =
     (if unat i < length files then Some (fe_content (files ! unat i)) else None)"

text \<open>\<^verbatim>\<open>str\<close> slicing panics unless both ends are on character boundaries: the start, the end,
  or a byte that does not continue a multi-byte sequence.\<close>

definition is_char_boundary :: "bytes \<Rightarrow> nat \<Rightarrow> bool" where
  "is_char_boundary bs k \<longleftrightarrow>
     k = 0 \<or> k = length bs \<or> (k < length bs \<and> (bs ! k < 0x80 \<or> bs ! k \<ge> 0xC0))"

definition str_slice :: "bytes \<Rightarrow> nat \<Rightarrow> nat \<Rightarrow> bytes option" where
  "str_slice bs lo hi =
     (if lo \<le> hi \<and> hi \<le> length bs \<and> is_char_boundary bs lo \<and> is_char_boundary bs hi
      then Some (take (hi - lo) (drop lo bs)) else None)"

definition span_text :: "source_map \<Rightarrow> span \<Rightarrow> bytes option" where
  "span_text files s =
     (if span_is_dummy s then None
      else case file_content files (span_file s) of
             None \<Rightarrow> None
           | Some text \<Rightarrow> str_slice text (unat (span_lo s)) (unat (span_hi s)))"

text \<open>
  The loop of \<^verbatim>\<open>compute_linecol\<close> over the bytes before the offset; its state is the line
  counter (which saturates), the index after the last newline, and the position.
\<close>

fun linecol_scan :: "bytes \<Rightarrow> nat \<Rightarrow> u32 \<Rightarrow> nat \<Rightarrow> bool \<Rightarrow> u32 \<times> nat \<times> bool" where
  "linecol_scan [] i line last_newline seen = (line, last_newline, seen)"
| "linecol_scan (b # bs) i line last_newline seen =
     (if b = 10
      then linecol_scan bs (Suc i) (if line = 0xFFFFFFFF then line else line + 1) (Suc i) True
      else linecol_scan bs (Suc i) line last_newline seen)"

definition compute_linecol :: "bytes \<Rightarrow> nat \<Rightarrow> line_col" where
  "compute_linecol content offset =
     (let (line, last_newline, seen_newline) = linecol_scan (take offset content) 0 1 0 False;
          col_start = (if seen_newline then last_newline else 0);
          raw = (if offset - col_start < 2 ^ 32 then of_nat (offset - col_start) else 0xFFFFFFFF)
      in \<lparr>lc_line = line, lc_col = (if raw = 0xFFFFFFFF then raw else raw + 1)\<rparr>)"

definition byte_to_linecol :: "source_map \<Rightarrow> u32 \<Rightarrow> u32 \<Rightarrow> line_col option" where
  "byte_to_linecol files file pos =
     (case file_content files file of
        None \<Rightarrow> None
      | Some content \<Rightarrow>
          if unat pos \<le> length content then Some (compute_linecol content (unat pos)) else None)"

section \<open>What the scan computes\<close>

fun newlines :: "bytes \<Rightarrow> nat" where
  "newlines [] = 0"
| "newlines (b # bs) = (if b = 10 then Suc (newlines bs) else newlines bs)"

text \<open>Bytes since the last newline, the reference definition of the column.\<close>

definition since_newline :: "bytes \<Rightarrow> nat" where
  "since_newline bs = length (takeWhile (\<lambda>b. b \<noteq> 10) (rev bs))"

lemma newlines_append [simp]: "newlines (xs @ ys) = newlines xs + newlines ys"
  by (induction xs) auto

lemma newlines_le: "newlines bs \<le> length bs"
  by (induction bs) auto

lemma since_newline_le: "since_newline bs \<le> length bs"
  using length_takeWhile_le [of "\<lambda>b. b \<noteq> 10" "rev bs"] by (simp add: since_newline_def)

lemma since_newline_snoc [simp]:
  "since_newline (bs @ [b]) = (if b = 10 then 0 else Suc (since_newline bs))"
  by (simp add: since_newline_def)

lemma linecol_scan_append:
  "linecol_scan (xs @ ys) i line ln seen =
     (let (line', ln', seen') = linecol_scan xs i line ln seen
      in linecol_scan ys (i + length xs) line' ln' seen')"
  by (induction xs arbitrary: i line ln seen) (auto simp: Let_def)

lemma linecol_scan_spec:
  assumes "length bs < 2 ^ 32 - 1"
  shows "linecol_scan bs 0 1 0 False =
    (of_nat (Suc (newlines bs)), length bs - since_newline bs, newlines bs > 0)"
  using assms
proof (induction bs rule: rev_induct)
  case Nil
  then show ?case by (simp add: since_newline_def)
next
  case (snoc b bs)
  have n: "Suc (newlines bs) < 2 ^ 32 - 1"
    using snoc.prems newlines_le [of bs] by simp
  have "unat (of_nat (Suc (newlines bs)) :: u32) = Suc (newlines bs)"
    using n by (intro unat_of_nat_less) simp
  then have "(of_nat (Suc (newlines bs)) :: u32) \<noteq> 0xFFFFFFFF"
    using n by (auto simp: word_unat_eq_iff)
  with snoc since_newline_le [of bs] show ?case
    by (auto simp: linecol_scan_append Let_def Suc_diff_le)
qed

lemma no_newline_since: "newlines bs = 0 \<Longrightarrow> since_newline bs = length bs"
  by (induction bs rule: rev_induct) (auto simp: since_newline_def)

lemma compute_linecol_spec:
  assumes "offset \<le> length content" "length content < 2 ^ 32 - 1"
  shows "compute_linecol content offset =
    \<lparr>lc_line = of_nat (Suc (newlines (take offset content))),
     lc_col = of_nat (Suc (since_newline (take offset content)))\<rparr>"
proof -
  let ?p = "take offset content"
  have len: "length ?p = offset" using assms by simp
  have s: "since_newline ?p \<le> offset"
    using since_newline_le [of ?p] len by simp
  have start: "offset - (if newlines ?p > 0 then length ?p - since_newline ?p else 0) = since_newline ?p"
    using len s no_newline_since [of ?p] by auto
  have b: "since_newline ?p < 2 ^ 32 - 1"
    using s assms by simp
  have "unat (of_nat (since_newline ?p) :: u32) = since_newline ?p"
    using b by (intro unat_of_nat_less) simp
  then have "(of_nat (since_newline ?p) :: u32) \<noteq> 0xFFFFFFFF"
    using b by (auto simp: word_unat_eq_iff)
  with start b len assms no_newline_since [of ?p] show ?thesis
    by (cases "newlines ?p > 0") (simp_all add: compute_linecol_def linecol_scan_spec Let_def)
qed

lemma linecol_determines_prefix:
  assumes "i < j" "j \<le> length bs"
    and "newlines (take i bs) = newlines (take j bs)"
  shows "since_newline (take i bs) < since_newline (take j bs)"
  using assms
proof (induction j)
  case (Suc j)
  have t: "take (Suc j) bs = take j bs @ [bs ! j]"
    using Suc.prems by (simp add: take_Suc_conv_app_nth)
  have "newlines (take i bs) \<le> newlines (take j bs)"
  proof -
    from Suc.prems have "take j bs = take i bs @ take (j - i) (drop i bs)"
      by (metis le_add_diff_inverse less_Suc_eq_le take_add)
    then show ?thesis by simp
  qed
  with Suc.prems t have nn: "bs ! j \<noteq> 10" "newlines (take i bs) = newlines (take j bs)"
    by (auto split: if_splits)
  show ?case
  proof (cases "i = j")
    case True
    with t nn show ?thesis by simp
  next
    case False
    with Suc nn t show ?thesis by fastforce
  qed
qed simp

section \<open>Properties\<close>

text \<open>
  C26: a registered file is found again under the handle returned for it, with its name and
  content, and the handles of earlier files keep their meaning.
\<close>

theorem add_file_roundtrip:
  assumes "add_file files name content = Some (files', i)"
  shows "file_content files' i = Some content \<and> file_name files' i = Some name \<and>
    (\<forall>j c. file_content files j = Some c \<longrightarrow> file_content files' j = Some c)"
proof -
  from assms have room: "length files < 2 ^ 32"
    and f: "files' = files @ [\<lparr>fe_name = name, fe_content = content\<rparr>]" "i = of_nat (length files)"
    by (auto simp: add_file_def split: if_splits)
  have "unat i = length files"
    unfolding f using room by (intro unat_of_nat_less) simp
  with f show ?thesis
    by (auto simp: file_content_def file_name_def nth_append split: if_splits)
qed

theorem add_file_roundtrip_witness:
  "\<exists>files' i. add_file [] ''a.ea'' [102, 110] = Some (files', i) \<and>
     file_content files' i = Some [102, 110]"
proof -
  obtain files' i where e: "add_file [] ''a.ea'' [102, 110] = Some (files', i)"
    by (simp add: add_file_def)
  from add_file_roundtrip [OF e] e show ?thesis by blast
qed

text \<open>
  C25: for files below the saturation limit the reported position is the number of newlines
  before the offset plus one and the number of bytes since the last of them plus one, and two
  distinct offsets of a file never share a position.
\<close>

theorem linecol_exact_and_injective:
  assumes "length content < 2 ^ 32 - 1" "i \<le> length content" "j \<le> length content"
  shows "unat (lc_line (compute_linecol content i)) = Suc (newlines (take i content)) \<and>
    unat (lc_col (compute_linecol content i)) = Suc (since_newline (take i content)) \<and>
    (compute_linecol content i = compute_linecol content j \<longleftrightarrow> i = j)"
proof -
  have b: "Suc (newlines (take k content)) < 2 ^ 32" "Suc (since_newline (take k content)) < 2 ^ 32"
    if "k \<le> length content" for k
    using assms(1) that newlines_le [of "take k content"] since_newline_le [of "take k content"]
    by auto
  have u: "unat (of_nat (Suc (newlines (take k content))) :: u32) = Suc (newlines (take k content))"
    "unat (of_nat (Suc (since_newline (take k content))) :: u32) = Suc (since_newline (take k content))"
    if "k \<le> length content" for k
    using b [OF that] by (intro unat_of_nat_less; simp)+
  have "i = j" if "compute_linecol content i = compute_linecol content j"
  proof (rule ccontr)
    assume "i \<noteq> j"
    from that assms have "newlines (take i content) = newlines (take j content)"
      "since_newline (take i content) = since_newline (take j content)"
      using u [OF assms(2)] u [OF assms(3)]
      by (auto simp: compute_linecol_spec word_unat_eq_iff simp del: of_nat_Suc)
    with \<open>i \<noteq> j\<close> assms linecol_determines_prefix [of i j content]
      linecol_determines_prefix [of j i content]
    show False by (cases "i < j") auto
  qed
  with u [OF assms(2)] assms show ?thesis
    by (auto simp: compute_linecol_spec simp del: of_nat_Suc)
qed

theorem linecol_exact_and_injective_witness:
  "unat (lc_line (compute_linecol [97, 10, 98] 2)) = 2"
  using linecol_exact_and_injective [of "[97, 10, 98]" 2 2] by simp

end
