(* ===== verification/Mode_Check.thy ===== *)
theory Mode_Check
  imports Type_Env Primitives Source_Map
begin

text \<open>
  The mode checker of \<^verbatim>\<open>crates/edda-types/src/infer/mode\<close>: place extraction
  (\<^verbatim>\<open>helpers.rs\<close>), the call-argument and field transitions and the loop re-entry check
  (\<^verbatim>\<open>transitions.rs\<close>), the function-exit check with the droppability walk (\<^verbatim>\<open>exit.rs\<close>),
  and the linear-consumption sweep (\<^verbatim>\<open>linear.rs\<close>). \<open>infer_cx\<close> holds what these passes read
  of the inference context: the interned type kinds, the declaration table and the string
  interner. A diagnostic carries its span and the values its message interpolates; each
  operation returns the diagnostics it appends.
\<close>

type_synonym binding_id = "nat \<times> nat"

datatype linearity = Affine | Linear

record field_info =
  fi_name :: symbol
  fi_ty :: ty_id

datatype variant_payload_info =
  PayloadUnit | PayloadTuple "ty_id list" | PayloadStruct "field_info list"

record variant_info =
  vi_name :: symbol
  vi_payload :: variant_payload_info

datatype type_decl_shape = Product "field_info list" | Sum "variant_info list"

record type_decl_info =
  td_linearity :: "linearity option"
  td_kind :: type_decl_shape

datatype ty_kind =
  TPrimitive primitive | TTuple "ty_id list" | TSlice ty_id | TNominal binding_id
| TCapability nat | TFnPtr nat | TError

record infer_cx =
  ic_kind :: "ty_id \<Rightarrow> ty_kind"
  ic_type_decl :: "binding_id \<rightharpoonup> type_decl_info"
  ic_intern :: "string \<Rightarrow> symbol"

datatype hir_call_mode = Mutable | Take | Init

text \<open>The expression shapes that name a place; every other shape is \<open>HOther\<close>.\<close>

datatype hir_expr =
  HPath "symbol list" | HField hir_expr symbol | HTupleIndex hir_expr u32 | HOther

record hir_call_arg =
  ca_span :: span
  ca_mode :: "hir_call_mode option"
  ca_expr :: hir_expr

datatype mode_diag =
  ImmutableBorrow span hir_call_mode symbol "symbol option"
| BindingStateMismatch span hir_call_mode symbol binding_state binding_state
| FieldNotUninit span symbol symbol binding_state
| FieldStateMismatch span hir_call_mode symbol symbol binding_state
| LoopStateChanged span symbol binding_state binding_state
| ExitPartial span symbol "symbol list"
| ExitNotValid span symbol binding_state
| LinearUnconsumed span symbol

section \<open>Places and member sets\<close>

fun path_binding :: "hir_expr \<Rightarrow> symbol option" where
  "path_binding (HPath [s]) = Some s"
| "path_binding _ = None"

fun field_projection_binding :: "hir_expr \<Rightarrow> (symbol \<times> symbol) option" where
  "field_projection_binding (HField receiver name) =
     map_option (\<lambda>b. (b, name)) (path_binding receiver)"
| "field_projection_binding _ = None"

fun tuple_index_binding :: "hir_expr \<Rightarrow> (symbol \<times> u32) option" where
  "tuple_index_binding (HTupleIndex receiver index) =
     map_option (\<lambda>b. (b, index)) (path_binding receiver)"
| "tuple_index_binding _ = None"

definition type_field_set :: "infer_cx \<Rightarrow> ty_id \<Rightarrow> symbol set option" where
  "type_field_set cx ty =
     (case ic_kind cx ty of
        TNominal b \<Rightarrow>
          (case ic_type_decl cx b of
             None \<Rightarrow> None
           | Some decl \<Rightarrow>
               (case td_kind decl of
                  Product fs \<Rightarrow> Some (set (map fi_name fs))
                | Sum _ \<Rightarrow> None))
      | TTuple elems \<Rightarrow> Some (set (map (\<lambda>i. ic_intern cx (dec_nat i)) [0..<length elems]))
      | _ \<Rightarrow> None)"

section \<open>Call-argument transitions\<close>

definition reject_immutable_borrow ::
  "ty_env \<Rightarrow> span \<Rightarrow> hir_call_mode \<Rightarrow> symbol \<Rightarrow> symbol option \<Rightarrow> mode_diag option" where
  "reject_immutable_borrow env sp mode binding field =
     (if mode \<noteq> Mutable \<and> mode \<noteq> Init then None
      else if lookup_mutable env binding \<noteq> Some False then None
      else Some (ImmutableBorrow sp mode binding field))"

definition summarise :: "symbol set \<Rightarrow> symbol set \<Rightarrow> binding_state" where
  "summarise full_set valid_set =
     (if valid_set = full_set then Valid
      else if valid_set = {} then Uninit
      else PartialInit valid_set)"

definition apply_field_state_transition ::
  "ty_env \<Rightarrow> symbol \<Rightarrow> symbol \<Rightarrow> bool \<Rightarrow> symbol set \<Rightarrow> ty_env" where
  "apply_field_state_transition env binding field valid full_set =
     (case lookup_state env binding of
        None \<Rightarrow> env
      | Some current \<Rightarrow>
          let valid_set = (case current of
                Valid \<Rightarrow> full_set
              | Uninit \<Rightarrow> {}
              | Consumed \<Rightarrow> {}
              | PartialInit f \<Rightarrow> f);
              valid_set' = (if valid then insert field valid_set else valid_set - {field})
          in fst (transition env binding (summarise full_set valid_set')))"

definition apply_field_mode_transition ::
  "infer_cx \<Rightarrow> ty_env \<Rightarrow> span \<Rightarrow> symbol \<Rightarrow> symbol \<Rightarrow> hir_call_mode \<Rightarrow> ty_env \<times> mode_diag list" where
  "apply_field_mode_transition cx env sp binding field mode =
     (case lookup_state env binding of
        None \<Rightarrow> (env, [])
      | Some binding_state \<Rightarrow>
          case reject_immutable_borrow env sp mode binding (Some field) of
            Some d \<Rightarrow> (env, [d])
          | None \<Rightarrow>
              case env_lookup env binding of
                None \<Rightarrow> (env, [])
              | Some binding_ty \<Rightarrow>
                  case type_field_set cx binding_ty of
                    None \<Rightarrow> (env, [])
                  | Some full_set \<Rightarrow>
                      if field \<notin> full_set then (env, [])
                      else let pre_field = field_state binding_state field
                        in case mode of
                             Init \<Rightarrow>
                               if pre_field = Uninit \<or> pre_field = Consumed
                               then (apply_field_state_transition env binding field True full_set, [])
                               else (env, [FieldNotUninit sp binding field pre_field])
                           | _ \<Rightarrow>
                               if pre_field \<noteq> Valid
                               then (env, [FieldStateMismatch sp mode binding field pre_field])
                               else (apply_field_state_transition env binding field
                                       (mode = Mutable) full_set, []))"

definition mode_required :: "hir_call_mode \<Rightarrow> binding_state" where
  "mode_required mode = (case mode of Mutable \<Rightarrow> Valid | Take \<Rightarrow> Valid | Init \<Rightarrow> Uninit)"

definition mode_post :: "hir_call_mode \<Rightarrow> binding_state" where
  "mode_post mode = (case mode of Mutable \<Rightarrow> Valid | Take \<Rightarrow> Consumed | Init \<Rightarrow> Valid)"

definition apply_mode_transition ::
  "infer_cx \<Rightarrow> ty_env \<Rightarrow> hir_call_mode \<Rightarrow> hir_expr \<Rightarrow> span \<Rightarrow> ty_env \<times> mode_diag list" where
  "apply_mode_transition cx env mode expr sp =
     (case field_projection_binding expr of
        Some (binding, field) \<Rightarrow> apply_field_mode_transition cx env sp binding field mode
      | None \<Rightarrow>
          case path_binding expr of
            None \<Rightarrow> (env, [])
          | Some s \<Rightarrow>
              case reject_immutable_borrow env sp mode s None of
                Some d \<Rightarrow> (env, [d])
              | None \<Rightarrow>
                  case lookup_state env s of
                    None \<Rightarrow> (env, [])
                  | Some pre \<Rightarrow>
                      if pre \<noteq> mode_required mode
                      then (env, [BindingStateMismatch sp mode s (mode_required mode) pre])
                      else (fst (transition env s (mode_post mode)), []))"

definition apply_call_mode_transition ::
  "infer_cx \<Rightarrow> ty_env \<Rightarrow> hir_call_arg \<Rightarrow> ty_env \<times> mode_diag list" where
  "apply_call_mode_transition cx env arg =
     (case ca_mode arg of
        None \<Rightarrow> (env, [])
      | Some mode \<Rightarrow> apply_mode_transition cx env mode (ca_expr arg) (ca_span arg))"

definition apply_field_assign_transition ::
  "infer_cx \<Rightarrow> ty_env \<Rightarrow> symbol \<Rightarrow> symbol \<Rightarrow> ty_env \<times> bool" where
  "apply_field_assign_transition cx env binding field =
     (case env_lookup env binding of
        None \<Rightarrow> (env, False)
      | Some binding_ty \<Rightarrow>
          case type_field_set cx binding_ty of
            None \<Rightarrow> (env, False)
          | Some full_set \<Rightarrow>
              if field \<notin> full_set then (env, False)
              else (apply_field_state_transition env binding field True full_set, True))"

section \<open>Loop re-entry\<close>

fun loop_reentry_scan ::
  "ty_env \<Rightarrow> span \<Rightarrow> symbol set \<Rightarrow> (symbol \<times> binding_state) list \<Rightarrow> mode_diag list" where
  "loop_reentry_scan pre sp reported [] = []"
| "loop_reentry_scan pre sp reported ((s, post_state) # rest) =
     (if s \<in> reported then loop_reentry_scan pre sp reported rest
      else case lookup_state pre s of
             None \<Rightarrow> loop_reentry_scan pre sp reported rest
           | Some pre_state \<Rightarrow>
               if pre_state \<noteq> post_state
               then LoopStateChanged sp s pre_state post_state
                      # loop_reentry_scan pre sp (insert s reported) rest
               else loop_reentry_scan pre sp reported rest)"

definition check_loop_reentry :: "ty_env \<Rightarrow> ty_env \<Rightarrow> span \<Rightarrow> mode_diag list" where
  "check_loop_reentry post pre sp = loop_reentry_scan pre sp {} (iter_states post)"

section \<open>Droppability and the function exit\<close>

fun payload_tys :: "variant_payload_info \<Rightarrow> ty_id list" where
  "payload_tys PayloadUnit = []"
| "payload_tys (PayloadTuple elems) = elems"
| "payload_tys (PayloadStruct fs) = map fi_ty fs"

text \<open>
  The recursive walk threads one \<^verbatim>\<open>visited\<close> set through all siblings. \<open>droppable_all\<close> is the
  short-circuiting \<^verbatim>\<open>all\<close> over the component types of a tuple, a product, or the payloads
  of a sum.
\<close>

function (sequential)
  droppable_walk :: "infer_cx \<Rightarrow> ty_id \<Rightarrow> ty_id set \<Rightarrow> bool \<times> ty_id set" and
  droppable_all :: "infer_cx \<Rightarrow> ty_id list \<Rightarrow> ty_id set \<Rightarrow> bool \<times> ty_id set" where
  "droppable_walk cx ty visited =
     (if ty \<in> visited then (False, visited)
      else case ic_kind cx ty of
             TPrimitive p \<Rightarrow> (is_trivially_droppable p, insert ty visited)
           | TTuple elems \<Rightarrow> droppable_all cx elems (insert ty visited)
           | TNominal b \<Rightarrow>
               (case ic_type_decl cx b of
                  None \<Rightarrow> (False, insert ty visited)
                | Some decl \<Rightarrow>
                    if td_linearity decl \<noteq> None then (False, insert ty visited)
                    else case td_kind decl of
                           Product fs \<Rightarrow> droppable_all cx (map fi_ty fs) (insert ty visited)
                         | Sum vs \<Rightarrow>
                             droppable_all cx (concat (map (\<lambda>v. payload_tys (vi_payload v)) vs))
                               (insert ty visited))
           | _ \<Rightarrow> (False, insert ty visited))"
| "droppable_all cx [] visited = (True, visited)"
| "droppable_all cx (t # ts) visited =
     (let (ok, visited') = droppable_walk cx t visited
      in if ok then droppable_all cx ts visited' else (False, visited'))"
  by pat_completeness auto

termination
proof -
  have grows: "droppable_walk_droppable_all_dom (Inl (cx, ty, v)) \<Longrightarrow> v \<subseteq> snd (droppable_walk cx ty v)"
    "droppable_walk_droppable_all_dom (Inr (cx, ts, v)) \<Longrightarrow> v \<subseteq> snd (droppable_all cx ts v)" for cx ty ts v
  proof (induction cx ty v and cx ts v rule: droppable_walk_droppable_all.pinduct)
    case (1 cx ty v)
    from "1.hyps" show ?case
      using "1.IH"
      by (subst droppable_walk.psimps)
        (auto split: ty_kind.splits option.splits type_decl_shape.splits if_splits)
  next
    case (2 cx v)
    then show ?case by (simp add: droppable_all.psimps)
  next
    case (3 cx t ts v)
    then show ?case by (fastforce simp: droppable_all.psimps split: prod.splits)
  qed
  show ?thesis
  proof (relation "measures [\<lambda>x. case x of Inl (cx, ty, v) \<Rightarrow> card (- v) | Inr (cx, ts, v) \<Rightarrow> card (- v),
      \<lambda>x. case x of Inl (cx, ty, v) \<Rightarrow> 0 | Inr (cx, ts, v) \<Rightarrow> Suc (length ts)]", goal_cases)
    case (6 cx t ts v p ok v')
    then have "v \<subseteq> v'"
      using grows(1) [of cx t v] by (metis snd_conv)
    then have "card (- v') \<le> card (- v)"
      by (intro card_mono) auto
    then show ?case by (auto simp: le_less)
  qed (auto intro!: psubset_card_mono)
qed

definition is_trivially_droppable_at_exit :: "infer_cx \<Rightarrow> ty_id \<Rightarrow> bool" where
  "is_trivially_droppable_at_exit cx ty = fst (droppable_walk cx ty {})"

definition field_ty :: "infer_cx \<Rightarrow> ty_id \<Rightarrow> symbol \<Rightarrow> ty_id option" where
  "field_ty cx binding_ty field =
     (case ic_kind cx binding_ty of
        TNominal b \<Rightarrow>
          (case ic_type_decl cx b of
             None \<Rightarrow> None
           | Some decl \<Rightarrow>
               (case td_kind decl of
                  Product fs \<Rightarrow> map_option fi_ty (List.find (\<lambda>f. fi_name f = field) fs)
                | Sum _ \<Rightarrow> None))
      | _ \<Rightarrow> None)"

text \<open>The diagnostic, if any, that the exit check emits for one binding.\<close>

definition exit_diag ::
  "infer_cx \<Rightarrow> ty_env \<Rightarrow> span \<Rightarrow> symbol list \<Rightarrow> symbol \<Rightarrow> binding_state \<Rightarrow> mode_diag option" where
  "exit_diag cx env sp take_params s state =
     (case state of
        Valid \<Rightarrow> None
      | Consumed \<Rightarrow> None
      | Uninit \<Rightarrow> Some (ExitNotValid sp s Uninit)
      | PartialInit valid_fields \<Rightarrow>
          (case env_lookup env s of
             None \<Rightarrow> None
           | Some binding_ty \<Rightarrow>
               (case type_field_set cx binding_ty of
                  None \<Rightarrow> None
                | Some full_set \<Rightarrow>
                    let missing = filter (\<lambda>f. f \<notin> valid_fields) (sorted_list_of_set full_set)
                    in if missing = [] then None
                       else if s \<in> set take_params \<and>
                               list_all (\<lambda>f. case field_ty cx binding_ty f of
                                    None \<Rightarrow> False
                                  | Some t \<Rightarrow> is_trivially_droppable_at_exit cx t)
                                 (sorted_list_of_set valid_fields)
                       then None
                       else Some (ExitPartial sp s missing))))"

fun exit_scan ::
  "infer_cx \<Rightarrow> ty_env \<Rightarrow> span \<Rightarrow> symbol list \<Rightarrow> symbol set \<Rightarrow> (symbol \<times> binding_state) list
     \<Rightarrow> mode_diag list" where
  "exit_scan cx env sp take_params reported [] = []"
| "exit_scan cx env sp take_params reported ((s, state) # rest) =
     (if s \<in> reported then exit_scan cx env sp take_params reported rest
      else case exit_diag cx env sp take_params s state of
             None \<Rightarrow> exit_scan cx env sp take_params reported rest
           | Some d \<Rightarrow> d # exit_scan cx env sp take_params (insert s reported) rest)"

definition check_fn_body_exit ::
  "infer_cx \<Rightarrow> ty_env \<Rightarrow> span \<Rightarrow> symbol list \<Rightarrow> mode_diag list" where
  "check_fn_body_exit cx env exit_span take_params =
     exit_scan cx env exit_span take_params {} (iter_states env)"

section \<open>Linear consumption\<close>

definition type_linearity :: "infer_cx \<Rightarrow> ty_id \<Rightarrow> linearity option" where
  "type_linearity cx ty =
     (case ic_kind cx ty of
        TNominal b \<Rightarrow>
          (case ic_type_decl cx b of None \<Rightarrow> None | Some decl \<Rightarrow> td_linearity decl)
      | _ \<Rightarrow> None)"

definition is_linear_type :: "infer_cx \<Rightarrow> ty_id \<Rightarrow> bool" where
  "is_linear_type cx ty \<longleftrightarrow> type_linearity cx ty = Some Linear"

definition consume_moved_linear :: "infer_cx \<Rightarrow> ty_env \<Rightarrow> hir_expr \<Rightarrow> ty_env" where
  "consume_moved_linear cx env expr =
     (case path_binding expr of
        None \<Rightarrow> env
      | Some s \<Rightarrow>
          case env_lookup env s of
            None \<Rightarrow> env
          | Some ty \<Rightarrow>
              if \<not> is_linear_type cx ty then env
              else if lookup_state env s = Some Valid then fst (transition env s Consumed)
              else env)"

definition check_block_exit_linear :: "infer_cx \<Rightarrow> ty_env \<Rightarrow> span \<Rightarrow> mode_diag list" where
  "check_block_exit_linear cx env sp =
     map (\<lambda>(s, _, _). LinearUnconsumed sp s)
       (filter (\<lambda>(_, state, ty). state = Valid \<and> is_linear_type cx ty) (iter_top_frame env))"

section \<open>The branch join\<close>

text \<open>
  How \<^verbatim>\<open>synth_if\<close> (\<^verbatim>\<open>infer/ctrl/branch.rs\<close>) and \<^verbatim>\<open>synth_handle\<close> (\<^verbatim>\<open>infer/effect.rs\<close>) combine the
  environments of two exclusive arms: an arm that always exits the function is dropped.
\<close>

definition join_arms :: "bool \<Rightarrow> bool \<Rightarrow> ty_env \<Rightarrow> ty_env \<Rightarrow> ty_env" where
  "join_arms then_exits else_exits then_state else_state =
     (if \<not> then_exits \<and> else_exits then then_state
      else if then_exits \<and> \<not> else_exits then else_state
      else merge_glb else_state then_state)"

text \<open>The fold over the arms of \<^verbatim>\<open>synth_match\<close>: each arm gives whether it always exits and
  its final environment.\<close>

definition join_match_arms :: "ty_env \<Rightarrow> (bool \<times> ty_env) list \<Rightarrow> ty_env" where
  "join_match_arms entering arms =
     (case fold (\<lambda>(exits, env) acc.
               if exits then acc
               else case acc of None \<Rightarrow> Some env | Some a \<Rightarrow> Some (merge_glb a env))
             arms None of
        Some post \<Rightarrow> post
      | None \<Rightarrow> entering)"

end
