(* ===== verification/Mode_Soundness.thy ===== *)
theory Mode_Soundness
  imports Mode_Check
begin

text \<open>
  What the mode checker guarantees. \<open>env_below\<close> relates an environment computed by the
  checker, which merges branches, to the environment of one path through them; the
  simulation lemmas show that whatever the checker accepts on the merged environment it
  would accept on each path, so merging never hides a use of a moved value. Then use after
  move, staged initialisation and the exact meaning of the loop re-entry check.
\<close>

section \<open>Members of the current state\<close>

lemma apply_field_state_transition_eq:
  "apply_field_state_transition env x f valid T =
     (case lookup_state env x of None \<Rightarrow> env
      | Some s \<Rightarrow> fst (transition env x (summarise T
          (if valid then insert f (valid_members T s) else valid_members T s - {f}))))"
  by (auto simp: apply_field_state_transition_def Let_def split: option.splits binding_state.splits)

lemma valid_members_summarise:
  "F \<subseteq> T \<Longrightarrow> valid_members T (summarise T F) = F"
  by (auto simp: summarise_def)

lemma summarise_wf [wf_intros]: "F \<subseteq> T \<Longrightarrow> wf_state T (summarise T F)"
  by (simp add: wf_state_def valid_members_summarise)

lemma summarise_mono: "F \<subseteq> F' \<Longrightarrow> F' \<subseteq> T \<Longrightarrow> summarise T F \<le> summarise T F'"
  by (auto simp: summarise_def)

definition wf_states :: "infer_cx \<Rightarrow> ty_env \<Rightarrow> bool" where
  "wf_states cx env \<longleftrightarrow>
     (\<forall>x i T. lookup_info env x = Some i \<longrightarrow> type_field_set cx (bi_ty i) = Some T \<longrightarrow>
        wf_state T (bi_state i))"

lemma wf_statesD:
  "wf_states cx env \<Longrightarrow> lookup_info env x = Some i \<Longrightarrow> type_field_set cx (bi_ty i) = Some T \<Longrightarrow>
     wf_state T (bi_state i)"
  by (auto simp: wf_states_def)

lemma wf_states_transition:
  assumes "wf_states cx env"
    and "\<And>i T. lookup_info env x = Some i \<Longrightarrow> type_field_set cx (bi_ty i) = Some T \<Longrightarrow> wf_state T s"
  shows "wf_states cx (fst (transition env x s))"
  using assms by (auto simp: wf_states_def lookup_info_transition split: if_splits)

lemma wf_state_simple [wf_intros]: "wf_state T Valid" "wf_state T Uninit" "wf_state T Consumed"
  by (auto simp: wf_state_def)

lemma apply_field_state_transition_wf [wf_intros]:
  assumes "wf_states cx env" "env_lookup env x = Some ty" "type_field_set cx ty = Some T" "f \<in> T"
  shows "wf_states cx (apply_field_state_transition env x f valid T)"
proof -
  obtain i where i: "lookup_info env x = Some i" "bi_ty i = ty"
    using assms(2) by (auto simp: env_lookup_def)
  with assms have "valid_members T (bi_state i) \<subseteq> T"
    using wf_statesD [OF assms(1) i(1)] by (simp add: wf_state_def)
  with assms i show ?thesis
    by (auto simp: apply_field_state_transition_eq lookup_state_def
        intro!: wf_states_transition summarise_wf)
qed

lemma mode_post_wf: "wf_state T (mode_post mode)"
  by (cases mode) (auto simp: mode_post_def intro: wf_intros)

section \<open>Shape of an accepted transition\<close>

lemma field_transition_cases:
  assumes "apply_field_mode_transition cx env sp x f mode = (env', ds)"
  obtains (skip) "lookup_state env x = None \<or> env_lookup env x = None \<or>
      (\<exists>ty. env_lookup env x = Some ty \<and>
        (type_field_set cx ty = None \<or> (\<exists>T. type_field_set cx ty = Some T \<and> f \<notin> T)))"
      "env' = env" "ds = []"
  | (diag) d where "env' = env" "ds = [d]"
  | (ok) s ty T where "lookup_state env x = Some s" "env_lookup env x = Some ty"
      "type_field_set cx ty = Some T" "f \<in> T" "ds = []"
      "reject_immutable_borrow env sp mode x (Some f) = None"
      "mode = Init \<longrightarrow> field_state s f \<in> {Uninit, Consumed}"
      "mode \<noteq> Init \<longrightarrow> field_state s f = Valid"
      "env' = apply_field_state_transition env x f (mode \<noteq> Take) T"
proof (cases "lookup_state env x")
  case None
  with assms show thesis by (intro skip) (auto simp: apply_field_mode_transition_def)
next
  case s: (Some s)
  show thesis
  proof (cases "reject_immutable_borrow env sp mode x (Some f)")
    case (Some d)
    with s assms show thesis by (intro diag [of d]) (auto simp: apply_field_mode_transition_def)
  next
    case r: None
    show thesis
    proof (cases "\<exists>ty T. env_lookup env x = Some ty \<and> type_field_set cx ty = Some T \<and> f \<in> T")
      case False
      with s r assms show thesis
        by (intro skip) (auto simp: apply_field_mode_transition_def split: option.splits if_splits)
    next
      case True
      then obtain ty T where t: "env_lookup env x = Some ty" "type_field_set cx ty = Some T" "f \<in> T"
        by blast
      let ?good = "if mode = Init then field_state s f \<in> {Uninit, Consumed} else field_state s f = Valid"
      have e: "apply_field_mode_transition cx env sp x f mode =
          (if ?good then (apply_field_state_transition env x f (mode \<noteq> Take) T, [])
           else (env, [if mode = Init then FieldNotUninit sp x f (field_state s f)
                       else FieldStateMismatch sp mode x f (field_state s f)]))"
        using s r t by (cases mode) (simp_all add: apply_field_mode_transition_def Let_def)
      show thesis
      proof (cases ?good)
        case True
        with e assms s t r show thesis by (intro ok [of s ty T]) (auto split: if_splits)
      next
        case False
        with e assms show thesis by (intro diag) auto
      qed
    qed
  qed
qed

lemma path_transition_cases:
  assumes "apply_mode_transition cx env mode e sp = (env', ds)"
    "field_projection_binding e = None"
  obtains (skip) "path_binding e = None \<or> (\<exists>x. path_binding e = Some x \<and> lookup_state env x = None)"
      "env' = env" "ds = []"
  | (diag) d where "env' = env" "ds = [d]"
  | (ok) x where "path_binding e = Some x" "lookup_state env x = Some (mode_required mode)"
      "reject_immutable_borrow env sp mode x None = None" "ds = []"
      "env' = fst (transition env x (mode_post mode))"
proof (cases "\<exists>x. path_binding e = Some x \<and> reject_immutable_borrow env sp mode x None = None \<and>
    lookup_state env x \<noteq> None")
  case False
  show thesis
  proof (cases "env' = env \<and> ds = []")
    case True
    with False assms show thesis
      by (intro skip) (auto simp: apply_mode_transition_def split: option.splits)
  next
    case f: False
    with False assms have "env' = env \<and> (\<exists>d. ds = [d])"
      by (auto simp: apply_mode_transition_def split: option.splits)
    then show thesis using diag by blast
  qed
next
  case True
  then obtain x s where x: "path_binding e = Some x" "reject_immutable_borrow env sp mode x None = None"
    "lookup_state env x = Some s" by auto
  show thesis
  proof (cases "s = mode_required mode")
    case True
    with x assms show thesis by (intro ok [of x]) (auto simp: apply_mode_transition_def)
  next
    case False
    with x assms show thesis by (intro diag) (auto simp: apply_mode_transition_def)
  qed
qed

lemma apply_mode_transition_field:
  "field_projection_binding e = Some (x, f) \<Longrightarrow>
     apply_mode_transition cx env mode e sp = apply_field_mode_transition cx env sp x f mode"
  by (simp add: apply_mode_transition_def)

lemma apply_mode_transition_wf [wf_intros]:
  assumes "wf_states cx env" "apply_mode_transition cx env mode e sp = (env', ds)"
  shows "wf_states cx env'"
proof (cases "field_projection_binding e")
  case None
  from path_transition_cases [OF assms(2) None] show ?thesis
    by cases (use assms(1) in \<open>auto intro!: wf_states_transition mode_post_wf\<close>)
next
  case (Some xf)
  obtain x f where "xf = (x, f)" by fastforce
  with Some assms(2) have "apply_field_mode_transition cx env sp x f mode = (env', ds)"
    by (simp add: apply_mode_transition_field)
  from field_transition_cases [OF this] show ?thesis
    by cases (use assms(1) in \<open>auto intro: apply_field_state_transition_wf\<close>)
qed

lemma apply_mode_transition_wf_env [wf_intros]:
  assumes "wf_env env" "apply_mode_transition cx env mode e sp = (env', ds)"
  shows "wf_env env'"
proof (cases "field_projection_binding e")
  case None
  from path_transition_cases [OF assms(2) None] show ?thesis
    by cases (use assms(1) in \<open>auto intro: wf_intros\<close>)
next
  case (Some xf)
  obtain x f where "xf = (x, f)" by fastforce
  with Some assms(2) have "apply_field_mode_transition cx env sp x f mode = (env', ds)"
    by (simp add: apply_mode_transition_field)
  from field_transition_cases [OF this] show ?thesis
    by cases (use assms(1) in \<open>auto simp: apply_field_state_transition_eq split: option.splits
      intro: wf_intros\<close>)
qed

section \<open>The path simulation\<close>

definition info_below :: "binding_info \<Rightarrow> binding_info \<Rightarrow> bool" where
  "info_below i j \<longleftrightarrow> bi_ty i = bi_ty j \<and> bi_mutable i = bi_mutable j \<and> bi_state i \<le> bi_state j"

definition env_below :: "ty_env \<Rightarrow> ty_env \<Rightarrow> bool" where
  "env_below a p \<longleftrightarrow> (\<forall>x. rel_option info_below (lookup_info a x) (lookup_info p x))"

lemma env_below_refl: "env_below a a"
  by (auto simp: env_below_def info_below_def intro: option.rel_refl)

lemma env_belowD:
  assumes "env_below a p"
  shows "lookup_info a x = None \<Longrightarrow> lookup_info p x = None"
    and "lookup_info a x = Some i \<Longrightarrow> \<exists>j. lookup_info p x = Some j \<and> info_below i j"
proof -
  have r: "rel_option info_below (lookup_info a x) (lookup_info p x)"
    using assms by (simp add: env_below_def)
  show "lookup_info a x = None \<Longrightarrow> lookup_info p x = None"
    using r by (cases "lookup_info p x") auto
  show "lookup_info a x = Some i \<Longrightarrow> \<exists>j. lookup_info p x = Some j \<and> info_below i j"
    using r by (cases "lookup_info p x") auto
qed

lemma env_below_lookups:
  assumes "env_below a p"
  shows "env_lookup p x = env_lookup a x" "lookup_mutable p x = lookup_mutable a x"
    "lookup_state a x = None \<longleftrightarrow> lookup_state p x = None"
  using env_belowD [OF assms, of x]
  by (cases "lookup_info a x"; auto simp: env_lookup_def lookup_mutable_def lookup_state_def
      info_below_def)+

lemma env_below_state:
  assumes "env_below a p" "lookup_state a x = Some s"
  obtains s' where "lookup_state p x = Some s'" "s \<le> s'"
  using env_belowD [OF assms(1), of x] assms(2)
  by (auto simp: lookup_state_def info_below_def)

lemma env_below_transition:
  assumes "env_below a p" "s \<le> s'"
  shows "env_below (fst (transition a x s)) (fst (transition p x s'))"
  unfolding env_below_def
proof
  fix y
  have r: "rel_option info_below (lookup_info a y) (lookup_info p y)"
    using assms(1) by (simp add: env_below_def)
  then show "rel_option info_below (lookup_info (fst (transition a x s)) y)
      (lookup_info (fst (transition p x s')) y)"
    using assms(2)
    by (auto simp: lookup_info_transition option.rel_map info_below_def elim: option.rel_mono_strong)
qed

lemma Valid_le_iff: "Valid \<le> s \<longleftrightarrow> s = Valid"
  by (cases s) auto

lemma reject_below:
  "env_below a p \<Longrightarrow> reject_immutable_borrow p sp mode x f = reject_immutable_borrow a sp mode x f"
  by (simp add: reject_immutable_borrow_def env_below_lookups)

lemma wf_members_below:
  assumes "env_below a p" "wf_states cx a" "wf_states cx p"
    and "env_lookup a x = Some ty" "type_field_set cx ty = Some T"
    and "lookup_state a x = Some s" "lookup_state p x = Some s'"
  shows "valid_members T s \<subseteq> valid_members T s'" "valid_members T s' \<subseteq> T"
proof -
  obtain i j where ij: "lookup_info a x = Some i" "lookup_info p x = Some j" "info_below i j"
    using assms(1,6) env_belowD(2) [OF assms(1), of x] by (auto simp: lookup_state_def)
  with assms have "bi_ty i = ty" "bi_ty j = ty" "bi_state i = s" "bi_state j = s'"
    by (auto simp: env_lookup_def lookup_state_def info_below_def)
  with ij assms have "wf_state T s" "wf_state T s'" "s \<le> s'"
    by (auto dest: wf_statesD simp: info_below_def)
  then show "valid_members T s \<subseteq> valid_members T s'" "valid_members T s' \<subseteq> T"
    using valid_members_mono [of T s s'] by (auto simp: wf_state_def)
qed

lemma field_step_below:
  assumes below: "env_below a p" and wf: "wf_states cx a" "wf_states cx p"
    and ty: "env_lookup a x = Some ty" "type_field_set cx ty = Some T" "f \<in> T"
  shows "env_below (apply_field_state_transition a x f valid T)
     (apply_field_state_transition p x f valid T)"
proof (cases "lookup_state a x")
  case None
  with below show ?thesis
    using env_below_lookups(3) [OF below, of x] by (simp add: apply_field_state_transition_eq)
next
  case (Some s)
  from env_below_state [OF below Some] obtain s' where s': "lookup_state p x = Some s'" by blast
  note m = wf_members_below [OF below wf ty(1,2) Some s']
  have "summarise T (if valid then insert f (valid_members T s) else valid_members T s - {f})
      \<le> summarise T (if valid then insert f (valid_members T s') else valid_members T s' - {f})"
    using m ty(3) by (intro summarise_mono) auto
  with below Some s' show ?thesis
    by (simp add: apply_field_state_transition_eq env_below_transition)
qed

lemma accepted_step_below:
  assumes below: "env_below a p" and wf: "wf_states cx a" "wf_states cx p"
    and acc: "apply_mode_transition cx a mode e sp = (a', [])" and mode: "mode \<noteq> Init"
  shows "\<exists>p'. apply_mode_transition cx p mode e sp = (p', []) \<and> env_below a' p'"
proof (cases "field_projection_binding e")
  case None
  from acc None show ?thesis
  proof (cases rule: path_transition_cases)
    case skip
    with None below have "apply_mode_transition cx p mode e sp = (p, []) \<or>
        (\<exists>d x. path_binding e = Some x \<and> reject_immutable_borrow a sp mode x None = Some d)"
      by (auto simp: apply_mode_transition_def reject_below env_below_lookups split: option.splits)
    with skip below None acc show ?thesis
      by (auto simp: apply_mode_transition_def)
  next
    case (ok x)
    with mode have s: "lookup_state a x = Some Valid"
      by (cases mode) (auto simp: mode_required_def)
    from env_below_state [OF below s] have "lookup_state p x = Some Valid"
      by (metis Valid_le_iff)
    with ok s below None show ?thesis
      by (auto simp: apply_mode_transition_def reject_below env_below_transition)
  qed simp
next
  case (Some xf)
  obtain x f where xf: "xf = (x, f)" by fastforce
  with Some have eq: "apply_mode_transition cx env mode e sp = apply_field_mode_transition cx env sp x f mode"
    for env by (simp add: apply_mode_transition_field)
  from acc eq have "apply_field_mode_transition cx a sp x f mode = (a', [])" by simp
  then show ?thesis
  proof (cases rule: field_transition_cases)
    case skip
    then have "lookup_state a x = None \<or> reject_immutable_borrow a sp mode x (Some f) = None"
      using acc eq by (auto simp: apply_field_mode_transition_def split: option.splits)
    with skip below have "apply_field_mode_transition cx p sp x f mode = (p, [])"
      using env_below_lookups [OF below, of x]
      by (auto simp: apply_field_mode_transition_def reject_below split: option.splits)
    with skip below eq show ?thesis by auto
  next
    case (ok s ty T)
    from env_below_state [OF below ok(1)] obtain s' where s': "lookup_state p x = Some s'" by blast
    have "f \<in> valid_members T s"
      using ok mode by (simp add: field_state_valid_iff [of f T])
    then have "field_state s' f = Valid"
      using wf_members_below(1) [OF below wf ok(2,3,1) s'] ok(4)
      by (simp add: field_state_valid_iff [of f T] subset_iff)
    with ok s' mode below have "apply_field_mode_transition cx p sp x f mode =
        (apply_field_state_transition p x f (mode \<noteq> Take) T, [])"
      by (cases mode) (auto simp: apply_field_mode_transition_def reject_below env_below_lookups)
    with ok eq field_step_below [OF below wf ok(2,3,4)] show ?thesis by auto
  qed simp
qed

text \<open>The arguments of a call are processed left to right.\<close>

fun run_args :: "infer_cx \<Rightarrow> ty_env \<Rightarrow> hir_call_arg list \<Rightarrow> ty_env \<times> mode_diag list" where
  "run_args cx env [] = (env, [])"
| "run_args cx env (arg # args) =
     (let (env', ds) = apply_call_mode_transition cx env arg;
          (env'', ds') = run_args cx env' args
      in (env'', ds @ ds'))"

lemma apply_call_wf:
  assumes "apply_call_mode_transition cx env arg = (env', ds)"
  shows "wf_states cx env \<Longrightarrow> wf_states cx env'" "wf_env env \<Longrightarrow> wf_env env'"
  using assms by (auto simp: apply_call_mode_transition_def split: option.splits intro: wf_intros)

lemma run_args_wf:
  assumes "run_args cx env args = (env', ds)"
  shows "wf_states cx env \<Longrightarrow> wf_states cx env'" "wf_env env \<Longrightarrow> wf_env env'"
  using assms
  by (induction args arbitrary: env ds) (fastforce simp: Let_def dest: apply_call_wf split: prod.splits)+

lemma run_args_below:
  assumes "env_below a p" "wf_states cx a" "wf_states cx p"
    and "run_args cx a args = (a', [])" "\<forall>arg \<in> set args. ca_mode arg \<noteq> Some Init"
  shows "\<exists>p'. run_args cx p args = (p', [])"
  using assms
proof (induction args arbitrary: a p)
  case (Cons arg args)
  obtain b where b: "apply_call_mode_transition cx a arg = (b, [])" "run_args cx b args = (a', [])"
    using Cons.prems(4) by (auto simp: Let_def split: prod.splits)
  have "\<exists>q. apply_call_mode_transition cx p arg = (q, []) \<and> env_below b q"
  proof (cases "ca_mode arg")
    case None
    with b Cons.prems(1) show ?thesis by (auto simp: apply_call_mode_transition_def)
  next
    case (Some mode)
    with b Cons.prems show ?thesis
      by (auto simp: apply_call_mode_transition_def intro: accepted_step_below)
  qed
  then obtain q where q: "apply_call_mode_transition cx p arg = (q, [])" "env_below b q" by blast
  have "\<exists>p'. run_args cx q args = (p', [])"
    using Cons.IH [OF q(2)] b q Cons.prems apply_call_wf(1) by auto
  with q show ?case by auto
qed simp

section \<open>Environments forked from one snapshot\<close>

definition info_forked :: "binding_info \<Rightarrow> binding_info \<Rightarrow> bool" where
  "info_forked i j \<longleftrightarrow> bi_ty i = bi_ty j \<and> bi_mutable i = bi_mutable j"

definition forked :: "ty_env \<Rightarrow> ty_env \<Rightarrow> bool" where
  "forked a b \<longleftrightarrow> list_all2 (\<lambda>f g. \<forall>x. rel_option info_forked (map_of f x) (map_of g x)) a b"

lemma rel_option_forked_trans:
  "rel_option info_forked u v \<Longrightarrow> rel_option info_forked v w \<Longrightarrow> rel_option info_forked u w"
  by (cases u; cases v; cases w) (auto simp: info_forked_def)

lemma rel_option_forked_sym: "rel_option info_forked u v \<Longrightarrow> rel_option info_forked v u"
  by (cases u; cases v) (auto simp: info_forked_def)

lemma forked_refl: "forked a a"
  by (auto simp: forked_def info_forked_def intro!: list_all2_refl option.rel_refl)

lemma forked_trans: "forked a b \<Longrightarrow> forked b c \<Longrightarrow> forked a c"
  unfolding forked_def by (erule list_all2_trans [rotated]) (blast intro: rel_option_forked_trans)+

lemma forked_sym: "forked a b \<Longrightarrow> forked b a"
  unfolding forked_def
  by (subst list_all2_conv_all_nth, drule list_all2_conv_all_nth [THEN iffD1])
    (auto intro: rel_option_forked_sym)

lemma forked_transition_frames:
  "list_all2 (\<lambda>f g. \<forall>x. rel_option info_forked (map_of f x) (map_of g x)) fs
     (fst (transition_frames fs y s))"
proof (induction fs)
  case (Cons f fs)
  have "rel_option info_forked u u" for u
    by (cases u) (auto simp: info_forked_def)
  moreover have "rel_option info_forked u (map_option (\<lambda>i. i\<lparr>bi_state := s\<rparr>) u)" for u
    by (cases u) (auto simp: info_forked_def)
  ultimately show ?case
    using Cons by (auto simp: Let_def list_all2_same split: prod.splits)
qed simp

lemma forked_transition: "forked env (fst (transition env y s))"
  using forked_transition_frames [of "rev env" y s]
  by (simp add: forked_def transition_def split_def Let_def list_all2_rev1)

lemma forked_apply_call:
  assumes "apply_call_mode_transition cx env arg = (env', ds)"
  shows "forked env env'"
proof (cases "ca_mode arg")
  case None
  with assms show ?thesis by (simp add: apply_call_mode_transition_def forked_refl)
next
  case (Some mode)
  then have app: "apply_mode_transition cx env mode (ca_expr arg) (ca_span arg) = (env', ds)"
    using assms by (simp add: apply_call_mode_transition_def)
  show ?thesis
  proof (cases "field_projection_binding (ca_expr arg)")
    case None
    from path_transition_cases [OF app None] show ?thesis
      by cases (auto simp: forked_refl forked_transition)
  next
    case (Some xf)
    obtain x f where "xf = (x, f)" by fastforce
    with Some app have "apply_field_mode_transition cx env (ca_span arg) x f mode = (env', ds)"
      by (simp add: apply_mode_transition_field)
    from field_transition_cases [OF this] show ?thesis
      by cases (auto simp: forked_refl forked_transition apply_field_state_transition_eq
          split: option.splits)
  qed
qed

lemma forked_run_args: "run_args cx env args = (env', ds) \<Longrightarrow> forked env env'"
proof (induction args arbitrary: env ds)
  case (Cons arg args)
  then show ?case
    by (fastforce simp: Let_def intro: forked_trans dest: forked_apply_call split: prod.splits)
qed (simp add: forked_refl)

lemma forked_same_shape: "forked a b \<Longrightarrow> same_shape a b"
  unfolding forked_def same_shape_def
proof (erule list_all2_mono)
  fix f g :: frame
  assume r: "\<forall>x. rel_option info_forked (map_of f x) (map_of g x)"
  then have "map_of f x = None \<longleftrightarrow> map_of g x = None" for x
    by (metis option.rel_distinct option.exhaust)
  then show "set (map fst f) = set (map fst g)"
    by (auto simp: map_of_eq_None_iff)
qed

lemma forked_lookup: "forked a b \<Longrightarrow> rel_option info_forked (lookup_info a x) (lookup_info b x)"
proof (induction a arbitrary: b rule: rev_induct)
  case Nil
  then show ?case by (simp add: forked_def lookup_info_def)
next
  case (snoc f a)
  then obtain b' g where b: "b = b' @ [g]" and fb: "forked a b'"
    and fg: "rel_option info_forked (map_of f x) (map_of g x)"
    by (auto simp: forked_def list_all2_append1 list_all2_Cons1)
  from snoc.IH [OF fb] fg b show ?case
    by (auto simp: lookup_info_snoc split: option.splits)
qed

lemma merge_below:
  assumes "forked a b" "wf_env b"
  shows "env_below (merge_glb a b) a" "env_below (merge_glb a b) b"
proof -
  have l: "lookup_info (merge_glb a b) x = (case lookup_info a x of None \<Rightarrow> None
     | Some i \<Rightarrow> map_option (merge_info i) (lookup_info b x))" for x
    using assms by (intro lookup_info_merge) (auto simp: wf_env_def forked_same_shape)
  have r: "rel_option info_forked (lookup_info a x) (lookup_info b x)" for x
    using assms(1) by (rule forked_lookup)
  have "glb s t \<le> s \<and> glb s t \<le> t" for s t
    by (simp add: glb_as_inf)
  then have "rel_option info_below (lookup_info (merge_glb a b) x) (lookup_info a x) \<and>
      rel_option info_below (lookup_info (merge_glb a b) x) (lookup_info b x)" for x
    using r [of x] unfolding l
    by (cases "lookup_info a x"; cases "lookup_info b x")
      (auto simp: info_below_def merge_info_def info_forked_def)
  then show "env_below (merge_glb a b) a" "env_below (merge_glb a b) b"
    by (simp_all add: env_below_def)
qed

lemma wf_states_merge [wf_intros]:
  assumes "forked a b" "wf_env b" "wf_states cx a" "wf_states cx b"
  shows "wf_states cx (merge_glb a b)"
  unfolding wf_states_def
proof (intro allI impI)
  fix x i T
  assume m: "lookup_info (merge_glb a b) x = Some i" and t: "type_field_set cx (bi_ty i) = Some T"
  have l: "lookup_info (merge_glb a b) x = (case lookup_info a x of None \<Rightarrow> None
     | Some i \<Rightarrow> map_option (merge_info i) (lookup_info b x))"
    using assms by (intro lookup_info_merge) (auto simp: wf_env_def forked_same_shape)
  from m l obtain u v where uv: "lookup_info a x = Some u" "lookup_info b x = Some v" "i = merge_info u v"
    by (auto split: option.splits)
  with forked_lookup [OF assms(1), of x] have "bi_ty v = bi_ty u"
    by (simp add: info_forked_def)
  with uv t assms(3,4) have "wf_state T (bi_state u)" "wf_state T (bi_state v)"
    by (auto dest: wf_statesD simp: merge_info_def)
  with uv show "wf_state T (bi_state i)"
    by (simp add: merge_info_def glb_wf_state)
qed

lemma wf_env_forked_run:
  "wf_env entry \<Longrightarrow> run_args cx entry args = (env, ds) \<Longrightarrow> wf_env env \<and> forked entry env"
  by (simp add: run_args_wf forked_run_args)

lemma rel_option_forked_refl: "rel_option info_forked u u"
  by (cases u) (auto simp: info_forked_def)

lemma forked_merge_frame: "rel_option info_forked (map_of f x) (map_of (merge_frame f g) x)"
proof (induction f g rule: merge_frame.induct)
  case (2 mine name j theirs)
  have "rel_option info_forked (map_of mine x) (map_of (modify_entry name
      (\<lambda>i. i\<lparr>bi_state := glb (bi_state i) (bi_state j)\<rparr>) mine) x)"
    by (cases "map_of mine x") (auto simp: info_forked_def)
  from rel_option_forked_trans [OF this 2] show ?case by simp
qed (simp add: rel_option_forked_refl)

lemma forked_merge: "forked a (merge_glb a b)"
  unfolding forked_def
  by (induction a b rule: merge_glb.induct)
    (auto simp: forked_merge_frame rel_option_forked_refl list_all2_same)

text \<open>The fold of \<open>join_match_arms\<close> stays below every arm it has merged.\<close>

definition arm_step :: "bool \<times> ty_env \<Rightarrow> ty_env option \<Rightarrow> ty_env option" where
  "arm_step = (\<lambda>(exits, env) acc.
     if exits then acc else case acc of None \<Rightarrow> Some env | Some a \<Rightarrow> Some (merge_glb a env))"

lemma env_below_trans:
  assumes "env_below a b" "env_below b c"
  shows "env_below a c"
proof -
  have "rel_option info_below u v \<Longrightarrow> rel_option info_below v w \<Longrightarrow> rel_option info_below u w" for u v w
    by (cases u; cases v; cases w) (auto simp: info_below_def)
  with assms show ?thesis unfolding env_below_def by blast
qed

lemma arm_fold_below:
  assumes "\<forall>(ex, env) \<in> set arms. forked entry env \<and> wf_env env \<and> wf_states cx env"
    and "case acc of None \<Rightarrow> True | Some a \<Rightarrow> forked entry a \<and> wf_states cx a"
  shows "(\<exists>ex env. (ex, env) \<in> set arms \<and> \<not> ex) \<or> acc \<noteq> None \<Longrightarrow>
     \<exists>z. fold arm_step arms acc = Some z \<and> wf_states cx z \<and> (\<forall>a. acc = Some a \<longrightarrow> env_below z a) \<and>
       (\<forall>env. (False, env) \<in> set arms \<longrightarrow> env_below z env)"
  using assms
proof (induction arms arbitrary: acc)
  case Nil
  then show ?case by (auto intro: env_below_refl)
next
  case (Cons arm arms)
  obtain ex env where arm: "arm = (ex, env)" by fastforce
  show ?case
  proof (cases ex)
    case True
    then have "arm_step arm acc = acc" using arm by (simp add: arm_step_def)
    with True arm show ?thesis
      using Cons.IH [of acc] Cons.prems by auto
  next
    case False
    define acc' where "acc' = arm_step arm acc"
    from False Cons.prems(2) arm have env: "forked entry env" "wf_env env" "wf_states cx env" by auto
    have acc': "\<exists>a. acc' = Some a \<and> forked entry a \<and> wf_states cx a \<and> env_below a env \<and>
        (\<forall>a0. acc = Some a0 \<longrightarrow> env_below a a0)"
    proof (cases acc)
      case None
      with env False arm show ?thesis by (simp add: acc'_def arm_step_def env_below_refl)
    next
      case (Some a0)
      with Cons.prems(3) have a0: "forked entry a0" "wf_states cx a0" by auto
      with env have "forked a0 env" by (blast intro: forked_trans forked_sym)
      with env a0 Some False arm show ?thesis
        by (auto simp: acc'_def arm_step_def intro: merge_below wf_states_merge
            forked_trans [OF a0(1) forked_merge])
    qed
    then obtain a where a: "acc' = Some a" "forked entry a" "wf_states cx a" "env_below a env"
      "\<forall>a0. acc = Some a0 \<longrightarrow> env_below a a0" by blast
    with Cons.IH [of acc'] Cons.prems(2) obtain z where
      "fold arm_step arms acc' = Some z" "wf_states cx z" "env_below z a"
      "\<forall>env. (False, env) \<in> set arms \<longrightarrow> env_below z env" by auto
    moreover have "fold arm_step (arm # arms) acc = fold arm_step arms acc'"
      by (simp add: acc'_def)
    moreover have "arm = (False, env)" using arm False by simp
    ultimately show ?thesis using a by (auto intro: env_below_trans)
  qed
qed

lemma join_match_arms_below:
  assumes "\<forall>(ex, env) \<in> set arms. forked entry env \<and> wf_env env \<and> wf_states cx env"
    and "(False, env) \<in> set arms"
  shows "env_below (join_match_arms entry arms) env \<and> wf_states cx (join_match_arms entry arms)"
proof -
  obtain z where "fold arm_step arms None = Some z" "wf_states cx z"
    "\<forall>env. (False, env) \<in> set arms \<longrightarrow> env_below z env"
    using arm_fold_below [OF assms(1), of None] assms(2) by auto
  with assms(2) show ?thesis by (simp add: join_match_arms_def arm_step_def)
qed

lemma join_arms_as_match:
  "\<not> then_exits \<or> \<not> else_exits \<Longrightarrow> join_arms then_exits else_exits t e =
     join_match_arms entry [(else_exits, e), (then_exits, t)]"
  by (auto simp: join_arms_def join_match_arms_def)

section \<open>Soundness of branching\<close>


text \<open>A small context for the worked examples: type 1 is a product with fields 10 and 11, both
  of type 0 (\<open>i32\<close>); type 2 is the tuple \<open>(i32, i32)\<close>; type 3 is a linear product; type 4 is a
  product with the single field 10.\<close>

definition demo_cx :: infer_cx where
  "demo_cx = \<lparr>
     ic_kind = (\<lambda>t. if t = 1 then TNominal (0, 0) else if t = 2 then TTuple [0, 0]
                    else if t = 3 then TNominal (0, 1) else if t = 4 then TNominal (0, 2)
                    else TPrimitive I32),
     ic_type_decl = (\<lambda>b.
        if b = (0, 0) then Some \<lparr>td_linearity = None,
             td_kind = Product [\<lparr>fi_name = 10, fi_ty = 0\<rparr>, \<lparr>fi_name = 11, fi_ty = 0\<rparr>]\<rparr>
        else if b = (0, 1) then Some \<lparr>td_linearity = Some Linear,
             td_kind = Product [\<lparr>fi_name = 10, fi_ty = 0\<rparr>]\<rparr>
        else if b = (0, 2) then Some \<lparr>td_linearity = None,
             td_kind = Product [\<lparr>fi_name = 10, fi_ty = 0\<rparr>]\<rparr>
        else None),
     ic_intern = (\<lambda>s. of_nat (undec 0 s))\<rparr>"

definition demo_bind :: "ty_id \<Rightarrow> binding_state \<Rightarrow> binding_info" where
  "demo_bind ty s = \<lparr>bi_ty = ty, bi_state = s, bi_mutable = True\<rparr>"

definition demo_arg :: "hir_call_mode \<Rightarrow> hir_expr \<Rightarrow> hir_call_arg" where
  "demo_arg mode e = \<lparr>ca_span = span_dummy, ca_mode = Some mode, ca_expr = e\<rparr>"

lemmas demo_defs = demo_cx_def demo_bind_def demo_arg_def

lemmas mode_step_defs =
  apply_call_mode_transition_def apply_mode_transition_def apply_field_mode_transition_def
  apply_field_state_transition_def reject_immutable_borrow_def mode_required_def mode_post_def
  type_field_set_def lookup_state_def lookup_mutable_def env_lookup_def lookup_info_def
  transition_def summarise_def

lemma demo_fields [simp]: "type_field_set demo_cx 1 = Some {10, 11}"
  by (simp add: demo_cx_def type_field_set_def)


section \<open>Use after move\<close>

definition place :: "hir_expr \<Rightarrow> (symbol \<times> symbol option) option" where
  "place e = (case field_projection_binding e of
      Some (x, f) \<Rightarrow> Some (x, Some f)
    | None \<Rightarrow> map_option (\<lambda>x. (x, None)) (path_binding e))"

definition tracked :: "infer_cx \<Rightarrow> ty_env \<Rightarrow> symbol \<times> symbol option \<Rightarrow> bool" where
  "tracked cx env pl = (case env_lookup env (fst pl) of
      None \<Rightarrow> False
    | Some ty \<Rightarrow> (case snd pl of None \<Rightarrow> True
        | Some f \<Rightarrow> (case type_field_set cx ty of None \<Rightarrow> False | Some T \<Rightarrow> f \<in> T)))"

definition overlapping :: "symbol \<times> symbol option \<Rightarrow> symbol \<times> symbol option \<Rightarrow> bool" where
  "overlapping a b \<longleftrightarrow> fst a = fst b \<and> (snd a = None \<or> snd b = None \<or> snd a = snd b)"

definition place_state :: "ty_env \<Rightarrow> symbol \<times> symbol option \<Rightarrow> binding_state option" where
  "place_state env pl = (case snd pl of
      None \<Rightarrow> lookup_state env (fst pl)
    | Some f \<Rightarrow> lookup_field_state env (fst pl) f)"

lemma placeD:
  assumes "place e = Some pl"
  shows "snd pl = None \<Longrightarrow> field_projection_binding e = None \<and> path_binding e = Some (fst pl)"
    and "snd pl = Some f \<Longrightarrow> field_projection_binding e = Some (fst pl, f)"
  using assms by (auto simp: place_def split: option.splits)

lemma tracked_state:
  "tracked cx env pl \<Longrightarrow> \<exists>s ty. lookup_state env (fst pl) = Some s \<and> env_lookup env (fst pl) = Some ty"
  by (auto simp: tracked_def env_lookup_def lookup_state_def split: option.splits)

lemma invalid_place_rejected:
  assumes "place e = Some pl" "tracked cx env pl" "place_state env pl \<noteq> Some Valid" "mode \<noteq> Init"
  shows "\<exists>d. apply_mode_transition cx env mode e sp = (env, [d])"
proof -
  obtain s ty where s: "lookup_state env (fst pl) = Some s" "env_lookup env (fst pl) = Some ty"
    using tracked_state [OF assms(2)] by blast
  show ?thesis
  proof (cases "snd pl")
    case None
    with assms s placeD(1) [OF assms(1)] show ?thesis
      by (cases mode) (auto simp: apply_mode_transition_def place_state_def mode_required_def
          split: option.splits)
  next
    case (Some f)
    with assms s placeD(2) [OF assms(1) Some] show ?thesis
      by (cases mode) (auto simp: apply_mode_transition_field apply_field_mode_transition_def
          tracked_def place_state_def lookup_field_state_def Let_def lookup_state_def split: option.splits)
  qed
qed

lemma summarise_not_member:
  "f \<in> T \<Longrightarrow> f \<notin> F \<Longrightarrow> summarise T F \<noteq> Valid \<and> field_state (summarise T F) f \<noteq> Valid"
  by (auto simp: summarise_def)

lemma place_state_overlap:
  assumes "lookup_state env x = Some s" "s \<noteq> Valid" "\<forall>f. fo = Some f \<longrightarrow> field_state s f \<noteq> Valid"
    "fo = None \<longrightarrow> s = Consumed" "overlapping (x, fo) pl"
  shows "place_state env pl \<noteq> Some Valid"
  using assms
  by (cases pl; cases fo)
    (auto simp: overlapping_def place_state_def lookup_field_state_def lookup_state_def split: option.splits)

text \<open>C2: No use after move: once a \<open>take\<close> of a tracked place (a binding \<open>x\<close>, or a field
  \<open>x.f\<close> of its type) is accepted, a further \<open>take\<close> or \<open>mutable\<close> of any overlapping place (the
  binding itself, the same field, or any field of a binding taken whole) produces exactly one
  diagnostic and leaves the environment as it is.\<close>

theorem use_after_take_rejected:
  assumes "place e = Some pl" "tracked cx env pl"
    and "apply_mode_transition cx env Take e sp = (env', [])"
    and "place e2 = Some pl2" "tracked cx env' pl2" "overlapping pl pl2" "mode \<noteq> Init"
  shows "\<exists>d. apply_mode_transition cx env' mode e2 sp2 = (env', [d])"
proof -
  obtain x fo where pl: "pl = (x, fo)" by fastforce
  obtain s ty where s: "lookup_state env x = Some s" "env_lookup env x = Some ty"
    using tracked_state [OF assms(2)] pl by auto
  have "place_state env' pl2 \<noteq> Some Valid"
  proof (cases fo)
    case None
    then have e: "field_projection_binding e = None" "path_binding e = Some x"
      using placeD(1) [OF assms(1)] pl by auto
    from assms(3) e(1) have "lookup_state env' x = Some Consumed"
      by (cases rule: path_transition_cases)
        (use e s in \<open>auto simp: mode_post_def env_store.get_put_same\<close>)
    then show ?thesis
      using None assms(6) pl by (intro place_state_overlap [where fo = fo]) auto
  next
    case (Some f)
    then have "apply_field_mode_transition cx env sp x f Take = (env', [])"
      using placeD(2) [OF assms(1)] pl assms(3) by (simp add: apply_mode_transition_field)
    then obtain T where T: "f \<in> T" "env' = apply_field_state_transition env x f False T"
      by (cases rule: field_transition_cases)
        (use Some pl s assms(2) in \<open>auto simp: tracked_def\<close>)
    then have st: "lookup_state env' x = Some (summarise T (valid_members T s - {f}))"
      using s by (simp add: apply_field_state_transition_eq env_store.get_put_same)
    from summarise_not_member [OF T(1), of "valid_members T s - {f}"] show ?thesis
      using Some assms(6) pl by (intro place_state_overlap [OF st, where fo = fo]) auto
  qed
  with assms(4,5,7) show ?thesis by (intro invalid_place_rejected)
qed

theorem use_after_take_rejected_witness:
  "\<exists>d. apply_mode_transition demo_cx [[(1, demo_bind 1 (PartialInit {11}))]] Mutable (HPath [1]) span_dummy
     = ([[(1, demo_bind 1 (PartialInit {11}))]], [d])"
  by (rule use_after_take_rejected [where e = "HField (HPath [1]) 10" and sp = span_dummy
        and env = "[[(1, demo_bind 1 Valid)]]" and pl = "(1, Some 10)" and ?pl2.0 = "(1, None)"])
    (auto simp: demo_defs mode_step_defs place_def tracked_def overlapping_def)

section \<open>Staged initialisation\<close>

lemma apply_field_assign_state:
  assumes "lookup_info env x = Some i" "type_field_set cx (bi_ty i) = Some T" "f \<in> T"
  shows "lookup_info (fst (apply_field_assign_transition cx env x f)) x =
    Some (i\<lparr>bi_state := summarise T (insert f (valid_members T (bi_state i)))\<rparr>)"
  using assms
  by (simp add: apply_field_assign_transition_def env_lookup_def lookup_state_def
      apply_field_state_transition_eq lookup_info_transition)

text \<open>C22: Staged initialisation: assigning the fields of an uninitialised (or moved-out)
  binding one by one, in any order and with repetitions, leaves it in the state that records
  exactly the assigned fields; it becomes readable precisely when every field of its type
  has been assigned.\<close>

theorem staged_init_promotes:
  assumes "lookup_info env x = Some i" "bi_state i = Uninit \<or> bi_state i = Consumed"
    and "type_field_set cx (bi_ty i) = Some T" "fs \<noteq> []" "set fs \<subseteq> T"
  shows "lookup_state (fold (\<lambda>f e. fst (apply_field_assign_transition cx e x f)) fs env) x
      = Some (summarise T (set fs)) \<and>
    (is_readable (summarise T (set fs)) \<longleftrightarrow> set fs = T)"
proof -
  have step: "set fs \<subseteq> T \<Longrightarrow> F \<subseteq> T \<Longrightarrow> lookup_info e x = Some (i\<lparr>bi_state := summarise T F\<rparr>) \<Longrightarrow>
      lookup_info (fold (\<lambda>f e. fst (apply_field_assign_transition cx e x f)) fs e) x
        = Some (i\<lparr>bi_state := summarise T (set fs \<union> F)\<rparr>)" for fs F e
  proof (induction fs arbitrary: e F)
    case (Cons f fs)
    with assms(3) have "lookup_info (fst (apply_field_assign_transition cx e x f)) x =
        Some (i\<lparr>bi_state := summarise T (insert f F)\<rparr>)"
      by (simp add: apply_field_assign_state valid_members_summarise)
    from Cons.IH [OF _ _ this] Cons.prems show ?case by simp
  qed simp
  obtain f gs where fs: "fs = f # gs" using assms(4) by (cases fs) auto
  have "valid_members T (bi_state i) = {}" using assms(2) by auto
  with assms fs have "lookup_info (fst (apply_field_assign_transition cx env x f)) x =
      Some (i\<lparr>bi_state := summarise T {f}\<rparr>)"
    by (simp add: apply_field_assign_state)
  from step [OF _ _ this, of gs] assms fs show ?thesis
    by (auto simp: lookup_state_def is_readable_def summarise_def)
qed

theorem staged_init_promotes_witness:
  "lookup_state (fold (\<lambda>f e. fst (apply_field_assign_transition demo_cx e 1 f)) [11, 10]
     [[(1, demo_bind 1 Uninit)]]) 1 = Some Valid"
proof -
  have "summarise {10, 11} (set [11, 10]) = Valid"
    by (simp add: summarise_def insert_commute)
  with staged_init_promotes [of "[[(1, demo_bind 1 Uninit)]]" 1 "demo_bind 1 Uninit" demo_cx "{10, 11}" "[11, 10]"]
  show ?thesis by (simp add: lookup_info_def demo_bind_def)
qed

section \<open>The loop re-entry check\<close>

lemma loop_scan_empty_iff:
  "loop_reentry_scan pre sp R xs = [] \<longleftrightarrow>
     (\<forall>(x, t) \<in> set xs. x \<notin> R \<longrightarrow> (\<forall>s. lookup_state pre x = Some s \<longrightarrow> s = t))"
  by (induction pre sp R xs rule: loop_reentry_scan.induct) (auto split: option.splits)

lemma lookup_frames_SomeD: "lookup_frames fs x = Some i \<Longrightarrow> \<exists>f \<in> set fs. (x, i) \<in> set f"
  by (induction fs) (auto split: option.splits dest: map_of_SomeD)

lemma lookup_frames_distinct:
  "distinct (map fst (concat fs)) \<Longrightarrow> f \<in> set fs \<Longrightarrow> (x, i) \<in> set f \<Longrightarrow> lookup_frames fs x = Some i"
proof (induction fs)
  case (Cons g fs)
  show ?case
  proof (cases "f = g")
    case True
    with Cons.prems show ?thesis by (simp add: map_of_is_SomeI)
  next
    case False
    with Cons.prems have "f \<in> set fs" by simp
    moreover have "map_of g x = None"
      using Cons.prems False by (force simp: map_of_eq_None_iff)
    ultimately show ?thesis using Cons by simp
  qed
qed simp

lemma lookup_state_iter: "lookup_state env x = Some s \<Longrightarrow> (x, s) \<in> set (iter_states env)"
  by (force simp: lookup_state_def lookup_info_def iter_states_def dest: lookup_frames_SomeD)

lemma iter_lookup_state:
  assumes "distinct (map fst (concat env))" "(x, s) \<in> set (iter_states env)"
  shows "lookup_state env x = Some s"
proof -
  obtain f i where fi: "f \<in> set env" "(x, i) \<in> set f" "s = bi_state i"
    using assms(2) by (auto simp: iter_states_def)
  have "distinct (map fst (concat (rev env)))"
    using assms(1) by (induction env) auto
  with fi lookup_frames_distinct [of "rev env" f x i] show ?thesis
    by (simp add: lookup_state_def lookup_info_def)
qed

text \<open>C21: The loop re-entry check is exact when no name is shadowed: it accepts a body
  precisely when every binding visible before the body and still visible after it has the
  same state in both, so a second iteration starts from the states the first one saw.\<close>

theorem loop_reentry_exact:
  assumes "distinct (map fst (concat post))"
  shows "check_loop_reentry post pre sp = [] \<longleftrightarrow>
    (\<forall>x s t. lookup_state pre x = Some s \<longrightarrow> lookup_state post x = Some t \<longrightarrow> s = t)"
proof -
  have "(x, t) \<in> set (iter_states post) \<longleftrightarrow> lookup_state post x = Some t" for x t
    using iter_lookup_state [OF assms] lookup_state_iter [of post] by blast
  then show ?thesis
    by (simp add: check_loop_reentry_def loop_scan_empty_iff Ball_def split_paired_All) blast
qed

theorem loop_reentry_exact_witness:
  "check_loop_reentry [[(1, demo_bind 0 Consumed)]] [[(1, demo_bind 0 Valid)]] span_dummy \<noteq> []"
proof -
  have "lookup_state [[(1, demo_bind 0 s)]] 1 = Some s" for s
    by (simp add: lookup_state_def lookup_info_def demo_bind_def)
  then show ?thesis
    using loop_reentry_exact [of "[[(1, demo_bind 0 Consumed)]]" "[[(1, demo_bind 0 Valid)]]"]
    by fastforce
qed

text \<open>Shadowing defeats the loop check: when an outer binding and an inner binding of the
  same name are in different states, a body that changes nothing at all is still reported,
  because the state of the shadowed outer binding is compared with the state of the inner one.\<close>

theorem loop_reentry_shadowing_spurious:
  "check_loop_reentry [[(1, demo_bind 0 Consumed)], [(1, demo_bind 0 Valid)]]
     [[(1, demo_bind 0 Consumed)], [(1, demo_bind 0 Valid)]] sp
   = [LoopStateChanged sp 1 Valid Consumed]"
  by (simp add: check_loop_reentry_def iter_states_def demo_bind_def lookup_state_def lookup_info_def)

end
