(* ===== verification/Mode_Exit.thy ===== *)
theory Mode_Exit
  imports Mode_Soundness
begin

text \<open>
  What the end-of-body checks of the mode checker guarantee (\<^verbatim>\<open>infer/mode/exit.rs\<close> and
  \<^verbatim>\<open>infer/mode/linear.rs\<close>): the droppability walk against an inductive definition of droppable
  types, the function-exit check and the linear sweep, with the inputs on which they disagree
  with their documentation.
\<close>

section \<open>Droppability\<close>

text \<open>What droppable means: no owned resource anywhere in the type.\<close>

inductive droppable :: "infer_cx \<Rightarrow> ty_id \<Rightarrow> bool" for cx where
  prim: "ic_kind cx ty = TPrimitive p \<Longrightarrow> is_trivially_droppable p \<Longrightarrow> droppable cx ty"
| tuple: "ic_kind cx ty = TTuple elems \<Longrightarrow> \<forall>t \<in> set elems. droppable cx t \<Longrightarrow> droppable cx ty"
| product: "ic_kind cx ty = TNominal b \<Longrightarrow> ic_type_decl cx b = Some decl \<Longrightarrow> td_linearity decl = None \<Longrightarrow>
    td_kind decl = Product fs \<Longrightarrow> \<forall>f \<in> set fs. droppable cx (fi_ty f) \<Longrightarrow> droppable cx ty"
| sum: "ic_kind cx ty = TNominal b \<Longrightarrow> ic_type_decl cx b = Some decl \<Longrightarrow> td_linearity decl = None \<Longrightarrow>
    td_kind decl = Sum vs \<Longrightarrow> \<forall>v \<in> set vs. \<forall>t \<in> set (payload_tys (vi_payload v)). droppable cx t \<Longrightarrow>
    droppable cx ty"

lemma droppable_walk_sound:
  "fst (droppable_walk cx ty v) \<Longrightarrow> droppable cx ty"
  "fst (droppable_all cx ts v) \<Longrightarrow> \<forall>t \<in> set ts. droppable cx t"
proof (induction cx ty v and cx ts v rule: droppable_walk_droppable_all.induct)
  case (1 cx ty v)
  show ?case
  proof (cases "ic_kind cx ty")
    case (TPrimitive p)
    with "1.prems" show ?thesis by (auto intro: droppable.prim split: if_splits)
  next
    case (TTuple elems)
    with 1 show ?thesis by (auto intro: droppable.tuple split: if_splits)
  next
    case (TNominal b)
    with "1.prems" obtain decl where d: "ty \<notin> v" "ic_type_decl cx b = Some decl" "td_linearity decl = None"
      by (auto split: if_splits option.splits)
    show ?thesis
    proof (cases "td_kind decl")
      case (Product fs)
      with 1 d TNominal have "\<forall>f \<in> set fs. droppable cx (fi_ty f)" by auto
      with Product d TNominal show ?thesis by (blast intro: droppable.product)
    next
      case (Sum vs)
      with 1 d TNominal have "\<forall>v \<in> set vs. \<forall>t \<in> set (payload_tys (vi_payload v)). droppable cx t" by auto
      with Sum d TNominal show ?thesis by (blast intro: droppable.sum)
    qed
  qed (use "1.prems" in \<open>auto split: if_splits\<close>)
next
  case (3 cx t ts v)
  then show ?case by (auto split: prod.splits if_splits)
qed simp

lemma at_exit_droppable: "is_trivially_droppable_at_exit cx ty \<Longrightarrow> droppable cx ty"
  unfolding is_trivially_droppable_at_exit_def by (rule droppable_walk_sound(1))

text \<open>C23: Droppability is sound: when the walk says that a value may be dropped at function
  exit, the type really contains only trivially droppable primitives, through tuples, products
  and all variants of sums, and no declaration with a linearity annotation, an unresolved
  declaration or an error type anywhere.\<close>

theorem is_trivially_droppable_sound:
  assumes "is_trivially_droppable_at_exit cx ty"
  shows "droppable cx ty"
  using assms by (rule at_exit_droppable)

theorem is_trivially_droppable_sound_witness: "droppable demo_cx 4"
  by (rule is_trivially_droppable_sound)
    (simp add: is_trivially_droppable_at_exit_def demo_cx_def)


section \<open>The function-exit check\<close>

fun diag_symbol :: "mode_diag \<Rightarrow> symbol" where
  "diag_symbol (ExitPartial _ s _) = s"
| "diag_symbol (ExitNotValid _ s _) = s"
| "diag_symbol (LoopStateChanged _ s _ _) = s"
| "diag_symbol (LinearUnconsumed _ s) = s"
| "diag_symbol (ImmutableBorrow _ _ s _) = s"
| "diag_symbol (BindingStateMismatch _ _ s _ _) = s"
| "diag_symbol (FieldNotUninit _ s _ _) = s"
| "diag_symbol (FieldStateMismatch _ _ s _ _) = s"

lemma exit_diag_symbol: "exit_diag cx env sp tp s st = Some d \<Longrightarrow> diag_symbol d = s"
  by (auto simp: exit_diag_def Let_def split: binding_state.splits option.splits if_splits)

lemma exit_scan_empty_iff:
  "exit_scan cx env sp tp R xs = [] \<longleftrightarrow>
     (\<forall>(s, st) \<in> set xs. s \<notin> R \<longrightarrow> exit_diag cx env sp tp s st = None)"
  by (induction cx env sp tp R xs rule: exit_scan.induct) (auto split: option.splits)

lemma exit_scan_once:
  "distinct (map diag_symbol (exit_scan cx env sp tp R xs)) \<and>
   diag_symbol ` set (exit_scan cx env sp tp R xs) \<inter> R = {}"
proof (induction cx env sp tp R xs rule: exit_scan.induct)
  case (2 cx env sp tp R s st xs)
  show ?case
  proof (cases "exit_diag cx env sp tp s st")
    case None
    with 2 show ?thesis by simp
  next
    case (Some d)
    with 2 exit_diag_symbol [OF Some] show ?thesis by auto
  qed
qed simp

lemma case_option_False_iff:
  "(case opt of None \<Rightarrow> False | Some t \<Rightarrow> P t) \<longleftrightarrow> (\<exists>t. opt = Some t \<and> P t)"
  by (cases opt) simp_all

lemma exit_diag_None_iff:
  assumes "env_lookup env x = Some ty"
  shows "exit_diag cx env sp tp x s = None \<longleftrightarrow>
     s = Valid \<or> s = Consumed \<or>
     (\<exists>F. s = PartialInit F \<and> (\<forall>T. type_field_set cx ty = Some T \<longrightarrow> T \<subseteq> F \<or>
        x \<in> set tp \<and> (\<forall>f \<in> F. \<exists>t. field_ty cx ty f = Some t \<and> is_trivially_droppable_at_exit cx t)))"
proof (cases s)
  case (PartialInit F)
  have "filter (\<lambda>f. f \<notin> F) (sorted_list_of_set T) = [] \<longleftrightarrow> T \<subseteq> F" for T :: "symbol set"
    by (auto simp: filter_empty_conv)
  moreover have "list_all (\<lambda>f. case field_ty cx ty f of None \<Rightarrow> False
        | Some t \<Rightarrow> is_trivially_droppable_at_exit cx t) (sorted_list_of_set F) \<longleftrightarrow>
      (\<forall>f \<in> F. \<exists>t. field_ty cx ty f = Some t \<and> is_trivially_droppable_at_exit cx t)"
    by (simp add: list_all_iff case_option_False_iff)
  ultimately show ?thesis
    using assms PartialInit by (cases "type_field_set cx ty") (simp_all add: exit_diag_def)
qed (auto simp: exit_diag_def)

text \<open>C20: The function-exit check is sound and reports each name once: when it reports
  nothing, every binding still visible is either fully valid, or moved out, or partially
  initialised with all its members present, or a \<open>take\<close> parameter whose remaining members
  are all droppable; in any case no name is reported twice.\<close>

theorem exit_check_sound:
  "distinct (map diag_symbol (check_fn_body_exit cx env sp tp)) \<and>
   (check_fn_body_exit cx env sp tp = [] \<longrightarrow>
    lookup_state env x = Some s \<longrightarrow> env_lookup env x = Some ty \<longrightarrow>
     s = Valid \<or> s = Consumed \<or>
     (\<exists>F. s = PartialInit F \<and> (\<forall>T. type_field_set cx ty = Some T \<longrightarrow> T \<subseteq> F \<or>
        x \<in> set tp \<and> (\<forall>f \<in> F. \<exists>t. field_ty cx ty f = Some t \<and> droppable cx t))))"
proof (intro conjI impI)
  show "distinct (map diag_symbol (check_fn_body_exit cx env sp tp))"
    using exit_scan_once by (simp add: check_fn_body_exit_def)
  assume h: "check_fn_body_exit cx env sp tp = []" "lookup_state env x = Some s" "env_lookup env x = Some ty"
  then have "exit_diag cx env sp tp x s = None"
    using lookup_state_iter [OF h(2)]
    by (simp add: check_fn_body_exit_def exit_scan_empty_iff Ball_def)
  then consider "s = Valid" | "s = Consumed" | F where "s = PartialInit F"
    "\<forall>T. type_field_set cx ty = Some T \<longrightarrow> T \<subseteq> F \<or> x \<in> set tp \<and>
       (\<forall>f \<in> F. \<exists>t. field_ty cx ty f = Some t \<and> is_trivially_droppable_at_exit cx t)"
    unfolding exit_diag_None_iff [OF h(3)] by blast
  then show "s = Valid \<or> s = Consumed \<or>
     (\<exists>F. s = PartialInit F \<and> (\<forall>T. type_field_set cx ty = Some T \<longrightarrow> T \<subseteq> F \<or>
        x \<in> set tp \<and> (\<forall>f \<in> F. \<exists>t. field_ty cx ty f = Some t \<and> droppable cx t)))"
  proof cases
    case (3 F)
    then have "\<forall>T. type_field_set cx ty = Some T \<longrightarrow> T \<subseteq> F \<or> x \<in> set tp \<and>
       (\<forall>f \<in> F. \<exists>t. field_ty cx ty f = Some t \<and> droppable cx t)"
      using at_exit_droppable by meson
    with 3(1) show ?thesis by simp
  qed simp_all
qed

theorem exit_check_sound_witness:
  "\<exists>F. PartialInit {11::symbol} = PartialInit F \<and> (\<forall>f \<in> F. \<exists>t. field_ty demo_cx 1 f = Some t \<and> droppable demo_cx t)"
proof -
  have "check_fn_body_exit demo_cx [[(1, demo_bind 1 (PartialInit {11}))]] span_dummy [1] = []"
    by (simp add: check_fn_body_exit_def iter_states_def demo_bind_def exit_diag_def env_lookup_def
        lookup_info_def field_ty_def)
      (simp add: demo_cx_def is_trivially_droppable_at_exit_def)
  then show ?thesis
    using exit_check_sound [of demo_cx "[[(1, demo_bind 1 (PartialInit {11}))]]" span_dummy "[1]" 1 "PartialInit {11}" 1]
    by (simp add: lookup_state_def lookup_info_def env_lookup_def demo_bind_def)
qed

text \<open>Destructuring a \<open>take\<close> parameter completely is rejected at exit: after every field has been
  taken the binding is summarised as uninitialised, and the exit check reports it, although the
  same parameter moved out as a whole, or with a droppable remainder, passes.\<close>

theorem exit_rejects_full_destructuring:
  "fst (run_args demo_cx [[(1, demo_bind 4 Valid)]] [demo_arg Take (HField (HPath [1]) 10)]) =
     [[(1, demo_bind 4 Uninit)]] \<and>
   check_fn_body_exit demo_cx [[(1, demo_bind 4 Uninit)]] sp [1] = [ExitNotValid sp 1 Uninit] \<and>
   check_fn_body_exit demo_cx [[(1, demo_bind 4 Consumed)]] sp [1] = []"
  by (simp add: check_fn_body_exit_def iter_states_def exit_diag_def demo_defs mode_step_defs)

section \<open>The linear sweep\<close>

lemma sweep_mem_iff:
  assumes "wf_env e" "e \<noteq> []"
  shows "LinearUnconsumed sp x \<in> set (check_block_exit_linear cx e sp) \<longleftrightarrow>
    (\<exists>i. map_of (last e) x = Some i \<and> bi_state i = Valid \<and> is_linear_type cx (bi_ty i))"
proof -
  have "distinct_keys (last e)" using assms by (simp add: wf_env_def)
  then have m: "map_of (last e) x = Some i \<longleftrightarrow> (x, i) \<in> set (last e)" for i
    using map_of_eq_Some_iff by fast
  have "LinearUnconsumed sp x \<in> set (check_block_exit_linear cx e sp) \<longleftrightarrow>
      (\<exists>st ty. (x, st, ty) \<in> set (iter_top_frame e) \<and> st = Valid \<and> is_linear_type cx ty)"
    by (force simp: check_block_exit_linear_def)
  also have "\<dots> \<longleftrightarrow> (\<exists>i. (x, i) \<in> set (last e) \<and> bi_state i = Valid \<and> is_linear_type cx (bi_ty i))"
    using assms(2) by (force simp: iter_top_frame_def)
  finally show ?thesis by (simp only: m)
qed

lemma consume_moved_linear_wf:
  assumes "wf_env env"
  shows "wf_env (consume_moved_linear cx env e)" "consume_moved_linear cx env e = [] \<longleftrightarrow> env = []"
proof -
  have "fst (transition env x Consumed) = [] \<longleftrightarrow> env = []" for x
    using keys_transition [of env x Consumed] by (metis map_is_Nil_conv)
  then show "wf_env (consume_moved_linear cx env e)" "consume_moved_linear cx env e = [] \<longleftrightarrow> env = []"
    using assms by (simp_all add: consume_moved_linear_def transition_wf split: option.split)
qed

text \<open>C24: The linear sweep is exact on the closing block: it reports a name precisely when the
  innermost frame binds it to a value of a linear type that is still valid, and a linear
  binding moved by a tail expression or a \<open>return\<close> (\<^verbatim>\<open>consume_moved_linear\<close>) is not reported.\<close>

theorem linear_sweep_exact:
  assumes "wf_env env" "env \<noteq> []"
  shows "(LinearUnconsumed sp x \<in> set (check_block_exit_linear cx env sp) \<longleftrightarrow>
      (\<exists>i. map_of (last env) x = Some i \<and> bi_state i = Valid \<and> is_linear_type cx (bi_ty i))) \<and>
    LinearUnconsumed sp x \<notin> set (check_block_exit_linear cx (consume_moved_linear cx env (HPath [x])) sp)"
proof -
  let ?e = "consume_moved_linear cx env (HPath [x])"
  have e: "wf_env ?e" "?e \<noteq> []"
    using assms by (simp_all add: consume_moved_linear_wf)
  have "\<not> (map_of (last ?e) x = Some i \<and> bi_state i = Valid \<and> is_linear_type cx (bi_ty i))" for i
  proof
    assume h: "map_of (last ?e) x = Some i \<and> bi_state i = Valid \<and> is_linear_type cx (bi_ty i)"
    obtain e0 f where ef: "?e = e0 @ [f]" using e(2) by (metis append_butlast_last_id)
    with h have "lookup_info ?e x = Some i" by (simp add: lookup_info_snoc)
    with h show False
      by (auto simp: consume_moved_linear_def lookup_state_def env_lookup_def lookup_info_transition
          split: option.splits if_splits)
  qed
  with sweep_mem_iff [OF assms] sweep_mem_iff [OF e] show ?thesis by simp
qed

theorem linear_sweep_exact_witness:
  "LinearUnconsumed span_dummy 1 \<in>
     set (check_block_exit_linear demo_cx [[], [(1, demo_bind 3 Valid)]] span_dummy)"
  using linear_sweep_exact [of "[[], [(1, demo_bind 3 Valid)]]" span_dummy 1 demo_cx]
  by (simp add: wf_env_def demo_defs is_linear_type_def type_linearity_def)


end
