(* ===== verification/Effect_Row.thy ===== *)
theory Effect_Row
  imports Edda_Prelude "HOL-Library.Product_Lexorder"
begin

text \<open>
  Effect rows (\<^verbatim>\<open>crates/edda-types/src/effect.rs\<close>) and the accumulator that inference pushes
  entries into (\<^verbatim>\<open>infer/row_acc.rs\<close>), with their clients: handler discharge and the \<open>?\<close> operator
  (\<^verbatim>\<open>infer/effect.rs\<close>), the comptime purity gate (\<^verbatim>\<open>infer/call/comptime_purity.rs\<close>) and the
  row-containment check at function exit (\<^verbatim>\<open>infer/fn_body.rs\<close>). A row is the source's sorted,
  deduplicated slice; \<open>effect_entry\<close> carries the order the source derives.
\<close>

datatype pure_effect =
  Panic | Err ty_id | Yield ty_id | Divergence | Cancellation | Nondet

datatype effect_entry = Capability symbol | Pure pure_effect

section \<open>The derived order\<close>

text \<open>The derived \<^verbatim>\<open>Ord\<close> compares the variant index first and the payload second.\<close>

fun pure_key :: "pure_effect \<Rightarrow> nat \<times> u32" where
  "pure_key Panic = (0, 0)"
| "pure_key (Err t) = (1, t)"
| "pure_key (Yield t) = (2, t)"
| "pure_key Divergence = (3, 0)"
| "pure_key Cancellation = (4, 0)"
| "pure_key Nondet = (5, 0)"

fun entry_key :: "effect_entry \<Rightarrow> nat \<times> nat \<times> u32" where
  "entry_key (Capability s) = (0, 0, s)"
| "entry_key (Pure p) = (1, pure_key p)"

lemma pure_key_inj: "pure_key a = pure_key b \<longleftrightarrow> a = b"
  by (cases a; cases b) auto

lemma entry_key_inj: "entry_key a = entry_key b \<longleftrightarrow> a = b"
  by (cases a; cases b) (auto simp: pure_key_inj)

instantiation effect_entry :: linorder
begin

definition less_eq_effect_entry :: "effect_entry \<Rightarrow> effect_entry \<Rightarrow> bool" where
  "a \<le> b \<longleftrightarrow> entry_key a \<le> entry_key b"

definition less_effect_entry :: "effect_entry \<Rightarrow> effect_entry \<Rightarrow> bool" where
  "a < b \<longleftrightarrow> entry_key a < entry_key b"

instance
  by standard (auto simp: less_eq_effect_entry_def less_effect_entry_def entry_key_inj
      simp flip: entry_key_inj)

end

section \<open>Rows\<close>

type_synonym effect_row = "effect_entry list"

definition row_empty :: effect_row where
  "row_empty = []"

text \<open>\<^verbatim>\<open>Vec::dedup\<close> removes consecutive duplicates.\<close>

fun dedup :: "'a list \<Rightarrow> 'a list" where
  "dedup (a # b # xs) = (if a = b then dedup (b # xs) else a # dedup (b # xs))"
| "dedup xs = xs"

definition from_entries :: "effect_entry list \<Rightarrow> effect_row" where
  "from_entries es = dedup (sort es)"

definition row_len :: "effect_row \<Rightarrow> nat" where
  "row_len row = length row"

definition row_is_empty :: "effect_row \<Rightarrow> bool" where
  "row_is_empty row \<longleftrightarrow> row = []"

text \<open>\<^verbatim>\<open>slice::binary_search\<close> on the half-open window \<open>[left, right)\<close>.\<close>

function binary_search :: "'a::linorder list \<Rightarrow> 'a \<Rightarrow> nat \<Rightarrow> nat \<Rightarrow> nat option" where
  "binary_search xs x left right =
     (if left < right then
        let mid = left + (right - left) div 2
        in if xs ! mid = x then Some mid
           else if xs ! mid < x then binary_search xs x (Suc mid) right
           else binary_search xs x left mid
      else None)"
  by pat_completeness auto

termination
  by (relation "measure (\<lambda>(xs, x, left, right). right - left)") auto

declare binary_search.simps [simp del]

definition row_contains :: "effect_row \<Rightarrow> effect_entry \<Rightarrow> bool" where
  "row_contains row entry \<longleftrightarrow> binary_search row entry 0 (length row) \<noteq> None"

fun merge_entries :: "effect_entry list \<Rightarrow> effect_entry list \<Rightarrow> effect_entry list" where
  "merge_entries (a # as) (b # bs) =
     (if a < b then a # merge_entries as (b # bs)
      else if b < a then b # merge_entries (a # as) bs
      else a # merge_entries as bs)"
| "merge_entries [] bs = bs"
| "merge_entries as [] = as"

definition row_union :: "effect_row \<Rightarrow> effect_row \<Rightarrow> effect_row" where
  "row_union row other =
     (if row_is_empty other then row
      else if row_is_empty row then other
      else merge_entries row other)"

text \<open>Rendering takes the symbol resolver and the type printer as arguments.\<close>

fun render_entry :: "(symbol \<Rightarrow> string) \<Rightarrow> (ty_id \<Rightarrow> string) \<Rightarrow> effect_entry \<Rightarrow> string" where
  "render_entry resolve display_ty (Capability s) = resolve s"
| "render_entry resolve display_ty (Pure Panic) = ''panic''"
| "render_entry resolve display_ty (Pure (Err t)) = ''err: '' @ display_ty t"
| "render_entry resolve display_ty (Pure (Yield t)) = ''yield: '' @ display_ty t"
| "render_entry resolve display_ty (Pure Divergence) = ''divergence''"
| "render_entry resolve display_ty (Pure Cancellation) = ''cancellation''"
| "render_entry resolve display_ty (Pure Nondet) = ''nondet''"

fun join_comma :: "string list \<Rightarrow> string" where
  "join_comma [] = []"
| "join_comma [s] = s"
| "join_comma (s # ss) = s @ '', '' @ join_comma ss"

definition row_display :: "(symbol \<Rightarrow> string) \<Rightarrow> (ty_id \<Rightarrow> string) \<Rightarrow> effect_row \<Rightarrow> string" where
  "row_display resolve display_ty row =
     ''{'' @ join_comma (map (render_entry resolve display_ty) row) @ ''}''"

section \<open>Graded kinds\<close>

datatype graded_kind = Alloc | Io | Time

definition graded_from_name :: "string \<Rightarrow> graded_kind option" where
  "graded_from_name s =
     (if s = ''alloc'' then Some Alloc
      else if s = ''io'' then Some Io
      else if s = ''time'' then Some Time
      else None)"

fun graded_as_str :: "graded_kind \<Rightarrow> string" where
  "graded_as_str Alloc = ''alloc''"
| "graded_as_str Io = ''io''"
| "graded_as_str Time = ''time''"

fun resource_var :: "graded_kind \<Rightarrow> string" where
  "resource_var Alloc = ''bytes''"
| "resource_var Io = ''calls''"
| "resource_var Time = ''ops''"

section \<open>The accumulator\<close>

type_synonym effect_acc = "effect_entry list"

definition acc_new :: effect_acc where
  "acc_new = []"

definition acc_push :: "effect_acc \<Rightarrow> effect_entry \<Rightarrow> effect_acc" where
  "acc_push acc entry = acc @ [entry]"

definition checkpoint :: "effect_acc \<Rightarrow> nat" where
  "checkpoint acc = length acc"

text \<open>Slicing past the end panics.\<close>

definition entries_since :: "effect_acc \<Rightarrow> nat \<Rightarrow> effect_entry list option" where
  "entries_since acc cp = (if cp \<le> length acc then Some (drop cp acc) else None)"

definition to_row :: "effect_acc \<Rightarrow> effect_row" where
  "to_row acc = from_entries acc"

definition acc_clear :: "effect_acc \<Rightarrow> effect_acc" where
  "acc_clear acc = []"

text \<open>
  The in-place compaction both discharge operations perform: \<open>read\<close> runs over the given
  positions, \<open>write\<close> trails behind it, and the vector is truncated at the end.
\<close>

fun compact_loop ::
  "(effect_entry \<Rightarrow> bool) \<Rightarrow> effect_acc \<Rightarrow> nat list \<Rightarrow> nat \<Rightarrow> effect_acc" where
  "compact_loop discharged acc [] write = take write acc"
| "compact_loop discharged acc (read # reads) write =
     (if discharged (acc ! read) then compact_loop discharged acc reads write
      else compact_loop discharged
             (if read \<noteq> write then acc[write := acc ! read] else acc) reads (write + 1))"

definition discharge_since :: "effect_acc \<Rightarrow> nat \<Rightarrow> effect_entry \<Rightarrow> effect_acc" where
  "discharge_since acc cp entry = compact_loop (\<lambda>e. e = entry) acc [cp..<length acc] cp"

fun comptime_envelope :: "effect_entry \<Rightarrow> bool" where
  "comptime_envelope (Pure Panic) = True"
| "comptime_envelope (Pure (Yield _)) = True"
| "comptime_envelope _ = False"

definition discharge_comptime_envelope_since :: "effect_acc \<Rightarrow> nat \<Rightarrow> effect_acc" where
  "discharge_comptime_envelope_since acc cp =
     compact_loop comptime_envelope acc [cp..<length acc] cp"

section \<open>Checks on rows\<close>

datatype effect_diag =
  TerminationUnproven effect_row
| DivergenceNotAdmitted effect_row
| EffectRowMismatch effect_entry effect_row
| NoErrorToPropagate
| TryNotAdmitted effect_entry effect_row
| ComptimePurityLoss "effect_entry list"

fun project_missing :: "effect_entry \<Rightarrow> effect_row \<Rightarrow> bool \<Rightarrow> effect_diag" where
  "project_missing (Pure Divergence) declared inject_divergence =
     (if inject_divergence then TerminationUnproven declared else DivergenceNotAdmitted declared)"
| "project_missing entry declared inject_divergence = EffectRowMismatch entry declared"

definition check_row_containment :: "effect_acc \<Rightarrow> effect_row \<Rightarrow> bool \<Rightarrow> effect_diag list" where
  "check_row_containment acc declared inject_divergence =
     (let actual = to_row acc
      in if row_is_empty actual then []
         else map (\<lambda>entry. project_missing entry declared inject_divergence)
                (filter (\<lambda>entry. \<not> row_contains declared entry) actual))"

definition check_comptime_purity :: "effect_row \<Rightarrow> effect_diag list" where
  "check_comptime_purity effects =
     (let offending = filter (\<lambda>e. \<not> comptime_envelope e) effects
      in if offending = [] then [] else [ComptimePurityLoss offending])"

fun is_err :: "effect_entry \<Rightarrow> bool" where
  "is_err (Pure (Err _)) = True"
| "is_err _ = False"

text \<open>The row side of \<^verbatim>\<open>synth_try\<close>, on the entries its operand pushed.\<close>

definition try_check :: "effect_row \<Rightarrow> effect_entry list \<Rightarrow> effect_entry list \<Rightarrow> effect_diag list" where
  "try_check declared discharged since =
     (let propagated = filter is_err since
      in if propagated = [] then [NoErrorToPropagate]
         else map (\<lambda>entry. TryNotAdmitted entry declared)
                (filter (\<lambda>entry. \<not> row_contains declared entry \<and> entry \<notin> set discharged) propagated))"

section \<open>Rows as canonical sets\<close>

text \<open>What inference relies on: a row type with one representation per set of entries.\<close>

locale canonical_set =
  fixes emp :: 'r and uni :: "'r \<Rightarrow> 'r \<Rightarrow> 'r" and mem :: "'r \<Rightarrow> 'e \<Rightarrow> bool"
    and inv :: "'r \<Rightarrow> bool" and elems :: "'r \<Rightarrow> 'e set"
  assumes inv_emp: "inv emp" and elems_emp: "elems emp = {}"
    and inv_uni: "inv a \<Longrightarrow> inv b \<Longrightarrow> inv (uni a b)"
    and elems_uni: "inv a \<Longrightarrow> inv b \<Longrightarrow> elems (uni a b) = elems a \<union> elems b"
    and mem_iff: "inv a \<Longrightarrow> mem a x \<longleftrightarrow> x \<in> elems a"
    and canonical: "inv a \<Longrightarrow> inv b \<Longrightarrow> elems a = elems b \<Longrightarrow> a = b"
begin

lemma uni_comm: "inv a \<Longrightarrow> inv b \<Longrightarrow> uni a b = uni b a"
  by (rule canonical) (auto simp: inv_uni elems_uni)

lemma uni_assoc: "inv a \<Longrightarrow> inv b \<Longrightarrow> inv c \<Longrightarrow> uni (uni a b) c = uni a (uni b c)"
  by (rule canonical) (auto simp: inv_uni elems_uni)

lemma uni_idem: "inv a \<Longrightarrow> uni a a = a"
  by (rule canonical) (auto simp: inv_uni elems_uni)

lemma uni_emp: "inv a \<Longrightarrow> uni emp a = a" "inv a \<Longrightarrow> uni a emp = a"
  by (rule canonical; auto simp: inv_emp inv_uni elems_uni elems_emp)+

lemma uni_absorb_iff: "inv a \<Longrightarrow> inv b \<Longrightarrow> uni a b = b \<longleftrightarrow> (\<forall>x. mem a x \<longrightarrow> mem b x)"
  using canonical [of "uni a b" b] by (auto simp: inv_uni elems_uni mem_iff) (metis UnCI elems_uni)

lemma mem_uni: "inv a \<Longrightarrow> inv b \<Longrightarrow> mem (uni a b) x \<longleftrightarrow> mem a x \<or> mem b x"
  by (simp add: mem_iff inv_uni elems_uni)

end

definition canonical_row :: "effect_row \<Rightarrow> bool" where
  "canonical_row row \<longleftrightarrow> sorted_wrt (<) row"

lemma canonical_row_Nil [simp]: "canonical_row []"
  by (simp add: canonical_row_def)

lemma canonical_row_sorted: "canonical_row row \<longleftrightarrow> sorted row \<and> distinct row"
  by (simp add: canonical_row_def strict_sorted_iff)

lemma set_dedup [simp]: "set (dedup xs) = set xs"
  by (induction xs rule: dedup.induct) auto

lemma dedup_sorted: "sorted xs \<Longrightarrow> sorted_wrt (<) (dedup xs)" for xs :: "'a::linorder list"
proof (induction xs rule: dedup.induct)
  case (1 a b xs)
  then have "a < y" if "a \<noteq> b" "y \<in> set (dedup (b # xs))" for y
    using that by auto
  with 1 show ?case by auto
qed auto

lemma from_entries_canonical [wf_intros]: "canonical_row (from_entries es)"
  by (simp add: canonical_row_def from_entries_def dedup_sorted)

lemma set_from_entries [simp]: "set (from_entries es) = set es"
  by (simp add: from_entries_def)

lemma set_merge_entries: "set (merge_entries as bs) = set as \<union> set bs"
  by (induction as bs rule: merge_entries.induct) auto

lemma merge_entries_canonical:
  "sorted_wrt (<) as \<Longrightarrow> sorted_wrt (<) bs \<Longrightarrow> sorted_wrt (<) (merge_entries as bs)"
proof (induction as bs rule: merge_entries.induct)
  case (1 a as b bs)
  have "\<forall>x \<in> set as. a < x" "\<forall>x \<in> set bs. b < x" using 1(4,5) by auto
  with 1 show ?case by (auto simp: set_merge_entries intro: less_trans dest: antisym_conv3)
qed auto

lemma binary_search_step:
  assumes "l < r" "mid = l + (r - l) div 2"
  shows "binary_search xs x l r = (if xs ! mid = x then Some mid
    else if xs ! mid < x then binary_search xs x (Suc mid) r else binary_search xs x l mid)"
  unfolding assms(2) by (subst binary_search.simps) (simp only: assms(1) Let_def if_True)

lemma binary_search_Some: "binary_search xs x l r = Some i \<Longrightarrow> l \<le> i \<and> i < r \<and> xs ! i = x"
proof (induction xs x l r rule: binary_search.induct)
  case (1 xs x l r)
  define mid where "mid = l + (r - l) div 2"
  note IH = 1(1,2) [OF _ mid_def]
  have lr: "l < r" using 1(3) by (subst (asm) binary_search.simps) (auto split: if_splits)
  then have mid: "l \<le> mid" "mid < r" by (auto simp: mid_def)
  have b: "(if xs ! mid = x then Some mid else if xs ! mid < x then binary_search xs x (Suc mid) r
      else binary_search xs x l mid) = Some i"
    using 1(3) by (simp only: binary_search_step [OF lr mid_def])
  consider "xs ! mid = x" | "xs ! mid \<noteq> x" "xs ! mid < x" | "xs ! mid \<noteq> x" "\<not> xs ! mid < x" by blast
  then show ?case
  proof cases
    case 1
    with b mid show ?thesis by simp
  next
    case 2
    with b IH(1) [OF lr 2] mid show ?thesis by simp
  next
    case 3
    with b IH(2) [OF lr 3] mid show ?thesis by simp
  qed
qed

lemma binary_search_None:
  "sorted xs \<Longrightarrow> r \<le> length xs \<Longrightarrow> binary_search xs x l r = None \<Longrightarrow> l \<le> i \<Longrightarrow> i < r \<Longrightarrow> xs ! i \<noteq> x"
proof (induction xs x l r arbitrary: i rule: binary_search.induct)
  case (1 xs x l r)
  define mid where "mid = l + (r - l) div 2"
  note IH = 1(1,2) [OF _ mid_def]
  have lr: "l < r" using 1(6,7) by simp
  then have mid: "l \<le> mid" "mid < r" by (auto simp: mid_def)
  have b: "(if xs ! mid = x then Some mid else if xs ! mid < x then binary_search xs x (Suc mid) r
      else binary_search xs x l mid) = None"
    using 1(5) by (simp only: binary_search_step [OF lr mid_def])
  have ne: "xs ! mid \<noteq> x" using b by (auto split: if_splits)
  show ?case
  proof (cases "xs ! mid < x")
    case True
    show ?thesis
    proof (cases "i \<le> mid")
      case le: True
      with 1(3,4) mid have "xs ! i \<le> xs ! mid" by (intro sorted_nth_mono) auto
      with True show ?thesis by auto
    next
      case False
      with IH(1) [OF lr ne True 1(3,4)] b ne True 1(7) show ?thesis by simp
    qed
  next
    case False
    show ?thesis
    proof (cases "mid \<le> i")
      case le: True
      with 1(3,4,7) have "xs ! mid \<le> xs ! i" by (intro sorted_nth_mono) auto
      with False ne show ?thesis by auto
    next
      case lt: False
      with IH(2) [OF lr ne False 1(3)] b ne False 1(4,6) mid show ?thesis by simp
    qed
  qed
qed

lemma row_contains_iff: "canonical_row row \<Longrightarrow> row_contains row e \<longleftrightarrow> e \<in> set row"
  using binary_search_Some [of row e 0 "length row"] binary_search_None [of row "length row" e 0]
  by (fastforce simp: row_contains_def canonical_row_sorted in_set_conv_nth)

interpretation row_set: canonical_set row_empty row_union row_contains canonical_row set
proof
  fix a b :: effect_row and x
  assume ab: "canonical_row a" "canonical_row b"
  then show "canonical_row (row_union a b)" "set (row_union a b) = set a \<union> set b"
    by (auto simp: row_union_def row_is_empty_def canonical_row_def merge_entries_canonical
        set_merge_entries)
  show "set a = set b \<Longrightarrow> a = b"
    using ab by (auto simp: canonical_row_sorted intro: sorted_distinct_set_unique)
qed (auto simp: row_empty_def row_contains_iff)

text \<open>C28: Effect rows form a join semilattice under the merge pass: on canonical rows
  \<^verbatim>\<open>union\<close> is commutative, associative and idempotent as an equality of slices, its binary-search
  membership is the union of the memberships, and \<open>a \<union> b = b\<close> is row containment.\<close>

theorem row_union_semilattice:
  assumes "canonical_row a" "canonical_row b" "canonical_row c"
  shows "row_union a b = row_union b a \<and>
    row_union (row_union a b) c = row_union a (row_union b c) \<and>
    row_union a a = a \<and>
    (row_contains (row_union a b) e \<longleftrightarrow> row_contains a e \<or> row_contains b e) \<and>
    (row_union a b = b \<longleftrightarrow> (\<forall>x. row_contains a x \<longrightarrow> row_contains b x))"
  using row_set.uni_comm [OF assms(1,2)] row_set.uni_assoc [OF assms] row_set.uni_idem [OF assms(1)]
    row_set.mem_uni [OF assms(1,2)] row_set.uni_absorb_iff [OF assms(1,2)] by simp

theorem row_union_semilattice_witness:
  "row_union [Capability 3, Pure Panic] [Capability 1, Pure Panic] =
   row_union [Capability 1, Pure Panic] [Capability 3, Pure Panic]"
  using row_union_semilattice [of "[Capability 3, Pure Panic]" "[Capability 1, Pure Panic]" "[]"]
  by (simp add: canonical_row_def less_effect_entry_def)

section \<open>Discharge\<close>

text \<open>The loop keeps the prefix it has written and filters the entries still to read.\<close>

lemma compact_loop_eq:
  "write \<le> read \<Longrightarrow> read \<le> length acc \<Longrightarrow>
     compact_loop P acc [read..<length acc] write = take write acc @ filter (\<lambda>e. \<not> P e) (drop read acc)"
proof (induction "length acc - read" arbitrary: acc read "write")
  case 0
  then show ?case by simp
next
  case (Suc n)
  then have r: "read < length acc" by simp
  then have reads: "[read..<length acc] = read # [Suc read..<length acc]" by (simp add: upt_rec)
  have drop: "drop read acc = acc ! read # drop (Suc read) acc" by (simp add: Cons_nth_drop_Suc r)
  show ?case
  proof (cases "P (acc ! read)")
    case True
    with Suc r reads drop show ?thesis by (simp add: Suc.hyps(1))
  next
    case False
    let ?acc = "if read \<noteq> write then acc[write := acc ! read] else acc"
    have "compact_loop P ?acc [Suc read..<length ?acc] (Suc write) =
        take (Suc write) ?acc @ filter (\<lambda>e. \<not> P e) (drop (Suc read) ?acc)"
      using Suc r by (intro Suc.hyps(1)) (auto split: if_splits)
    moreover have "take (Suc write) ?acc = take write acc @ [acc ! read]"
      using Suc.prems r by (auto simp: take_Suc_conv_app_nth)
    moreover have "drop (Suc read) ?acc = drop (Suc read) acc"
      using Suc.prems by simp
    ultimately show ?thesis
      using False reads drop by (simp split: if_splits)
  qed
qed

lemma discharge_since_eq:
  "cp \<le> length acc \<Longrightarrow>
     discharge_since acc cp entry = take cp acc @ filter (\<lambda>e. e \<noteq> entry) (drop cp acc)"
  by (simp add: discharge_since_def compact_loop_eq)

lemma discharge_envelope_eq:
  "cp \<le> length acc \<Longrightarrow> discharge_comptime_envelope_since acc cp =
     take cp acc @ filter (\<lambda>e. \<not> comptime_envelope e) (drop cp acc)"
  by (simp add: discharge_comptime_envelope_since_def compact_loop_eq)

text \<open>
  The row-relevant skeleton of a body: performing an entry, sequencing, a handler with its
  recovery, the \<open>?\<close> operator and a comptime block. \<open>row_walk\<close> threads the accumulator and the
  stack of open handlers through it the way \<^verbatim>\<open>synth_handle\<close>, \<^verbatim>\<open>synth_try\<close> and the comptime arms do.
\<close>

datatype row_tree =
  Perform effect_entry | Both row_tree row_tree | HandleErr ty_id row_tree row_tree
| TryOp row_tree | Comptime row_tree

fun row_walk ::
  "effect_row \<Rightarrow> effect_entry list \<Rightarrow> row_tree \<Rightarrow> effect_acc \<Rightarrow> effect_acc \<times> effect_diag list" where
  "row_walk declared stack (Perform e) acc = (acc_push acc e, [])"
| "row_walk declared stack (Both a b) acc =
     (let (acc, d1) = row_walk declared stack a acc;
          (acc, d2) = row_walk declared stack b acc
      in (acc, d1 @ d2))"
| "row_walk declared stack (HandleErr ty body recovery) acc =
     (let cp = checkpoint acc;
          (acc, d1) = row_walk declared (stack @ [Pure (Err ty)]) body acc;
          acc = discharge_since acc cp (Pure (Err ty));
          (acc, d2) = row_walk declared stack recovery acc
      in (acc, d1 @ d2))"
| "row_walk declared stack (TryOp inner) acc =
     (let cp = checkpoint acc;
          (acc, d1) = row_walk declared stack inner acc
      in case entries_since acc cp of
           None \<Rightarrow> (acc, d1)
         | Some since \<Rightarrow> (acc, d1 @ try_check declared stack since))"
| "row_walk declared stack (Comptime body) acc =
     (let cp = checkpoint acc;
          (acc, d) = row_walk declared stack body acc
      in (discharge_comptime_envelope_since acc cp, d))"

text \<open>The entries that leave a body, as a plain recursive definition.\<close>

fun escaping :: "row_tree \<Rightarrow> effect_entry set" where
  "escaping (Perform e) = {e}"
| "escaping (Both a b) = escaping a \<union> escaping b"
| "escaping (HandleErr ty body recovery) = (escaping body - {Pure (Err ty)}) \<union> escaping recovery"
| "escaping (TryOp inner) = escaping inner"
| "escaping (Comptime body) = {e \<in> escaping body. \<not> comptime_envelope e}"

lemma row_walk_appends:
  "\<exists>new. fst (row_walk declared stack t acc) = acc @ new \<and> set new = escaping t"
proof (induction t arbitrary: stack acc)
  case (Perform e)
  then show ?case by (simp add: acc_push_def)
next
  case (Both a b)
  obtain n1 where n1: "fst (row_walk declared stack a acc) = acc @ n1" "set n1 = escaping a"
    using Both(1) by blast
  obtain n2 where "fst (row_walk declared stack b (acc @ n1)) = (acc @ n1) @ n2" "set n2 = escaping b"
    using Both(2) by blast
  with n1 show ?case by (auto simp: Let_def split_def)
next
  case (HandleErr ty body recovery)
  obtain n1 where n1: "fst (row_walk declared (stack @ [Pure (Err ty)]) body acc) = acc @ n1"
    "set n1 = escaping body" using HandleErr(1) by blast
  define acc' where "acc' = acc @ filter (\<lambda>e. e \<noteq> Pure (Err ty)) n1"
  have a: "discharge_since (acc @ n1) (checkpoint acc) (Pure (Err ty)) = acc'"
    by (simp add: discharge_since_eq checkpoint_def acc'_def)
  obtain n2 where "fst (row_walk declared stack recovery acc') = acc' @ n2" "set n2 = escaping recovery"
    using HandleErr(2) by blast
  with n1 a show ?case by (auto simp: Let_def split_def acc'_def)
next
  case (TryOp inner)
  then show ?case by (simp add: Let_def split_def split: option.split)
next
  case (Comptime body)
  obtain n1 where "fst (row_walk declared stack body acc) = acc @ n1" "set n1 = escaping body"
    using Comptime by blast
  then show ?case by (auto simp: Let_def split_def discharge_envelope_eq checkpoint_def)
qed

lemma missing_entries:
  assumes "canonical_row declared"
  shows "filter (\<lambda>e. \<not> row_contains declared e) (to_row acc) = sorted_list_of_set (set acc - set declared)"
proof -
  have "sorted_wrt (<) (to_row acc)"
    using from_entries_canonical [of acc] by (simp add: to_row_def canonical_row_def)
  then have "sorted_wrt (<) (filter (\<lambda>e. \<not> row_contains declared e) (to_row acc))"
    by (rule sorted_wrt_filter)
  moreover have "set (filter (\<lambda>e. \<not> row_contains declared e) (to_row acc)) = set acc - set declared"
    using assms by (auto simp: row_contains_iff to_row_def)
  ultimately show ?thesis
    by (intro sorted_distinct_set_unique) (simp_all add: strict_sorted_iff del: set_filter)
qed

lemma check_row_containment_eq:
  "canonical_row declared \<Longrightarrow> check_row_containment acc declared inject =
     map (\<lambda>e. project_missing e declared inject) (sorted_list_of_set (set acc - set declared))"
proof -
  assume c: "canonical_row declared"
  have "to_row acc = [] \<Longrightarrow> set acc = {}" using set_from_entries [of acc] by (simp add: to_row_def)
  with missing_entries [OF c] show ?thesis
    by (auto simp: check_row_containment_def row_is_empty_def Let_def)
qed

text \<open>C3: The row-containment check is exact: after walking a body with any nesting of
  handlers, \<open>?\<close> and comptime blocks, the function-exit check emits exactly one diagnostic for
  every entry that escapes the body and is not declared, in canonical order, and none for an
  entry that a handler or a comptime block discharged; an empty report means that everything
  that escapes is declared.\<close>

theorem row_containment_exact:
  assumes "canonical_row declared"
  shows "check_row_containment (fst (row_walk declared stack t acc_new)) declared inject =
    map (\<lambda>e. project_missing e declared inject) (sorted_list_of_set (escaping t - set declared))"
  using row_walk_appends [of declared stack t acc_new] check_row_containment_eq [OF assms]
  by (auto simp: acc_new_def)

theorem row_containment_exact_witness:
  "check_row_containment (fst (row_walk [Pure Panic] [] (Both (HandleErr 7 (Perform (Pure (Err 7)))
      (Perform (Capability 2))) (Perform (Pure Panic))) acc_new)) [Pure Panic] False
   = [EffectRowMismatch (Capability 2) [Pure Panic]]"
proof -
  have "{Capability 2, Pure Panic} - {Pure Panic} = {Capability 2}" by auto
  then show ?thesis
    using row_containment_exact [of "[Pure Panic]" "[]" "Both (HandleErr 7 (Perform (Pure (Err 7)))
      (Perform (Capability 2))) (Perform (Pure Panic))" False]
    by (simp add: canonical_row_def)
qed

text \<open>Every error entry is performed under some \<open>?\<close>.\<close>

fun tried :: "row_tree \<Rightarrow> bool" where
  "tried (Perform e) = (\<not> is_err e)"
| "tried (Both a b) = (tried a \<and> tried b)"
| "tried (HandleErr ty body recovery) = (tried body \<and> tried recovery)"
| "tried (TryOp inner) = True"
| "tried (Comptime body) = tried body"

lemma try_check_nil:
  assumes "canonical_row declared" "try_check declared stack since = []"
  shows "\<forall>e \<in> set since. is_err e \<longrightarrow> e \<in> set declared \<union> set stack"
proof (intro ballI impI)
  fix e
  assume e: "e \<in> set since" "is_err e"
  then have "filter is_err since \<noteq> []" by (auto simp: filter_empty_conv)
  with assms(2) have "filter (\<lambda>entry. \<not> row_contains declared entry \<and> entry \<notin> set stack) (filter is_err since) = []"
    by (simp add: try_check_def Let_def del: filter_filter)
  with e row_contains_iff [OF assms(1), of e] show "e \<in> set declared \<union> set stack"
    by (auto simp: filter_empty_conv)
qed

lemma row_walk_try:
  "snd (row_walk declared stack t acc) = [] \<Longrightarrow> tried t \<Longrightarrow> canonical_row declared \<Longrightarrow>
     \<forall>e \<in> escaping t. is_err e \<longrightarrow> e \<in> set declared \<union> set stack"
proof (induction t arbitrary: stack acc)
  case (HandleErr ty body recovery)
  let ?acc = "fst (row_walk declared (stack @ [Pure (Err ty)]) body acc)"
  have "snd (row_walk declared (stack @ [Pure (Err ty)]) body acc) = []"
    "snd (row_walk declared stack recovery (discharge_since ?acc (checkpoint acc) (Pure (Err ty)))) = []"
    using HandleErr.prems(1) by (simp_all add: Let_def split_def)
  with HandleErr.IH(1) [of "stack @ [Pure (Err ty)]" acc] HandleErr.IH(2) [of stack] HandleErr.prems
  show ?case by auto
next
  case (TryOp inner)
  obtain new where new: "fst (row_walk declared stack inner acc) = acc @ new" "set new = escaping inner"
    using row_walk_appends by blast
  with TryOp.prems have "try_check declared stack new = []"
    by (simp add: Let_def split_def entries_since_def checkpoint_def)
  with try_check_nil [OF TryOp.prems(3)] new(2) show ?case by simp
next
  case (Both a b)
  then have "snd (row_walk declared stack a acc) = []"
    "snd (row_walk declared stack b (fst (row_walk declared stack a acc))) = []"
    by (simp_all add: Let_def split_def)
  with Both.IH(1) [of stack acc] Both.IH(2) [of stack "fst (row_walk declared stack a acc)"] Both.prems
  show ?case by auto
qed (auto simp: Let_def split_def)



end
