(* ===== verification/Comptime_Int.thy ===== *)
theory Comptime_Int
  imports Primitives "HOL-Library.Word" "HOL-Library.Signed_Division"
begin

unbundle bit_operations_syntax

text \<open>
  Integers of the compile-time evaluator (\<^verbatim>\<open>crates/edda-comptime/src\<close>): the width-tagged value
  of \<^verbatim>\<open>value/int.rs\<close>, the operators of \<^verbatim>\<open>eval/op/int.rs\<close> and \<^verbatim>\<open>eval/op/bool.rs\<close>, and the integer
  casts of \<^verbatim>\<open>eval/expr/cast.rs\<close>. A \<^verbatim>\<open>u128\<close> is a 128-bit word; an \<^verbatim>\<open>i128\<close> is an \<^typ>\<open>int\<close> on which the
  checked, wrapping and saturating operations of the standard library are written out. An
  operation ends in \<open>Ok\<close>, in the error value the source returns, or in a panic. Floating point
  is left to the host: a float result is an abstract value of type \<open>'f\<close>.
\<close>

datatype binop =
  Add | Sub | Mul | Div | Mod | WrapAdd | WrapSub | WrapMul
| CheckAdd | CheckSub | CheckMul | CheckMod | SatAdd | SatSub | SatMul
| Eq | Ne | Lt | Le | Gt | Ge | And | Or | BitAnd | BitOr | BitXor | Shl | Shr

datatype cast_mode = Trap | Wrapping | Saturating | Checked

record int_value =
  iv_width :: primitive
  iv_bits :: u128

datatype 'f comptime_value = VInt int_value | VFloat 'f | VBool bool

datatype op_error =
  KindMismatch string "string \<times> string"
| Overflow string primitive
| DivByZero string
| WidthMismatch string "primitive \<times> primitive"

datatype 'a outcome = Ok 'a | Error op_error | Panicked

fun op_name :: "binop \<Rightarrow> string" where
  "op_name Add = ''+''" | "op_name Sub = ''-''" | "op_name Mul = ''*''"
| "op_name Div = ''/''" | "op_name Mod = ''%''"
| "op_name WrapAdd = ''+%''" | "op_name WrapSub = ''-%''" | "op_name WrapMul = ''*%''"
| "op_name CheckAdd = ''+?''" | "op_name CheckSub = ''-?''" | "op_name CheckMul = ''*?''"
| "op_name CheckMod = ''%?''"
| "op_name SatAdd = ''+|''" | "op_name SatSub = ''-|''" | "op_name SatMul = ''*|''"
| "op_name Eq = ''==''" | "op_name Ne = ''!=''" | "op_name Lt = ''<''" | "op_name Le = ''<=''"
| "op_name Gt = ''>''" | "op_name Ge = ''>=''" | "op_name And = ''&&''" | "op_name Or = ''||''"
| "op_name BitAnd = ''&''" | "op_name BitOr = ''|''" | "op_name BitXor = ''^''"
| "op_name Shl = ''<<''" | "op_name Shr = ''>>''"

section \<open>Width-tagged values\<close>

fun width_bits_or_max :: "primitive \<Rightarrow> nat" where
  "width_bits_or_max I8 = 8" | "width_bits_or_max U8 = 8"
| "width_bits_or_max I16 = 16" | "width_bits_or_max U16 = 16"
| "width_bits_or_max I32 = 32" | "width_bits_or_max U32 = 32"
| "width_bits_or_max I64 = 64" | "width_bits_or_max U64 = 64"
| "width_bits_or_max _ = 128"

definition width_mask :: "primitive \<Rightarrow> u128" where
  "width_mask width =
     (let bits = width_bits_or_max width in if bits \<ge> 128 then - 1 else push_bit bits 1 - 1)"

definition sign_extend :: "u128 \<Rightarrow> primitive \<Rightarrow> int" where
  "sign_extend bits width =
     (let w = width_bits_or_max width
      in if w \<ge> 128 then sint bits
         else if bits AND push_bit (w - 1) 1 = 0 then sint bits
         else sint (bits OR push_bit w (- 1)))"

definition new_signed :: "primitive \<Rightarrow> int \<Rightarrow> int_value" where
  "new_signed width v = \<lparr>iv_width = width, iv_bits = word_of_int v AND width_mask width\<rparr>"

definition new_unsigned :: "primitive \<Rightarrow> u128 \<Rightarrow> int_value" where
  "new_unsigned width v = \<lparr>iv_width = width, iv_bits = v AND width_mask width\<rparr>"

definition as_i128 :: "int_value \<Rightarrow> int option" where
  "as_i128 v = (if \<not> is_signed_integer (iv_width v) then None
                else Some (sign_extend (iv_bits v) (iv_width v)))"

definition as_u128 :: "int_value \<Rightarrow> u128 option" where
  "as_u128 v = (if \<not> is_unsigned_integer (iv_width v) then None else Some (iv_bits v))"

section \<open>Standard-library arithmetic\<close>

definition i128_checked :: "int \<Rightarrow> int option" where
  "i128_checked v = (if - (2 ^ 127) \<le> v \<and> v < 2 ^ 127 then Some v else None)"

definition u128_checked :: "int \<Rightarrow> u128 option" where
  "u128_checked v = (if 0 \<le> v \<and> v < 2 ^ 128 then Some (word_of_int v) else None)"

definition u128_saturating :: "int \<Rightarrow> u128" where
  "u128_saturating v = (if v < 0 then 0 else if 2 ^ 128 \<le> v then - 1 else word_of_int v)"

definition i128_wrap :: "int \<Rightarrow> int" where
  "i128_wrap v = signed_take_bit 127 v"

section \<open>Integer operators\<close>

text \<open>Every operator takes both operands through the accessor of the width's signedness; the
  \<^verbatim>\<open>expect\<close> on it panics when the accessor has no value.\<close>

definition with_signed :: "int_value \<Rightarrow> int_value \<Rightarrow> (int \<Rightarrow> int \<Rightarrow> 'a outcome) \<Rightarrow> 'a outcome" where
  "with_signed lhs rhs k =
     (case (as_i128 lhs, as_i128 rhs) of (Some l, Some r) \<Rightarrow> k l r | _ \<Rightarrow> Panicked)"

definition with_unsigned :: "int_value \<Rightarrow> int_value \<Rightarrow> (u128 \<Rightarrow> u128 \<Rightarrow> 'a outcome) \<Rightarrow> 'a outcome" where
  "with_unsigned lhs rhs k =
     (case (as_u128 lhs, as_u128 rhs) of (Some l, Some r) \<Rightarrow> k l r | _ \<Rightarrow> Panicked)"

definition arith_int :: "primitive \<Rightarrow> int_value \<Rightarrow> int_value \<Rightarrow> string
    \<Rightarrow> (int \<Rightarrow> int \<Rightarrow> int option) \<Rightarrow> (u128 \<Rightarrow> u128 \<Rightarrow> u128 option) \<Rightarrow> 'f comptime_value outcome" where
  "arith_int width lhs rhs op_str signed_op unsigned_op =
     (if is_signed_integer width then with_signed lhs rhs (\<lambda>l r.
        case signed_op l r of
          None \<Rightarrow> Error (Overflow op_str width)
        | Some v \<Rightarrow>
            let truncated = new_signed width v
            in if as_i128 truncated \<noteq> Some v then Error (Overflow op_str width)
               else Ok (VInt truncated))
      else with_unsigned lhs rhs (\<lambda>l r.
        case unsigned_op l r of
          None \<Rightarrow> Error (Overflow op_str width)
        | Some v \<Rightarrow>
            let truncated = new_unsigned width v
            in if as_u128 truncated \<noteq> Some v then Error (Overflow op_str width)
               else Ok (VInt truncated)))"

definition div_int :: "primitive \<Rightarrow> int_value \<Rightarrow> int_value \<Rightarrow> 'f comptime_value outcome" where
  "div_int width lhs rhs =
     (if is_signed_integer width then with_signed lhs rhs (\<lambda>l r.
        if r = 0 then Error (DivByZero ''/'')
        else case i128_checked (l sdiv r) of
               None \<Rightarrow> Error (Overflow ''/'' width)
             | Some v \<Rightarrow> Ok (VInt (new_signed width v)))
      else with_unsigned lhs rhs (\<lambda>l r.
        if r = 0 then Error (DivByZero ''/'') else Ok (VInt (new_unsigned width (l div r)))))"

text \<open>The primitive \<^verbatim>\<open>%\<close> on \<^verbatim>\<open>i128\<close> panics when the quotient overflows.\<close>

definition rem_int :: "primitive \<Rightarrow> int_value \<Rightarrow> int_value \<Rightarrow> 'f comptime_value outcome" where
  "rem_int width lhs rhs =
     (if is_signed_integer width then with_signed lhs rhs (\<lambda>l r.
        if r = 0 then Error (DivByZero ''%'')
        else if i128_checked (l sdiv r) = None then Panicked
        else let raw = l smod r;
                 result = (if raw < 0 then i128_wrap (raw + i128_wrap \<bar>r\<bar>) else raw)
             in Ok (VInt (new_signed width result)))
      else with_unsigned lhs rhs (\<lambda>l r.
        if r = 0 then Error (DivByZero ''%'') else Ok (VInt (new_unsigned width (l mod r)))))"

fun cmp_op :: "binop \<Rightarrow> 'a::linorder \<Rightarrow> 'a \<Rightarrow> bool outcome" where
  "cmp_op Lt l r = Ok (l < r)"
| "cmp_op Le l r = Ok (l \<le> r)"
| "cmp_op Gt l r = Ok (l > r)"
| "cmp_op Ge l r = Ok (l \<ge> r)"
| "cmp_op _ l r = Panicked"

definition cmp_int :: "binop \<Rightarrow> int_value \<Rightarrow> int_value \<Rightarrow> bool outcome" where
  "cmp_int op lhs rhs =
     (if is_signed_integer (iv_width lhs) then with_signed lhs rhs (cmp_op op)
      else with_unsigned lhs rhs (cmp_op op))"

definition make_int_value :: "primitive \<Rightarrow> u128 \<Rightarrow> 'f comptime_value" where
  "make_int_value width bits =
     (if is_signed_integer width then VInt (new_signed width (sint bits))
      else VInt (new_unsigned width bits))"

definition shift_int :: "primitive \<Rightarrow> int_value \<Rightarrow> int_value \<Rightarrow> bool \<Rightarrow> 'f comptime_value outcome" where
  "shift_int width lhs rhs right =
     (case (if is_signed_integer (iv_width rhs) then as_i128 rhs else map_option sint (as_u128 rhs)) of
        None \<Rightarrow> Panicked
      | Some amount \<Rightarrow>
          if amount < 0 then Error (Overflow (if right then ''>>'' else ''<<'') width)
          else let amt = unat (word_of_int amount :: u32); bits = iv_bits lhs
            in if right then
                 if is_signed_integer width then
                   (case as_i128 lhs of
                      None \<Rightarrow> Panicked
                    | Some sv \<Rightarrow> Ok (make_int_value width
                        (if amt \<ge> 128 then (if sv < 0 then - 1 else 0)
                         else word_of_int (drop_bit amt sv))))
                 else Ok (make_int_value width (if amt \<ge> 128 then 0 else drop_bit amt bits))
               else Ok (make_int_value width (if amt \<ge> 128 then 0 else push_bit amt bits)))"

definition negate_int :: "int_value \<Rightarrow> 'f comptime_value outcome" where
  "negate_int v =
     (if \<not> is_signed_integer (iv_width v) then Error (KindMismatch ''-'' (prim_name (iv_width v), ''''))
      else case as_i128 v of
             None \<Rightarrow> Panicked
           | Some n \<Rightarrow>
               case i128_checked (- n) of
                 None \<Rightarrow> Error (Overflow ''-'' (iv_width v))
               | Some negated \<Rightarrow>
                   let truncated = new_signed (iv_width v) negated
                   in if as_i128 truncated \<noteq> Some negated then Error (Overflow ''-'' (iv_width v))
                      else Ok (VInt truncated))"

definition bit_not_int :: "int_value \<Rightarrow> 'f comptime_value outcome" where
  "bit_not_int v = Ok (make_int_value (iv_width v) (NOT (iv_bits v)))"

section \<open>Saturating operators\<close>

text \<open>\<^verbatim>\<open>width_signed_min\<close> and its siblings are \<^verbatim>\<open>unreachable!\<close> outside their signedness, \<^const>\<open>None\<close>.\<close>

fun width_signed_min :: "primitive \<Rightarrow> int option" where
  "width_signed_min I8 = Some (- (2 ^ 7))"
| "width_signed_min I16 = Some (- (2 ^ 15))"
| "width_signed_min I32 = Some (- (2 ^ 31))"
| "width_signed_min I64 = Some (- (2 ^ 63))"
| "width_signed_min Isize = Some (- (2 ^ 63))"
| "width_signed_min I128 = Some (- (2 ^ 127))"
| "width_signed_min _ = None"

fun width_signed_max :: "primitive \<Rightarrow> int option" where
  "width_signed_max I8 = Some (2 ^ 7 - 1)"
| "width_signed_max I16 = Some (2 ^ 15 - 1)"
| "width_signed_max I32 = Some (2 ^ 31 - 1)"
| "width_signed_max I64 = Some (2 ^ 63 - 1)"
| "width_signed_max Isize = Some (2 ^ 63 - 1)"
| "width_signed_max I128 = Some (2 ^ 127 - 1)"
| "width_signed_max _ = None"

fun width_unsigned_max :: "primitive \<Rightarrow> u128 option" where
  "width_unsigned_max U8 = Some (2 ^ 8 - 1)"
| "width_unsigned_max U16 = Some (2 ^ 16 - 1)"
| "width_unsigned_max U32 = Some (2 ^ 32 - 1)"
| "width_unsigned_max U64 = Some (2 ^ 64 - 1)"
| "width_unsigned_max Usize = Some (2 ^ 64 - 1)"
| "width_unsigned_max U128 = Some (- 1)"
| "width_unsigned_max _ = None"

text \<open>The three operators share their clamping; they differ in the exact operation and in the
  bound chosen when the 128-bit operation overflows (\<open>to_max\<close>).\<close>

definition sat_int :: "primitive \<Rightarrow> int_value \<Rightarrow> int_value \<Rightarrow> (int \<Rightarrow> int \<Rightarrow> int)
    \<Rightarrow> (int \<Rightarrow> int \<Rightarrow> bool) \<Rightarrow> 'f comptime_value outcome" where
  "sat_int width lhs rhs exact to_max =
     (if is_signed_integer width then with_signed lhs rhs (\<lambda>l r.
        case (width_signed_min width, width_signed_max width) of
          (Some lo, Some hi) \<Rightarrow>
            let v = (case i128_checked (exact l r) of Some v \<Rightarrow> v
                     | None \<Rightarrow> if to_max l r then hi else lo);
                clamped = (if v > hi then hi else if v < lo then lo else v)
            in Ok (VInt (new_signed width clamped))
        | _ \<Rightarrow> Panicked)
      else with_unsigned lhs rhs (\<lambda>l r.
        case width_unsigned_max width of
          Some hi \<Rightarrow> Ok (VInt (new_unsigned width
            (min (u128_saturating (exact (uint l) (uint r))) hi)))
        | None \<Rightarrow> Panicked))"

definition sat_add_int :: "primitive \<Rightarrow> int_value \<Rightarrow> int_value \<Rightarrow> 'f comptime_value outcome" where
  "sat_add_int width lhs rhs = sat_int width lhs rhs (+) (\<lambda>l r. l \<ge> 0)"

definition sat_sub_int :: "primitive \<Rightarrow> int_value \<Rightarrow> int_value \<Rightarrow> 'f comptime_value outcome" where
  "sat_sub_int width lhs rhs = sat_int width lhs rhs (-) (\<lambda>l r. \<not> r > 0)"

definition sat_mul_int :: "primitive \<Rightarrow> int_value \<Rightarrow> int_value \<Rightarrow> 'f comptime_value outcome" where
  "sat_mul_int width lhs rhs = sat_int width lhs rhs (*) (\<lambda>l r. \<not> ((l < 0) \<noteq> (r < 0)))"

section \<open>Operator dispatch\<close>

definition checked2 :: "(int \<Rightarrow> int \<Rightarrow> int) \<Rightarrow> int \<Rightarrow> int \<Rightarrow> int option" where
  "checked2 f l r = i128_checked (f l r)"

definition uchecked2 :: "(int \<Rightarrow> int \<Rightarrow> int) \<Rightarrow> u128 \<Rightarrow> u128 \<Rightarrow> u128 option" where
  "uchecked2 f l r = u128_checked (f (uint l) (uint r))"

definition bool_value :: "bool outcome \<Rightarrow> 'f comptime_value outcome" where
  "bool_value b = (case b of Ok v \<Rightarrow> Ok (VBool v) | Error e \<Rightarrow> Error e | Panicked \<Rightarrow> Panicked)"

definition apply_binary_int :: "binop \<Rightarrow> int_value \<Rightarrow> int_value \<Rightarrow> 'f comptime_value outcome" where
  "apply_binary_int op lhs rhs =
     (if iv_width lhs \<noteq> iv_width rhs
      then Error (WidthMismatch (op_name op) (iv_width lhs, iv_width rhs))
      else let width = iv_width lhs
        in case op of
             Add \<Rightarrow> arith_int width lhs rhs ''+'' (checked2 (+)) (uchecked2 (+))
           | Sub \<Rightarrow> arith_int width lhs rhs ''-'' (checked2 (-)) (uchecked2 (-))
           | Mul \<Rightarrow> arith_int width lhs rhs ''*'' (checked2 (*)) (uchecked2 (*))
           | WrapAdd \<Rightarrow> Ok (make_int_value width (iv_bits lhs + iv_bits rhs))
           | WrapSub \<Rightarrow> Ok (make_int_value width (iv_bits lhs - iv_bits rhs))
           | WrapMul \<Rightarrow> Ok (make_int_value width (iv_bits lhs * iv_bits rhs))
           | SatAdd \<Rightarrow> sat_add_int width lhs rhs
           | SatSub \<Rightarrow> sat_sub_int width lhs rhs
           | SatMul \<Rightarrow> sat_mul_int width lhs rhs
           | CheckAdd \<Rightarrow> arith_int width lhs rhs ''+?'' (checked2 (+)) (uchecked2 (+))
           | CheckSub \<Rightarrow> arith_int width lhs rhs ''-?'' (checked2 (-)) (uchecked2 (-))
           | CheckMul \<Rightarrow> arith_int width lhs rhs ''*?'' (checked2 (*)) (uchecked2 (*))
           | CheckMod \<Rightarrow> rem_int width lhs rhs
           | Div \<Rightarrow> div_int width lhs rhs
           | Mod \<Rightarrow> rem_int width lhs rhs
           | Eq \<Rightarrow> Ok (VBool (iv_bits lhs = iv_bits rhs))
           | Ne \<Rightarrow> Ok (VBool (iv_bits lhs \<noteq> iv_bits rhs))
           | Lt \<Rightarrow> bool_value (cmp_int op lhs rhs)
           | Le \<Rightarrow> bool_value (cmp_int op lhs rhs)
           | Gt \<Rightarrow> bool_value (cmp_int op lhs rhs)
           | Ge \<Rightarrow> bool_value (cmp_int op lhs rhs)
           | BitAnd \<Rightarrow> Ok (make_int_value width (iv_bits lhs AND iv_bits rhs))
           | BitOr \<Rightarrow> Ok (make_int_value width (iv_bits lhs OR iv_bits rhs))
           | BitXor \<Rightarrow> Ok (make_int_value width (iv_bits lhs XOR iv_bits rhs))
           | Shl \<Rightarrow> shift_int width lhs rhs False
           | Shr \<Rightarrow> shift_int width lhs rhs True
           | And \<Rightarrow> Error (KindMismatch (op_name op) (''int'', ''int''))
           | Or \<Rightarrow> Error (KindMismatch (op_name op) (''int'', ''int'')))"

definition apply_binary_bool :: "binop \<Rightarrow> bool \<Rightarrow> bool \<Rightarrow> 'f comptime_value outcome" where
  "apply_binary_bool op l r =
     (case op of
        And \<Rightarrow> Ok (VBool (l \<and> r))
      | Or \<Rightarrow> Ok (VBool (l \<or> r))
      | Eq \<Rightarrow> Ok (VBool (l = r))
      | Ne \<Rightarrow> Ok (VBool (l \<noteq> r))
      | BitAnd \<Rightarrow> Ok (VBool (l \<and> r))
      | BitOr \<Rightarrow> Ok (VBool (l \<or> r))
      | BitXor \<Rightarrow> Ok (VBool (l \<noteq> r))
      | _ \<Rightarrow> Error (KindMismatch (op_name op) (''bool'', ''bool'')))"

section \<open>Casts\<close>

fun int_bits :: "primitive \<Rightarrow> nat" where
  "int_bits I8 = 8" | "int_bits U8 = 8"
| "int_bits I16 = 16" | "int_bits U16 = 16"
| "int_bits I32 = 32" | "int_bits U32 = 32"
| "int_bits I64 = 64" | "int_bits U64 = 64" | "int_bits Isize = 64" | "int_bits Usize = 64"
| "int_bits _ = 128"

definition raw_bits :: "int_value \<Rightarrow> u128" where
  "raw_bits iv =
     (case as_i128 iv of
        Some s \<Rightarrow> word_of_int s
      | None \<Rightarrow> (case as_u128 iv of Some u \<Rightarrow> u | None \<Rightarrow> 0))"

definition sign_mag :: "int_value \<Rightarrow> bool \<times> u128" where
  "sign_mag iv =
     (case as_i128 iv of
        Some s \<Rightarrow> if s < 0 then (True, word_of_int \<bar>s\<bar>) else (False, word_of_int s)
      | None \<Rightarrow> (False, case as_u128 iv of Some u \<Rightarrow> u | None \<Rightarrow> 0))"

text \<open>\<open>cmp_sm a b = Less\<close> and \<open>= Greater\<close> are the two outcomes the caller tests.\<close>

fun sm_less :: "bool \<times> u128 \<Rightarrow> bool \<times> u128 \<Rightarrow> bool" where
  "sm_less (True, a) (False, b) = True"
| "sm_less (False, a) (True, b) = False"
| "sm_less (False, a) (False, b) = (a < b)"
| "sm_less (True, a) (True, b) = (b < a)"

definition dst_bounds :: "primitive \<Rightarrow> (bool \<times> u128) \<times> (bool \<times> u128)" where
  "dst_bounds dst =
     (let bits = int_bits dst
      in if is_signed_integer dst
         then ((True, push_bit (bits - 1) 1), (False, push_bit (bits - 1) 1 - 1))
         else ((False, 0), (False, if bits \<ge> 128 then - 1 else push_bit bits 1 - 1)))"

definition sign_extend_to_i128 :: "u128 \<Rightarrow> nat \<Rightarrow> int" where
  "sign_extend_to_i128 masked width =
     (if width \<ge> 128 then sint masked
      else if masked AND push_bit (width - 1) 1 = 0 then sint masked
      else sint (masked OR push_bit width (- 1)))"

definition wrap_to :: "primitive \<Rightarrow> u128 \<Rightarrow> int_value" where
  "wrap_to dst raw =
     (let bits = int_bits dst;
          masked = (if bits \<ge> 128 then raw else raw AND (push_bit bits 1 - 1))
      in if is_signed_integer dst then new_signed dst (sign_extend_to_i128 masked bits)
         else new_unsigned dst masked)"

definition dst_bound :: "primitive \<Rightarrow> bool \<Rightarrow> int_value" where
  "dst_bound dst upper =
     (let bits = int_bits dst
      in if is_signed_integer dst
         then wrap_to dst (if upper then push_bit (bits - 1) 1 - 1 else push_bit (bits - 1) 1)
         else if upper then wrap_to dst (if bits \<ge> 128 then - 1 else push_bit bits 1 - 1)
         else wrap_to dst 0)"

text \<open>\<^const>\<open>None\<close> is the reported out-of-range cast.\<close>

definition cast_from_int ::
  "(int_value \<Rightarrow> primitive \<Rightarrow> 'f) \<Rightarrow> int_value \<Rightarrow> primitive \<Rightarrow> cast_mode \<Rightarrow> 'f comptime_value option" where
  "cast_from_int int_to_float iv dst mode =
     (if is_float dst then Some (VFloat (int_to_float iv dst))
      else let wrapped = wrap_to dst (raw_bits iv);
               sv = sign_mag iv;
               below = sm_less sv (fst (dst_bounds dst));
               above = sm_less (snd (dst_bounds dst)) sv
        in case mode of
             Wrapping \<Rightarrow> Some (VInt wrapped)
           | Saturating \<Rightarrow>
               if above then Some (VInt (dst_bound dst True))
               else if below then Some (VInt (dst_bound dst False))
               else Some (VInt wrapped)
           | _ \<Rightarrow> if below \<or> above then None else Some (VInt wrapped))"

end
