(* ===== verification/Comptime_Arith.thy ===== *)
theory Comptime_Arith
  imports Comptime_Int
begin

unbundle bit_operations_syntax

text \<open>
  Correctness of compile-time integer arithmetic against the mathematical integers: \<open>int_val\<close>
  is the number a well-formed value denotes, \<open>width_lo\<close> and \<open>width_hi\<close> the range of its width.
  Checked, wrapping, saturating, division, remainder, comparison and cast operations are
  characterised on every branch, with the inputs on which they disagree with their documentation.
\<close>

declare is_signed_integer.simps [simp del] is_unsigned_integer.simps [simp del]

lemmas prim_class = is_signed_integer.simps is_unsigned_integer.simps is_integer_def is_float_def

section \<open>What a value denotes\<close>

definition int_val :: "int_value \<Rightarrow> int" where
  "int_val v = (if is_signed_integer (iv_width v) then sign_extend (iv_bits v) (iv_width v)
                else uint (iv_bits v))"

definition wf_int :: "int_value \<Rightarrow> bool" where
  "wf_int v \<longleftrightarrow> is_integer (iv_width v) \<and>
     take_bit (width_bits_or_max (iv_width v)) (iv_bits v) = iv_bits v"

definition width_lo :: "primitive \<Rightarrow> int" where
  "width_lo p = (if is_signed_integer p then - (2 ^ (width_bits_or_max p - 1)) else 0)"

definition width_hi :: "primitive \<Rightarrow> int" where
  "width_hi p = (if is_signed_integer p then 2 ^ (width_bits_or_max p - 1) - 1
                 else 2 ^ width_bits_or_max p - 1)"

lemma width_bits_range: "0 < width_bits_or_max p" "width_bits_or_max p \<le> 128"
  by (cases p; simp)+

lemma width_mask_eq: "width_mask p = mask (width_bits_or_max p)"
proof (cases "width_bits_or_max p \<ge> 128")
  case True
  then have "width_bits_or_max p = LENGTH(128)" using width_bits_range(2) [of p] by simp
  then show ?thesis by (simp add: width_mask_def mask_eq_exp_minus_1)
next
  case False
  then show ?thesis by (simp add: width_mask_def mask_eq_exp_minus_1)
qed

lemma and_mask_take [simp]: "b AND width_mask p = take_bit (width_bits_or_max p) b" for b :: u128
  by (simp add: width_mask_eq take_bit_eq_mask)

lemma new_signed_simps [simp]:
  "iv_width (new_signed p v) = p"
  "iv_bits (new_signed p v) = take_bit (width_bits_or_max p) (word_of_int v)"
  by (simp_all add: new_signed_def)

lemma new_unsigned_simps [simp]:
  "iv_width (new_unsigned p u) = p"
  "iv_bits (new_unsigned p u) = take_bit (width_bits_or_max p) u"
  by (simp_all add: new_unsigned_def)

lemma and_bit_zero_iff: "b AND push_bit w 1 = 0 \<longleftrightarrow> \<not> bit b w" for b :: u128
  by (simp only: bit_iff_and_push_bit_not_eq_0) simp

lemma sign_extend_word:
  fixes b :: u128
  assumes "0 < w" "w \<le> 128" "take_bit w b = b"
  shows "(if w \<ge> 128 then sint b else if b AND push_bit (w - 1) 1 = 0 then sint b
      else sint (b OR push_bit w (- 1))) = signed_take_bit (w - 1) (uint b)" (is "?l = _")
proof -
  have high: "bit b n \<Longrightarrow> n < w" for n
    using assms(3) by (metis bit_take_bit_iff)
  show ?thesis
  proof (cases "w \<ge> 128")
    case True
    with assms show ?thesis by (simp add: sint_uint)
  next
    case w: False
    have top: "\<not> bit b m" if "w \<le> m" for m using high [of m] that by auto
    have r: "bit (signed_take_bit (w - 1) (uint b)) n = (if n < w then bit b n else bit b (w - 1))" for n
    proof (cases "n < w")
      case True
      then have "min (w - 1) n = n" by simp
      with True w show ?thesis by (simp add: bit_signed_take_bit_iff bit_uint_iff)
    next
      case False
      then have "min (w - 1) n = w - 1" by simp
      moreover have "w - 1 < 128" using w by simp
      ultimately show ?thesis using False by (simp add: bit_signed_take_bit_iff bit_uint_iff)
    qed
    have "bit ?l n = bit (signed_take_bit (w - 1) (uint b)) n" for n
    proof (cases "bit b (w - 1)")
      case True
      have b: "bit (b OR push_bit w (- 1)) m = (bit b m \<or> w \<le> m \<and> m < 128)" for m
        by (auto simp: bit_or_iff bit_not_iff bit_mask_iff bit_imp_le_length)
      have "?l = sint (b OR push_bit w (- 1))"
        using w True by (simp only: and_bit_zero_iff) simp
      then have "bit ?l n = (n < w \<and> bit b n \<or> w \<le> n)"
        using w top [of n] by (simp add: bit_sint_iff b del: push_bit_minus_one_eq_not_mask) linarith
      then show ?thesis
        using True by (simp only: r) auto
    next
      case False
      then have "?l = sint b" using w by (simp only: and_bit_zero_iff) simp
      then have "bit ?l n = (n < w \<and> bit b n)"
        using w top [of 127] high [of n] by (auto simp: bit_sint_iff)
      then show ?thesis
        using False by (simp only: r) auto
    qed
    then show ?thesis by (rule bit_eqI)
  qed
qed

lemma sign_extend_eq:
  "take_bit (width_bits_or_max p) b = b \<Longrightarrow>
     sign_extend b p = signed_take_bit (width_bits_or_max p - 1) (uint b)"
  unfolding sign_extend_def Let_def by (rule sign_extend_word [OF width_bits_range])

lemma signed_take_bit_uint:
  assumes "0 < w" "w \<le> 128"
  shows "signed_take_bit (w - 1) (uint (take_bit w (word_of_int v :: u128))) = signed_take_bit (w - 1) v"
proof -
  have "uint (take_bit w (word_of_int v :: u128)) = take_bit w v"
    using assms by (simp add: unsigned_take_bit_eq unsigned_of_int min_def)
  moreover have "\<not> w \<le> w - 1" using assms(1) by linarith
  ultimately show ?thesis by (simp add: signed_take_bit_take_bit)
qed

lemma int_val_new_signed:
  "is_signed_integer p \<Longrightarrow> int_val (new_signed p v) = signed_take_bit (width_bits_or_max p - 1) v"
  using signed_take_bit_uint [OF width_bits_range, of p v] by (simp add: int_val_def sign_extend_eq)

lemma int_val_new_unsigned:
  "\<not> is_signed_integer p \<Longrightarrow> int_val (new_unsigned p u) = take_bit (width_bits_or_max p) (uint u)"
  by (simp add: int_val_def unsigned_take_bit_eq)

lemma as_i128_signed: "is_signed_integer (iv_width v) \<Longrightarrow> as_i128 v = Some (int_val v)"
  by (simp add: as_i128_def int_val_def)

lemma as_u128_unsigned: "is_unsigned_integer (iv_width v) \<Longrightarrow> as_u128 v = Some (iv_bits v)"
  by (simp add: as_u128_def)

lemma signedness: "is_integer p \<Longrightarrow> is_unsigned_integer p \<longleftrightarrow> \<not> is_signed_integer p"
  by (cases p) (auto simp: prim_class)

lemma new_wf [wf_intros]:
  "is_integer p \<Longrightarrow> wf_int (new_signed p v)" "is_integer p \<Longrightarrow> wf_int (new_unsigned p u)"
  by (simp_all add: wf_int_def)

lemma int_val_range:
  assumes "wf_int v"
  shows "width_lo (iv_width v) \<le> int_val v" "int_val v \<le> width_hi (iv_width v)"
proof -
  let ?w = "width_bits_or_max (iv_width v)"
  have t: "take_bit ?w (iv_bits v) = iv_bits v" using assms by (simp add: wf_int_def)
  have "- (2 ^ (?w - 1)) \<le> signed_take_bit (?w - 1) (uint (iv_bits v)) \<and>
      signed_take_bit (?w - 1) (uint (iv_bits v)) < 2 ^ (?w - 1)"
    by (simp add: signed_take_bit_int_greater_eq_minus_exp signed_take_bit_int_less_exp)
  moreover have "uint (iv_bits v) < 2 ^ ?w"
    using t by (metis take_bit_int_less_exp unsigned_take_bit_eq)
  ultimately show "width_lo (iv_width v) \<le> int_val v" "int_val v \<le> width_hi (iv_width v)"
    using t by (auto simp: int_val_def width_lo_def width_hi_def sign_extend_eq)
qed

lemma signed_fits_iff:
  assumes "is_signed_integer p"
  shows "int_val (new_signed p v) = v \<longleftrightarrow> width_lo p \<le> v \<and> v \<le> width_hi p"
proof -
  have "width_bits_or_max p = Suc (width_bits_or_max p - 1)" using width_bits_range(1) [of p] by simp
  with assms show ?thesis
    by (auto simp: int_val_new_signed signed_take_bit_int_eq_self_iff width_lo_def width_hi_def)
qed

lemma unsigned_fits_iff:
  assumes "\<not> is_signed_integer p"
  shows "int_val (new_unsigned p u) = uint u \<longleftrightarrow> width_lo p \<le> uint u \<and> uint u \<le> width_hi p"
  using assms by (auto simp: int_val_new_unsigned take_bit_int_eq_self_iff width_lo_def width_hi_def)

lemma width_range_128:
  "is_signed_integer p \<Longrightarrow> - (2 ^ 127) \<le> width_lo p" "is_signed_integer p \<Longrightarrow> width_hi p < 2 ^ 127"
  "\<not> is_signed_integer p \<Longrightarrow> width_hi p < 2 ^ 128"
  by (cases p; simp add: width_lo_def width_hi_def prim_class)+

section \<open>Checked arithmetic\<close>

lemma wf_signed_cases:
  assumes "wf_int l" "iv_width r = iv_width l"
  obtains (signed) "is_signed_integer (iv_width l)" "as_i128 l = Some (int_val l)" "as_i128 r = Some (int_val r)"
  | (unsigned) "\<not> is_signed_integer (iv_width l)" "as_u128 l = Some (iv_bits l)" "as_u128 r = Some (iv_bits r)"
      "int_val l = uint (iv_bits l)" "int_val r = uint (iv_bits r)"
  using assms signedness [of "iv_width l"]
  by (cases "is_signed_integer (iv_width l)")
    (auto simp: as_i128_signed as_u128_unsigned wf_int_def int_val_def)

text \<open>The outcome the language promises for checked arithmetic: the exact result when the width
  can hold it, the overflow error otherwise.\<close>

definition checked_outcome :: "string \<Rightarrow> primitive \<Rightarrow> int \<Rightarrow> 'f comptime_value outcome \<Rightarrow> bool" where
  "checked_outcome op p exact out \<longleftrightarrow>
     (if width_lo p \<le> exact \<and> exact \<le> width_hi p
      then \<exists>v. out = Ok (VInt v) \<and> wf_int v \<and> iv_width v = p \<and> int_val v = exact
      else out = Error (Overflow op p))"

lemma arith_int_exact:
  assumes wf: "wf_int l" "wf_int r" "iv_width r = iv_width l"
  shows "checked_outcome op (iv_width l) (f (int_val l) (int_val r))
    (arith_int (iv_width l) l r op (checked2 f) (uchecked2 f))"
  using wf(1,3)
proof (cases rule: wf_signed_cases)
  case signed
  let ?p = "iv_width l" and ?v = "f (int_val l) (int_val r)"
  have i: "is_integer ?p" using wf by (simp add: wf_int_def)
  have out: "arith_int ?p l r op (checked2 f) (uchecked2 f) =
      (case i128_checked ?v of None \<Rightarrow> Error (Overflow op ?p)
       | Some v \<Rightarrow> if int_val (new_signed ?p v) \<noteq> v then Error (Overflow op ?p) else Ok (VInt (new_signed ?p v)))"
    using signed by (simp add: arith_int_def with_signed_def checked2_def Let_def as_i128_signed
        split: option.split)
  show ?thesis
    unfolding checked_outcome_def out
    using width_range_128(1,2) [OF signed(1)] signed_fits_iff [OF signed(1)] i
    by (auto simp: i128_checked_def new_wf)
next
  case unsigned
  let ?p = "iv_width l" and ?v = "f (int_val l) (int_val r)"
  have i: "is_integer ?p" using wf by (simp add: wf_int_def)
  then have u: "is_unsigned_integer ?p" using signedness unsigned(1) by simp
  have bits: "iv_bits (new_unsigned ?p w) = w \<longleftrightarrow> int_val (new_unsigned ?p w) = uint w" for w
    using unsigned(1) by (simp add: int_val_def flip: word_uint_eq_iff)
  have out: "arith_int ?p l r op (checked2 f) (uchecked2 f) =
      (case u128_checked ?v of None \<Rightarrow> Error (Overflow op ?p)
       | Some w \<Rightarrow> if int_val (new_unsigned ?p w) \<noteq> uint w then Error (Overflow op ?p)
                   else Ok (VInt (new_unsigned ?p w)))"
    using unsigned u by (simp add: arith_int_def with_unsigned_def uchecked2_def Let_def as_u128_unsigned
        bits del: new_unsigned_simps(2) split: option.split)
  have lo: "width_lo ?p = 0" using unsigned(1) by (simp add: width_lo_def)
  have w: "0 \<le> ?v \<Longrightarrow> ?v < 2 ^ 128 \<Longrightarrow> uint (word_of_int ?v :: u128) = ?v"
    by (simp add: unsigned_of_int take_bit_int_eq_self)
  show ?thesis
    unfolding checked_outcome_def out
    using width_range_128(3) [OF unsigned(1)] unsigned_fits_iff [OF unsigned(1), of "word_of_int ?v"] i lo w
    by (auto simp: u128_checked_def new_wf)
qed


lemma int_val_small:
  "is_signed_integer p \<Longrightarrow> width_lo p \<le> n \<Longrightarrow> n \<le> width_hi p \<Longrightarrow> int_val (new_signed p n) = n"
  by (simp add: signed_fits_iff)


section \<open>Wrapping arithmetic\<close>

lemma take_bit_int_val:
  assumes "wf_int v"
  shows "take_bit (width_bits_or_max (iv_width v)) (int_val v) = uint (iv_bits v)"
proof -
  let ?w = "width_bits_or_max (iv_width v)"
  have t: "take_bit ?w (iv_bits v) = iv_bits v" using assms by (simp add: wf_int_def)
  then have u: "take_bit ?w (uint (iv_bits v)) = uint (iv_bits v)"
    by (metis unsigned_take_bit_eq)
  have "?w - 1 < ?w" using width_bits_range(1) [of "iv_width v"] by simp
  then show ?thesis
    using t u by (simp add: int_val_def sign_extend_eq take_bit_signed_take_bit)
qed

lemma make_int_value_cong:
  assumes "is_integer p"
  shows "\<exists>v. make_int_value p b = VInt v \<and> wf_int v \<and> iv_width v = p \<and>
    take_bit (width_bits_or_max p) (int_val v) = take_bit (width_bits_or_max p) (uint b)"
proof (cases "is_signed_integer p")
  case True
  have "width_bits_or_max p \<le> LENGTH(128)" using width_bits_range(2) by simp
  then have "uint (take_bit (width_bits_or_max p) (word_of_int (sint b) :: u128)) =
      take_bit (width_bits_or_max p) (uint b)"
    by (simp add: unsigned_take_bit_eq)
  with True assms show ?thesis
    using take_bit_int_val [OF new_wf(1) [OF assms], of "sint b"]
    by (auto simp: make_int_value_def new_wf)
next
  case False
  with assms show ?thesis
    using take_bit_int_val [OF new_wf(2) [OF assms], of b]
    by (auto simp: make_int_value_def new_wf unsigned_take_bit_eq)
qed

definition wrapped_outcome :: "primitive \<Rightarrow> int \<Rightarrow> 'f comptime_value outcome \<Rightarrow> bool" where
  "wrapped_outcome p exact out \<longleftrightarrow>
     (\<exists>v. out = Ok (VInt v) \<and> wf_int v \<and> iv_width v = p \<and>
        width_lo p \<le> int_val v \<and> int_val v \<le> width_hi p \<and>
        int_val v mod 2 ^ width_bits_or_max p = exact mod 2 ^ width_bits_or_max p)"

lemma wrapped_outcomeI:
  assumes "is_integer p" "take_bit (width_bits_or_max p) (uint b) = take_bit (width_bits_or_max p) exact"
  shows "wrapped_outcome p exact (Ok (make_int_value p b))"
  using make_int_value_cong [OF assms(1), of b] assms(2) int_val_range
  unfolding wrapped_outcome_def take_bit_eq_mod by fastforce

lemma uint_wrap:
  fixes a b :: u128
  assumes "w \<le> 128"
  shows "take_bit w (uint (a + b)) = take_bit w (uint a + uint b)"
    "take_bit w (uint (a - b)) = take_bit w (uint a - uint b)"
    "take_bit w (uint (a * b)) = take_bit w (uint a * uint b)"
  using assms by (simp_all add: uint_word_arith_bintrs min_def)

lemma take_bit_operand:
  "wf_int v \<Longrightarrow> iv_width v = p \<Longrightarrow>
     take_bit (width_bits_or_max p) (uint (iv_bits v)) = take_bit (width_bits_or_max p) (int_val v)"
  using take_bit_int_val [of v] by (simp flip: take_bit_int_val)



section \<open>Saturating arithmetic\<close>

text \<open>The range the language gives a width; \<open>isize\<close> and \<open>usize\<close> have 64 bits.\<close>

definition lang_lo :: "primitive \<Rightarrow> int" where
  "lang_lo p = (if is_signed_integer p then - (2 ^ (int_bits p - 1)) else 0)"

definition lang_hi :: "primitive \<Rightarrow> int" where
  "lang_hi p = (if is_signed_integer p then 2 ^ (int_bits p - 1) - 1 else 2 ^ int_bits p - 1)"

lemma lang_range_width:
  "is_integer p \<Longrightarrow> width_lo p \<le> lang_lo p" "is_integer p \<Longrightarrow> lang_hi p \<le> width_hi p"
  "is_integer p \<Longrightarrow> lang_lo p \<le> 0" "is_integer p \<Longrightarrow> 0 \<le> lang_hi p"
  by (cases p; simp add: lang_lo_def lang_hi_def width_lo_def width_hi_def prim_class)+

lemma width_signed_bounds:
  "is_signed_integer p \<Longrightarrow> width_signed_min p = Some (lang_lo p) \<and> width_signed_max p = Some (lang_hi p)"
  by (cases p) (simp_all add: lang_lo_def lang_hi_def prim_class)

lemma width_unsigned_bound:
  "is_unsigned_integer p \<Longrightarrow> \<exists>h. width_unsigned_max p = Some h \<and> uint h = lang_hi p"
  by (cases p) (simp_all add: lang_hi_def prim_class unsigned_minus_1_eq_mask mask_eq_exp_minus_1)

definition clamp :: "int \<Rightarrow> int \<Rightarrow> int \<Rightarrow> int" where
  "clamp lo hi v = max lo (min hi v)"

definition sat_outcome :: "primitive \<Rightarrow> int \<Rightarrow> 'f comptime_value outcome \<Rightarrow> bool" where
  "sat_outcome p exact out \<longleftrightarrow>
     (\<exists>v. out = Ok (VInt v) \<and> wf_int v \<and> iv_width v = p \<and> int_val v = clamp (lang_lo p) (lang_hi p) exact)"

lemma uint_saturating: "uint (u128_saturating v) = clamp 0 (2 ^ 128 - 1) v"
  by (auto simp: u128_saturating_def clamp_def unsigned_of_int take_bit_int_eq_self unsigned_minus_1_eq_mask mask_eq_exp_minus_1)

lemma sat_int_exact:
  assumes wf: "wf_int l" "wf_int r" "iv_width r = iv_width l"
    and dir: "is_signed_integer (iv_width l) \<Longrightarrow> f (int_val l) (int_val r) \<ge> 2 ^ 127 \<Longrightarrow> to_max (int_val l) (int_val r)"
      "is_signed_integer (iv_width l) \<Longrightarrow> f (int_val l) (int_val r) < - (2 ^ 127) \<Longrightarrow> \<not> to_max (int_val l) (int_val r)"
  shows "sat_outcome (iv_width l) (f (int_val l) (int_val r)) (sat_int (iv_width l) l r f to_max)"
  using wf(1,3)
proof (cases rule: wf_signed_cases)
  case signed
  let ?p = "iv_width l" and ?v = "f (int_val l) (int_val r)"
  have i: "is_integer ?p" using wf by (simp add: wf_int_def)
  define v where "v = (case i128_checked ?v of Some v \<Rightarrow> v
    | None \<Rightarrow> if to_max (int_val l) (int_val r) then lang_hi ?p else lang_lo ?p)"
  define c where "c = (if v > lang_hi ?p then lang_hi ?p else if v < lang_lo ?p then lang_lo ?p else v)"
  have out: "sat_int ?p l r f to_max = Ok (VInt (new_signed ?p c))"
    using signed width_signed_bounds [OF signed(1)]
    by (simp add: sat_int_def with_signed_def Let_def c_def v_def)
  have "lang_hi ?p < 2 ^ 127" "- (2 ^ 127) \<le> lang_lo ?p"
    using lang_range_width(1,2) [OF i] width_range_128(1,2) [OF signed(1)] by simp_all
  moreover have "lang_lo ?p \<le> lang_hi ?p" using lang_range_width(3,4) [OF i] by simp
  ultimately have c: "c = clamp (lang_lo ?p) (lang_hi ?p) ?v"
    using dir signed(1) by (auto simp: c_def v_def clamp_def i128_checked_def)
  then have "width_lo ?p \<le> c" "c \<le> width_hi ?p"
    using lang_range_width [OF i] by (auto simp: clamp_def)
  with c i signed show ?thesis
    unfolding sat_outcome_def out by (auto simp: int_val_small new_wf)
next
  case unsigned
  let ?p = "iv_width l" and ?v = "f (int_val l) (int_val r)"
  have i: "is_integer ?p" using wf by (simp add: wf_int_def)
  then have u: "is_unsigned_integer ?p" using signedness unsigned(1) by simp
  obtain h where h: "width_unsigned_max ?p = Some h" "uint h = lang_hi ?p"
    using width_unsigned_bound [OF u] by blast
  let ?m = "min (u128_saturating ?v) h"
  have out: "sat_int ?p l r f to_max = Ok (VInt (new_unsigned ?p ?m))"
    using unsigned h by (simp add: sat_int_def with_unsigned_def)
  have lo: "lang_lo ?p = 0" "width_lo ?p = 0" using unsigned(1) by (simp_all add: lang_lo_def width_lo_def)
  have "lang_hi ?p \<le> 2 ^ 128 - 1" using lang_range_width(2) [OF i] width_range_128(3) [OF unsigned(1)] by simp
  then have m: "uint ?m = clamp (lang_lo ?p) (lang_hi ?p) ?v"
    using uint_saturating [of ?v] h lo lang_range_width(4) [OF i] by (auto simp: min_def clamp_def word_le_def max_def split: if_splits)
  moreover have "uint ?m \<le> width_hi ?p"
    using m lang_range_width [OF i] lo by (auto simp: clamp_def)
  ultimately have "int_val (new_unsigned ?p ?m) = clamp (lang_lo ?p) (lang_hi ?p) ?v"
    using unsigned_fits_iff [OF unsigned(1), of ?m] lo by (simp add: clamp_def)
  with i show ?thesis unfolding sat_outcome_def out by (auto simp: new_wf)
qed

text \<open>C16: Saturating arithmetic clamps the exact result: \<open>+|\<close>, \<open>-|\<close> and \<open>*|\<close> always succeed with the
  exact result clamped to the range of the width (64 bits for \<open>isize\<close> and \<open>usize\<close>), also when
  the 128-bit operation itself overflows.\<close>

theorem saturating_arith_exact:
  assumes "wf_int l" "wf_int r" "iv_width r = iv_width l"
  shows "sat_outcome (iv_width l) (int_val l + int_val r) (apply_binary_int SatAdd l r :: 'f comptime_value outcome) \<and>
    sat_outcome (iv_width l) (int_val l - int_val r) (apply_binary_int SatSub l r :: 'f comptime_value outcome) \<and>
    sat_outcome (iv_width l) (int_val l * int_val r) (apply_binary_int SatMul l r :: 'f comptime_value outcome)"
proof -
  have range: "- (2 ^ 127) \<le> int_val v \<and> int_val v < 2 ^ 127"
    if "is_signed_integer (iv_width l)" "wf_int v" "iv_width v = iv_width l" for v
    using int_val_range [OF that(2)] that(3) width_range_128(1,2) [OF that(1)] by simp
  have same: "\<not> ((x < 0) \<noteq> (y < 0))" if "2 ^ 127 \<le> x * y" for x y :: int
  proof -
    have "0 < x * y" using that by simp
    then show ?thesis by (auto simp: zero_less_mult_iff)
  qed
  have differ: "(x < 0) \<noteq> (y < 0)" if "x * y < - (2 ^ 127)" for x y :: int
  proof -
    have "x * y < 0" using that by simp
    then show ?thesis by (auto simp: mult_less_0_iff)
  qed
  have "sat_outcome (iv_width l) (int_val l + int_val r) (sat_add_int (iv_width l) l r :: 'f comptime_value outcome)"
    unfolding sat_add_int_def by (rule sat_int_exact [OF assms]) (use range [of r] assms in auto)
  moreover have "sat_outcome (iv_width l) (int_val l - int_val r) (sat_sub_int (iv_width l) l r :: 'f comptime_value outcome)"
    unfolding sat_sub_int_def by (rule sat_int_exact [OF assms]) (use range [of l] assms in auto)
  moreover have "sat_outcome (iv_width l) (int_val l * int_val r) (sat_mul_int (iv_width l) l r :: 'f comptime_value outcome)"
    unfolding sat_mul_int_def
    using same [of "int_val l" "int_val r"] differ [of "int_val l" "int_val r"]
    by (intro sat_int_exact [OF assms]) blast+
  ultimately show ?thesis
    using assms(3) by (simp add: apply_binary_int_def Let_def)
qed

theorem saturating_arith_exact_witness:
  "sat_outcome I8 (- 100 - 100) (apply_binary_int SatSub (new_signed I8 (- 100)) (new_signed I8 100) :: unit comptime_value outcome)"
proof -
  have v: "int_val (new_signed I8 n) = n" if "- 128 \<le> n" "n \<le> 127" for n
    using that by (intro int_val_small) (simp_all add: prim_class width_lo_def width_hi_def)
  show ?thesis
    using saturating_arith_exact [of "new_signed I8 (- 100)" "new_signed I8 100", where 'f = unit] v [of "- 100"] v [of 100]
    by (simp add: new_wf prim_class)
qed

section \<open>Comparison, division and remainder\<close>

lemma int_val_inj:
  assumes "wf_int l" "wf_int r" "iv_width r = iv_width l"
  shows "iv_bits l = iv_bits r \<longleftrightarrow> int_val l = int_val r"
proof
  assume "int_val l = int_val r"
  with take_bit_int_val [OF assms(1)] take_bit_int_val [OF assms(2)] assms(3)
  show "iv_bits l = iv_bits r" by (simp add: word_uint_eq_iff)
qed (simp add: int_val_def assms(3))

text \<open>Comparisons decide the mathematical order: on well-formed operands of one width the
  six comparison operators return the truth value of the comparison of the numbers denoted.\<close>

theorem comparison_exact:
  assumes "wf_int l" "wf_int r" "iv_width r = iv_width l"
  shows "(apply_binary_int Eq l r :: 'f comptime_value outcome) = Ok (VBool (int_val l = int_val r)) \<and>
    (apply_binary_int Ne l r :: 'f comptime_value outcome) = Ok (VBool (int_val l \<noteq> int_val r)) \<and>
    (apply_binary_int Lt l r :: 'f comptime_value outcome) = Ok (VBool (int_val l < int_val r)) \<and>
    (apply_binary_int Le l r :: 'f comptime_value outcome) = Ok (VBool (int_val l \<le> int_val r)) \<and>
    (apply_binary_int Gt l r :: 'f comptime_value outcome) = Ok (VBool (int_val l > int_val r)) \<and>
    (apply_binary_int Ge l r :: 'f comptime_value outcome) = Ok (VBool (int_val l \<ge> int_val r))"
proof -
  have "cmp_int op l r = cmp_op op (int_val l) (int_val r)" for op
    using assms(1,3)
  proof (cases rule: wf_signed_cases)
    case signed
    then show ?thesis by (simp add: cmp_int_def with_signed_def)
  next
    case unsigned
    then show ?thesis
      by (cases op) (simp_all add: cmp_int_def with_unsigned_def word_less_def word_le_def)
  qed
  then show ?thesis
    using assms(3) int_val_inj [OF assms] by (simp add: apply_binary_int_def Let_def bool_value_def)
qed

theorem comparison_exact_witness:
  "apply_binary_int Lt (new_signed I8 (- 1)) (new_signed I8 1) = Ok (VBool True :: unit comptime_value)"
proof -
  have v: "int_val (new_signed I8 n) = n" if "- 128 \<le> n" "n \<le> 127" for n
    using that by (intro int_val_small) (simp_all add: prim_class width_lo_def width_hi_def)
  show ?thesis
    using comparison_exact [of "new_signed I8 (- 1)" "new_signed I8 1", where 'f = unit] v [of "- 1"] v [of 1]
    by (simp add: new_wf prim_class)
qed

lemma smod_euclid:
  fixes l r :: int
  assumes "r \<noteq> 0"
  shows "(if l smod r < 0 then l smod r + \<bar>r\<bar> else l smod r) = l mod \<bar>r\<bar>"
proof (cases "l \<ge> 0")
  case True
  then have "l smod r = l mod \<bar>r\<bar>" by (cases "l = 0") (simp_all add: smod_int_alt_def)
  with assms show ?thesis by (simp add: not_less)
next
  case False
  then have "l smod r = - ((- l) mod \<bar>r\<bar>)" by (simp add: smod_int_alt_def)
  moreover have "0 \<le> (- l) mod \<bar>r\<bar>" using assms by simp
  moreover have "l mod \<bar>r\<bar> = (if (- l) mod \<bar>r\<bar> = 0 then 0 else \<bar>r\<bar> - (- l) mod \<bar>r\<bar>)"
    using zmod_zminus1_eq_if [of "- l" "\<bar>r\<bar>"] by simp
  ultimately show ?thesis by auto
qed

lemma i128_wrap_id: "- (2 ^ 127) \<le> v \<Longrightarrow> v < 2 ^ 127 \<Longrightarrow> i128_wrap v = v"
  by (simp add: i128_wrap_def signed_take_bit_int_eq_self_iff)

lemma i128_wrap_add: "i128_wrap (a + i128_wrap b) = i128_wrap (a + b)"
  unfolding i128_wrap_def
  by (metis signed_take_bit_add signed_take_bit_signed_take_bit min.idem)

definition exact_outcome :: "primitive \<Rightarrow> int \<Rightarrow> 'f comptime_value outcome \<Rightarrow> bool" where
  "exact_outcome p n out \<longleftrightarrow>
     (\<exists>v. out = Ok (VInt v) \<and> wf_int v \<and> iv_width v = p \<and> int_val v = n)"

lemma exact_signed:
  "is_signed_integer p \<Longrightarrow> width_lo p \<le> n \<Longrightarrow> n \<le> width_hi p \<Longrightarrow>
     exact_outcome p n (Ok (VInt (new_signed p n)))"
  by (auto simp: exact_outcome_def int_val_small new_wf is_integer_def)

lemma exact_unsigned:
  "is_unsigned_integer p \<Longrightarrow> uint u = n \<Longrightarrow> n \<le> width_hi p \<Longrightarrow>
     exact_outcome p n (Ok (VInt (new_unsigned p u)))"
  using signed_xor_unsigned [of p] unsigned_fits_iff [of p u]
  by (auto simp: exact_outcome_def new_wf is_integer_def width_lo_def)

lemma signed_division:
  assumes p: "is_signed_integer p" and l: "width_lo p \<le> l" "l \<le> width_hi p"
    and r: "width_lo p \<le> r" "r \<le> width_hi p" "r \<noteq> 0"
  shows "width_lo p \<le> l mod \<bar>r\<bar>" "l mod \<bar>r\<bar> \<le> width_hi p"
    "(if l smod r < 0 then i128_wrap (l smod r + i128_wrap \<bar>r\<bar>) else l smod r) = l mod \<bar>r\<bar>"
proof -
  have "width_lo p = - (width_hi p + 1)" using p by (simp add: width_lo_def width_hi_def)
  with r have "\<bar>r\<bar> \<le> width_hi p + 1" by linarith
  moreover have "l mod \<bar>r\<bar> < \<bar>r\<bar>" using r(3) by simp
  moreover have "0 \<le> l mod \<bar>r\<bar>" using r(3) by simp
  moreover have "width_lo p \<le> 0" by (simp add: width_lo_def)
  ultimately show m: "width_lo p \<le> l mod \<bar>r\<bar>" "l mod \<bar>r\<bar> \<le> width_hi p" by linarith+
  with width_range_128(1,2) [OF p] have "i128_wrap (l mod \<bar>r\<bar>) = l mod \<bar>r\<bar>"
    by (intro i128_wrap_id) simp_all
  with smod_euclid [OF r(3), of l]
  show "(if l smod r < 0 then i128_wrap (l smod r + i128_wrap \<bar>r\<bar>) else l smod r) = l mod \<bar>r\<bar>"
    unfolding i128_wrap_add by (metis)
qed


lemma i8_val: "- 128 \<le> n \<Longrightarrow> n \<le> 127 \<Longrightarrow> int_val (new_signed I8 n) = n"
  by (intro int_val_small) (simp_all add: prim_class width_lo_def width_hi_def)


text \<open>C30: The one quotient that does not fit: dividing the minimum of a signed width narrower
  than 128 bits by \<open>-1\<close> returns that minimum again instead of the overflow error the other
  checked operators give, and its remainder is \<open>0\<close> without an error; at 128 bits the division is
  an overflow error and the remainder panics.\<close>

theorem division_min_by_minus_one:
  assumes "wf_int l" "wf_int r" "iv_width r = iv_width l" "is_signed_integer (iv_width l)"
    and "int_val l = width_lo (iv_width l)" "int_val r = - 1"
  shows "if width_bits_or_max (iv_width l) < 128
    then exact_outcome (iv_width l) (width_lo (iv_width l)) (apply_binary_int Div l r :: 'f comptime_value outcome) \<and>
      exact_outcome (iv_width l) 0 (apply_binary_int Mod l r :: 'f comptime_value outcome)
    else (apply_binary_int Div l r :: 'f comptime_value outcome) = Error (Overflow ''/'' (iv_width l)) \<and>
      (apply_binary_int Mod l r :: 'f comptime_value outcome) = Panicked"
proof -
  let ?p = "iv_width l"
  have i: "as_i128 l = Some (width_lo ?p)" "as_i128 r = Some (- 1)"
    using as_i128_signed [of l] as_i128_signed [of r] assms by simp_all
  have "int_val (new_signed ?p (- width_lo ?p)) = width_lo ?p"
    using assms(4) by (cases ?p) (simp_all add: int_val_new_signed width_lo_def prim_class)
  moreover have "width_bits_or_max ?p < 128 \<longleftrightarrow> - width_lo ?p < 2 ^ 127" "- (2 ^ 127) \<le> - width_lo ?p"
    using assms(4) by (cases ?p; simp add: width_lo_def prim_class)+
  moreover have "int_val (new_signed ?p 0) = 0"
    using assms(4) by (simp add: int_val_new_signed)
  ultimately show ?thesis
    using assms(3,4) i
    by (auto simp: apply_binary_int_def Let_def div_int_def rem_int_def with_signed_def i128_checked_def
        exact_outcome_def new_wf is_integer_def smod_int_alt_def)
qed

theorem division_min_by_minus_one_witness:
  "exact_outcome I8 (- 128) (apply_binary_int Div (new_signed I8 (- 128)) (new_signed I8 (- 1)) :: unit comptime_value outcome)"
  using division_min_by_minus_one [of "new_signed I8 (- 128)" "new_signed I8 (- 1)", where 'f = unit]
    i8_val [of "- 128"] i8_val [of "- 1"]
  by (simp add: new_wf prim_class width_lo_def)

text \<open>Pointer-sized integers overflow late: \<open>usize\<close> arithmetic is checked against 128 bits,
  so adding one to the largest 64-bit value succeeds, while saturation and casts to \<open>usize\<close>
  treat the same sum as out of range.\<close>

theorem usize_checked_against_128_bits:
  "exact_outcome Usize (2 ^ 64)
     (apply_binary_int Add (new_unsigned Usize (2 ^ 64 - 1)) (new_unsigned Usize 1) :: 'f comptime_value outcome) \<and>
   sat_outcome Usize (2 ^ 64)
     (apply_binary_int SatAdd (new_unsigned Usize (2 ^ 64 - 1)) (new_unsigned Usize 1) :: 'f comptime_value outcome) \<and>
   clamp (lang_lo Usize) (lang_hi Usize) (2 ^ 64) = 2 ^ 64 - 1"
proof -
  let ?l = "new_unsigned Usize (2 ^ 64 - 1)" and ?r = "new_unsigned Usize 1"
  have wf: "wf_int ?l" "wf_int ?r" "iv_width ?r = iv_width ?l" by (simp_all add: new_wf prim_class)
  have v: "int_val ?l = 2 ^ 64 - 1" "int_val ?r = 1"
    by (simp_all add: int_val_new_unsigned prim_class take_bit_int_eq_self)
  have "checked_outcome ''+'' Usize (2 ^ 64) (apply_binary_int Add ?l ?r :: 'f comptime_value outcome)"
    using arith_int_exact [OF wf, where f = "(+)"] v by (simp add: apply_binary_int_def Let_def)
  moreover have "sat_outcome Usize (2 ^ 64) (sat_add_int Usize ?l ?r :: 'f comptime_value outcome)"
    using sat_int_exact [OF wf, where f = "(+)" and to_max = "\<lambda>l r. l \<ge> 0"] v
    by (simp add: sat_add_int_def prim_class)
  ultimately show ?thesis
    by (simp add: checked_outcome_def exact_outcome_def width_lo_def width_hi_def prim_class clamp_def
        lang_lo_def lang_hi_def apply_binary_int_def Let_def)
qed

text \<open>Large shift amounts are truncated: the amount is cut to 32 bits before it is compared with
  the width, so shifting by \<open>2\<^sup>3\<^sup>2\<close> returns the operand unchanged, while shifting by
  128 gives zero.\<close>

theorem shift_amount_truncated:
  "(apply_binary_int Shl (new_unsigned U64 5) (new_unsigned U64 (2 ^ 32)) :: 'f comptime_value outcome)
     = Ok (VInt (new_unsigned U64 5)) \<and>
   (apply_binary_int Shl (new_unsigned U64 5) (new_unsigned U64 128) :: 'f comptime_value outcome)
     = Ok (VInt (new_unsigned U64 0))"
  by (simp add: apply_binary_int_def Let_def shift_int_def prim_class as_u128_def make_int_value_def)

section \<open>Casts\<close>

lemma int_bits_range:
  "is_integer p \<Longrightarrow> 0 < int_bits p" "is_integer p \<Longrightarrow> int_bits p \<le> width_bits_or_max p" "int_bits p \<le> 128"
  by (cases p; simp add: prim_class)+

lemma push_bit_mask: "push_bit n 1 - 1 = (mask n :: u128)"
  by (simp add: mask_eq_exp_minus_1)

lemma wrap_to_val:
  assumes "is_integer dst"
  shows "wf_int (wrap_to dst raw)" "iv_width (wrap_to dst raw) = dst"
    "int_val (wrap_to dst raw) = (if is_signed_integer dst then signed_take_bit (int_bits dst - 1) (uint raw)
       else take_bit (int_bits dst) (uint raw))"
proof -
  let ?b = "int_bits dst"
  note b = int_bits_range(1,2) [OF assms] int_bits_range(3) [of dst]
  have masked: "(if 128 \<le> ?b then raw else raw AND (push_bit ?b 1 - 1)) = take_bit ?b raw"
  proof (cases "128 \<le> ?b")
    case True
    with b have "?b = LENGTH(128)" by simp
    then show ?thesis using True by (simp add: take_bit_word_eq_self)
  qed (simp add: push_bit_mask take_bit_eq_mask del: push_bit_of_1)
  have w: "wrap_to dst raw = (if is_signed_integer dst
      then new_signed dst (sign_extend_to_i128 (take_bit ?b raw) ?b) else new_unsigned dst (take_bit ?b raw))"
    unfolding wrap_to_def Let_def masked by simp
  then show "wf_int (wrap_to dst raw)" "iv_width (wrap_to dst raw) = dst"
    using assms by (simp_all add: new_wf)
  show "int_val (wrap_to dst raw) = (if is_signed_integer dst then signed_take_bit (?b - 1) (uint raw)
       else take_bit ?b (uint raw))"
  proof (cases "is_signed_integer dst")
    case True
    have "\<not> ?b \<le> ?b - 1" using b by linarith
    then have e: "sign_extend_to_i128 (take_bit ?b raw) ?b = signed_take_bit (?b - 1) (uint raw)"
      using sign_extend_word [OF b(1,3), of "take_bit ?b raw"]
      by (simp add: sign_extend_to_i128_def unsigned_take_bit_eq signed_take_bit_take_bit)
    have "?b - 1 \<le> width_bits_or_max dst - 1" using b by linarith
    then have "signed_take_bit (width_bits_or_max dst - 1) (signed_take_bit (?b - 1) (uint raw)) =
        signed_take_bit (?b - 1) (uint raw)"
      by (simp add: signed_take_bit_signed_take_bit min_def)
    with True w e show ?thesis by (simp add: int_val_new_signed)
  next
    case False
    with w b show ?thesis
      by (simp add: int_val_new_unsigned unsigned_take_bit_eq min_def)
  qed
qed

definition sm_val :: "bool \<times> u128 \<Rightarrow> int" where
  "sm_val sm = (if fst sm then - uint (snd sm) else uint (snd sm))"

lemma sm_less_iff:
  "(fst a \<longrightarrow> snd a \<noteq> 0) \<Longrightarrow> sm_less a b \<longleftrightarrow> sm_val a < sm_val b"
proof (induction a b rule: sm_less.induct)
  case (1 a b)
  then have "0 < uint a" by (simp add: word_neq_0_conv word_less_def)
  then show ?case by (simp add: sm_val_def) (metis neg_less_0_iff_less order_less_le_trans uint_ge_0)
next
  case (2 a b)
  have "0 \<le> uint a" "0 \<le> uint b" by simp_all
  then have "- uint b \<le> uint a" by linarith
  then show ?case by (simp add: sm_val_def not_less)
qed (auto simp: sm_val_def word_less_def)

lemma sign_mag_val:
  assumes "wf_int iv"
  shows "sm_val (sign_mag iv) = int_val iv" "fst (sign_mag iv) \<longrightarrow> snd (sign_mag iv) \<noteq> 0"
proof -
  have "sm_val (sign_mag iv) = int_val iv \<and> (fst (sign_mag iv) \<longrightarrow> snd (sign_mag iv) \<noteq> 0)"
    using assms refl
  proof (cases rule: wf_signed_cases)
    case signed
    have "\<bar>int_val iv\<bar> < 2 ^ 128"
      using int_val_range [OF assms] width_range_128(1,2) [OF signed(1)] by simp
    then have u: "uint (word_of_int \<bar>int_val iv\<bar> :: u128) = \<bar>int_val iv\<bar>"
      by (simp add: unsigned_of_int take_bit_int_eq_self)
    then have "int_val iv < 0 \<Longrightarrow> (word_of_int \<bar>int_val iv\<bar> :: u128) \<noteq> 0"
      by (metis abs_0_eq less_irrefl unsigned_0)
    with u signed show ?thesis
      by (cases "int_val iv < 0") (simp_all add: sign_mag_def sm_val_def del: of_int_minus)
  next
    case unsigned
    then show ?thesis by (simp add: sign_mag_def sm_val_def as_i128_def)
  qed
  then show "sm_val (sign_mag iv) = int_val iv" "fst (sign_mag iv) \<longrightarrow> snd (sign_mag iv) \<noteq> 0" by simp_all
qed

lemma dst_bounds_val:
  "is_integer dst \<Longrightarrow> sm_val (fst (dst_bounds dst)) = lang_lo dst \<and> sm_val (snd (dst_bounds dst)) = lang_hi dst
     \<and> \<not> fst (snd (dst_bounds dst))"
  by (cases dst) (simp_all add: dst_bounds_def sm_val_def lang_lo_def lang_hi_def prim_class
      unsigned_minus_1_eq_mask mask_eq_exp_minus_1)

lemma dst_bound_val:
  "is_integer dst \<Longrightarrow> int_val (dst_bound dst True) = lang_hi dst \<and> int_val (dst_bound dst False) = lang_lo dst"
  by (cases dst) (simp_all add: dst_bound_def wrap_to_val lang_lo_def lang_hi_def prim_class
      unsigned_minus_1_eq_mask mask_eq_exp_minus_1)

lemma raw_bits_val:
  assumes "wf_int iv"
  shows "uint (raw_bits iv) = take_bit 128 (int_val iv)"
  using assms refl
proof (cases rule: wf_signed_cases)
  case signed
  then show ?thesis by (simp add: raw_bits_def unsigned_of_int)
next
  case unsigned
  have "uint (iv_bits iv) < 2 ^ LENGTH(128)" by (rule uint_bounded)
  with unsigned show ?thesis by (simp add: raw_bits_def as_i128_def take_bit_int_eq_self)
qed

lemma wrap_to_cong:
  assumes "is_integer dst" "wf_int iv"
  shows "int_val (wrap_to dst (raw_bits iv)) =
    (if is_signed_integer dst then signed_take_bit (int_bits dst - 1) (int_val iv)
     else take_bit (int_bits dst) (int_val iv))"
proof -
  have "\<not> 128 \<le> int_bits dst - 1" using int_bits_range(1) [OF assms(1)] int_bits_range(3) [of dst] by linarith
  then show ?thesis
    using int_bits_range(3) [of dst]
    by (simp add: wrap_to_val [OF assms(1)] raw_bits_val [OF assms(2)] signed_take_bit_take_bit min_def)
qed

lemma wrap_to_range:
  assumes "is_integer dst" "wf_int iv"
  shows "lang_lo dst \<le> int_val (wrap_to dst (raw_bits iv))" "int_val (wrap_to dst (raw_bits iv)) \<le> lang_hi dst"
    "int_val (wrap_to dst (raw_bits iv)) mod 2 ^ int_bits dst = int_val iv mod 2 ^ int_bits dst"
    "lang_lo dst \<le> int_val iv \<Longrightarrow> int_val iv \<le> lang_hi dst \<Longrightarrow> int_val (wrap_to dst (raw_bits iv)) = int_val iv"
proof -
  let ?b = "int_bits dst" and ?n = "int_val iv"
  have "signed_take_bit (?b - 1) ?n < 2 ^ (?b - 1)" "- (2 ^ (?b - 1)) \<le> signed_take_bit (?b - 1) ?n"
    "0 \<le> take_bit ?b ?n" "take_bit ?b ?n < 2 ^ ?b"
    by (simp_all add: signed_take_bit_int_less_exp signed_take_bit_int_greater_eq_minus_exp)
  then show "lang_lo dst \<le> int_val (wrap_to dst (raw_bits iv))" "int_val (wrap_to dst (raw_bits iv)) \<le> lang_hi dst"
    by (simp_all add: wrap_to_cong [OF assms] lang_lo_def lang_hi_def)
  have "?b - 1 < ?b" using int_bits_range(1) [OF assms(1)] by simp
  then show "int_val (wrap_to dst (raw_bits iv)) mod 2 ^ ?b = ?n mod 2 ^ ?b"
    by (simp add: wrap_to_cong [OF assms] take_bit_signed_take_bit flip: take_bit_eq_mod)
  show "lang_lo dst \<le> ?n \<Longrightarrow> ?n \<le> lang_hi dst \<Longrightarrow> int_val (wrap_to dst (raw_bits iv)) = ?n"
    by (auto simp: wrap_to_cong [OF assms] lang_lo_def lang_hi_def signed_take_bit_int_eq_self_iff
        take_bit_int_eq_self_iff split: if_splits)
qed

definition cast_to :: "primitive \<Rightarrow> (int \<Rightarrow> bool) \<Rightarrow> 'f comptime_value option \<Rightarrow> bool" where
  "cast_to dst P out \<longleftrightarrow> (\<exists>v. out = Some (VInt v) \<and> wf_int v \<and> iv_width v = dst \<and> P (int_val v))"

text \<open>C5: Integer casts: a cast to an integer width keeps the number in every mode when the width can
  hold it; otherwise the trapping (and checked) cast is rejected, the saturating cast gives the
  nearest representable number, and the wrapping cast always gives the representable number
  congruent to it modulo \<open>2\<^sup>w\<close>. This holds for every source width, including \<open>u128\<close> values beyond
  the range of \<open>i128\<close>.\<close>

theorem cast_from_int_exact:
  fixes float_of :: "int_value \<Rightarrow> primitive \<Rightarrow> 'f"
  assumes "wf_int iv" "is_integer dst"
  shows "(if lang_lo dst \<le> int_val iv \<and> int_val iv \<le> lang_hi dst
      then (\<forall>mode. cast_to dst (\<lambda>n. n = int_val iv) (cast_from_int float_of iv dst mode))
      else cast_from_int float_of iv dst Trap = None \<and> cast_from_int float_of iv dst Checked = None) \<and>
    cast_to dst (\<lambda>n. n = clamp (lang_lo dst) (lang_hi dst) (int_val iv)) (cast_from_int float_of iv dst Saturating) \<and>
    cast_to dst (\<lambda>n. lang_lo dst \<le> n \<and> n \<le> lang_hi dst \<and> n mod 2 ^ int_bits dst = int_val iv mod 2 ^ int_bits dst)
      (cast_from_int float_of iv dst Wrapping)"
proof -
  let ?n = "int_val iv" and ?w = "wrap_to dst (raw_bits iv)"
  have nf: "\<not> is_float dst" using assms(2) by (cases dst) (simp_all add: prim_class)
  have cmp: "sm_less (sign_mag iv) (fst (dst_bounds dst)) \<longleftrightarrow> ?n < lang_lo dst"
    "sm_less (snd (dst_bounds dst)) (sign_mag iv) \<longleftrightarrow> lang_hi dst < ?n"
    using sm_less_iff [OF sign_mag_val(2) [OF assms(1)]] sm_less_iff [of "snd (dst_bounds dst)" "sign_mag iv"]
      sign_mag_val(1) [OF assms(1)] dst_bounds_val [OF assms(2)] by simp_all
  have c: "cast_from_int float_of iv dst mode = (case mode of
      Wrapping \<Rightarrow> Some (VInt ?w)
    | Saturating \<Rightarrow> if lang_hi dst < ?n then Some (VInt (dst_bound dst True))
        else if ?n < lang_lo dst then Some (VInt (dst_bound dst False)) else Some (VInt ?w)
    | _ \<Rightarrow> if ?n < lang_lo dst \<or> lang_hi dst < ?n then None else Some (VInt ?w))" for mode
    using nf by (simp add: cast_from_int_def cmp Let_def)
  have wf: "wf_int (dst_bound dst up)" "iv_width (dst_bound dst up) = dst" for up
    by (simp_all add: dst_bound_def Let_def wrap_to_val [OF assms(2)])
  note facts = wf wrap_to_val(1,2) [OF assms(2)] wrap_to_range [OF assms(2,1)] dst_bound_val [OF assms(2)]
    lang_range_width(3,4) [OF assms(2)]
  have "cast_to dst (\<lambda>n. n = clamp (lang_lo dst) (lang_hi dst) ?n) (cast_from_int float_of iv dst Saturating)"
    using facts by (auto simp: c cast_to_def clamp_def)
  moreover have "cast_to dst (\<lambda>n. n = ?n) (cast_from_int float_of iv dst mode)"
    if "lang_lo dst \<le> ?n" "?n \<le> lang_hi dst" for mode
    using facts that by (cases mode) (auto simp: c cast_to_def)
  ultimately show ?thesis
    using facts by (auto simp: c cast_to_def)
qed

theorem cast_from_int_exact_witness:
  "cast_from_int (\<lambda>v p. ()) (new_unsigned U128 (2 ^ 127)) I64 Trap = None \<and>
   cast_to I64 (\<lambda>n. n = 2 ^ 63 - 1) (cast_from_int (\<lambda>v p. ()) (new_unsigned U128 (2 ^ 127)) I64 Saturating)"
proof -
  have "int_val (new_unsigned U128 (2 ^ 127)) = 2 ^ 127"
    by (simp add: int_val_new_unsigned prim_class take_bit_int_eq_self)
  then show ?thesis
    using cast_from_int_exact [of "new_unsigned U128 (2 ^ 127)" I64 "\<lambda>v p. ()"]
    by (simp add: new_wf prim_class lang_lo_def lang_hi_def clamp_def)
qed

end
