(* ===== verification/Wire_Codec.thy ===== *)
theory Wire_Codec
  imports Edda_Prelude
begin

unbundle bit_operations_syntax

text \<open>
  Byte-level encoders shared by canonical predicates and proof certificates
  (\<^verbatim>\<open>crates/edda-refine/src/wire.rs\<close> and the helpers of \<^verbatim>\<open>certificate.rs\<close> and
  \<^verbatim>\<open>canonical/mod.rs\<close>): the unsigned LEB128 varint, length-prefixed byte strings and
  little-endian integers. An encoder that appends to \<^verbatim>\<open>out\<close> is the function that returns the
  appended bytes. The locale \<open>prefix_code\<close> is the contract their clients rely on: on its domain an
  encoding cannot be confused with another one, whatever bytes follow.
\<close>

function encode_varint :: "u64 \<Rightarrow> bytes" where
  "encode_varint v =
     (let byte = ucast (v AND 0x7F) :: u8; v' = drop_bit 7 v
      in if v' \<noteq> 0 then (byte OR 0x80) # encode_varint v' else [byte])"
  by pat_completeness auto

termination
proof (relation "measure unat")
  show "wf (measure (unat :: u64 \<Rightarrow> nat))" by simp
next
  fix v v' :: u64 and byte :: u8
  assume v': "v' = drop_bit 7 v" "v' \<noteq> 0"
  then have *: "unat v' = unat v div 128" by (simp add: drop_bit_eq_div unat_div)
  have "0 < unat v'" using v'(2) by (simp add: word_neq_0_conv unat_gt_0)
  with * have "unat v \<noteq> 0" by (metis div_0 less_numeral_extra(3))
  with * have "unat v' < unat v" by simp
  then show "(v', v) \<in> measure unat" by simp
qed

declare encode_varint.simps [simp del]

definition write_varint_bytes :: "bytes \<Rightarrow> bytes" where
  "write_varint_bytes bs = encode_varint (of_nat (length bs)) @ bs"

text \<open>\<^verbatim>\<open>to_le_bytes\<close> of a word of \<open>n\<close> bytes.\<close>

definition le_bytes :: "nat \<Rightarrow> 'a::len word \<Rightarrow> bytes" where
  "le_bytes n w = map (\<lambda>i. ucast (drop_bit (8 * i) w)) [0..<n]"

text \<open>Items with a separator byte between them, none at either end.\<close>

fun sep_join :: "u8 \<Rightarrow> bytes list \<Rightarrow> bytes" where
  "sep_join s [] = []"
| "sep_join s [b] = b"
| "sep_join s (b # bs) = b @ s # sep_join s bs"

lemma sep_join_Cons: "bs \<noteq> [] \<Longrightarrow> sep_join s (b # bs) = b @ s # sep_join s bs"
  by (cases bs) auto

section \<open>Prefix codes\<close>

locale prefix_code =
  fixes enc :: "'a \<Rightarrow> bytes" and dom :: "'a \<Rightarrow> bool" and eqv :: "'a \<Rightarrow> 'a \<Rightarrow> bool"
  assumes eqv_enc: "dom a \<Longrightarrow> dom b \<Longrightarrow> eqv a b \<Longrightarrow> enc a = enc b"
    and prefix: "dom a \<Longrightarrow> dom b \<Longrightarrow> enc a @ xs = enc b @ ys \<Longrightarrow> eqv a b"
begin

lemma cut: "dom a \<Longrightarrow> dom b \<Longrightarrow> enc a @ xs = enc b @ ys \<Longrightarrow> eqv a b \<and> xs = ys"
  using prefix [of a b xs ys] eqv_enc [of a b] by (metis append_same_eq same_append_eq)

lemma cut_iff: "dom a \<Longrightarrow> dom b \<Longrightarrow> enc a @ xs = enc b @ ys \<longleftrightarrow> eqv a b \<and> xs = ys"
  using cut [of a b xs ys] eqv_enc [of a b] by metis

lemma enc_eq_iff: "dom a \<Longrightarrow> dom b \<Longrightarrow> enc a = enc b \<longleftrightarrow> eqv a b"
  using prefix [of a b "[]" "[]"] eqv_enc [of a b] by metis

lemma concat_cut:
  assumes "length as = length bs" "list_all dom as" "list_all dom bs"
    and "concat (map enc as) @ xs = concat (map enc bs) @ ys"
  shows "list_all2 eqv as bs \<and> xs = ys"
  using assms
proof (induction as bs rule: list_induct2)
  case (Cons a as b bs)
  have "enc a @ (concat (map enc as) @ xs) = enc b @ (concat (map enc bs) @ ys)"
    using Cons.prems(3) by simp
  with cut [of a b "concat (map enc as) @ xs" "concat (map enc bs) @ ys"] Cons.prems
  have "eqv a b" "concat (map enc as) @ xs = concat (map enc bs) @ ys" by auto
  with Cons show ?case by simp
qed simp

lemma sep_join_tail:
  assumes "dom a" "dom b"
    and "sep_join s (enc a # map enc as) = sep_join s (enc b # map enc bs)"
  shows "eqv a b \<and> (as = [] \<longleftrightarrow> bs = []) \<and> sep_join s (map enc as) = sep_join s (map enc bs)"
proof -
  define r where "r cs = (if cs = [] then [] else s # sep_join s (map enc cs))" for cs
  have split: "sep_join s (enc c # map enc cs) = enc c @ r cs" for c cs
    by (cases cs) (auto simp: r_def)
  from assms(3) have "enc a @ r as = enc b @ r bs" by (simp only: split)
  with cut [OF assms(1,2)] have "eqv a b" "r as = r bs" by blast+
  then show ?thesis by (auto simp: r_def split: if_splits)
qed

lemma sep_join_inj:
  assumes "list_all dom as" "list_all dom bs"
    and ne: "\<And>a. dom a \<Longrightarrow> enc a \<noteq> []"
    and "sep_join s (map enc as) = sep_join s (map enc bs)"
  shows "list_all2 eqv as bs"
  using assms(1,2,4)
proof (induction as arbitrary: bs)
  case Nil
  show ?case
  proof (cases bs)
    case (Cons b cs)
    then have "enc b = []" using Nil.prems by (cases cs) auto
    with Nil.prems Cons ne [of b] show ?thesis by simp
  qed simp
next
  case (Cons a as)
  have da: "dom a" using Cons.prems(1) by simp
  show ?case
  proof (cases bs)
    case Nil
    then have "enc a = []" using Cons.prems(3) by (cases as) auto
    with ne [OF da] show ?thesis by simp
  next
    case bs: (Cons b cs)
    have db: "dom b" using Cons.prems(2) bs by simp
    from sep_join_tail [OF da db] Cons.prems(3) bs
    have *: "eqv a b" "sep_join s (map enc as) = sep_join s (map enc cs)" by (auto simp only: list.map)
    have "list_all dom as" "list_all dom cs" using Cons.prems bs by simp_all
    from Cons.IH [OF this *(2)] *(1) show ?thesis by (simp add: bs)
  qed
qed

end

section \<open>The encoders are prefix codes\<close>

lemma low7: "(v AND 0x7F :: u64) = take_bit 7 v"
proof -
  have "(0x7F :: u64) = mask 7" by (simp add: mask_eq_exp_minus_1)
  then show ?thesis by (simp only: take_bit_eq_mask)
qed

lemma word_split_7: "take_bit 7 a = take_bit 7 b \<Longrightarrow> drop_bit 7 a = drop_bit 7 b \<Longrightarrow> a = (b :: u64)"
  by (metis bits_ident)

lemma ucast_low7_inj: "(ucast (take_bit 7 a :: u64) :: u8) = ucast (take_bit 7 b) \<longleftrightarrow> take_bit 7 a = take_bit 7 b"
proof
  assume eq: "(ucast (take_bit 7 a) :: u8) = ucast (take_bit 7 b)"
  have bits: "bit (ucast (take_bit 7 c) :: u8) n \<longleftrightarrow> n < 7 \<and> bit c n" for c :: u64 and n
    by (auto simp: bit_simps)
  have "n < 7 \<and> bit a n \<longleftrightarrow> n < 7 \<and> bit b n" for n
    using bits [of a n] bits [of b n] by (simp only: eq)
  then show "take_bit 7 a = take_bit 7 b" by (intro bit_eqI) (simp add: bit_take_bit_iff)
qed simp

lemma bit7_low7 [simp]: "\<not> bit (ucast (take_bit 7 a :: u64) :: u8) 7"
  by (simp add: bit_simps)

lemma bit_0x80: "bit (0x80 :: u8) n \<longleftrightarrow> n = 7"
proof -
  have "(0x80 :: u8) = 2 ^ 7" by simp
  then show ?thesis by (simp only: bit_exp_iff) auto
qed

lemma set_bit7 [simp]: "bit ((x OR 0x80) :: u8) 7"
  by (simp add: bit_or_iff bit_0x80)

lemma or_0x80_inj:
  assumes "\<not> bit x 7" "\<not> bit y 7"
  shows "(x OR 0x80 :: u8) = y OR 0x80 \<longleftrightarrow> x = y"
proof
  assume eq: "x OR 0x80 = y OR 0x80"
  have "bit x n = bit y n" for n
  proof (cases "n = 7")
    case False
    have "bit (x OR 0x80) n = bit (y OR 0x80) n" by (simp only: eq)
    with False show ?thesis by (simp only: bit_or_iff bit_0x80 simp_thms)
  qed (use assms in simp)
  then show "x = y" by (intro bit_eqI) simp
qed simp

lemma encode_varint_unfold:
  "encode_varint v =
     (if drop_bit 7 v \<noteq> 0
      then (ucast (take_bit 7 v) OR 0x80) # encode_varint (drop_bit 7 v)
      else [ucast (take_bit 7 v)])"
  by (subst encode_varint.simps) (simp only: Let_def low7)

lemma encode_varint_last: "drop_bit 7 v = 0 \<Longrightarrow> encode_varint v = [ucast (take_bit 7 v)]"
  and encode_varint_more: "drop_bit 7 v \<noteq> 0 \<Longrightarrow>
    encode_varint v = (ucast (take_bit 7 v) OR 0x80) # encode_varint (drop_bit 7 v)"
  by (subst encode_varint_unfold, simp only: simp_thms if_False if_True)+

lemma encode_varint_prefix:
  "encode_varint a @ xs = encode_varint b @ ys \<Longrightarrow> a = b"
proof (induction a arbitrary: b rule: encode_varint.induct)
  case (1 a b)
  have clash: "(ucast (take_bit 7 c) :: u8) \<noteq> ucast (take_bit 7 d) OR 0x80" for c d :: u64
  proof
    assume "(ucast (take_bit 7 c) :: u8) = ucast (take_bit 7 d) OR 0x80"
    with bit7_low7 [of c] have "\<not> bit ((ucast (take_bit 7 d) OR 0x80) :: u8) 7" by (simp only: not_False_eq_True)
    with set_bit7 [of "ucast (take_bit 7 d)"] show False by (rule notE [rotated])
  qed
  consider "drop_bit 7 a = 0" "drop_bit 7 b = 0" | "drop_bit 7 a = 0" "drop_bit 7 b \<noteq> 0"
    | "drop_bit 7 a \<noteq> 0" "drop_bit 7 b = 0" | "drop_bit 7 a \<noteq> 0" "drop_bit 7 b \<noteq> 0" by blast
  then show ?case
  proof cases
    case c: 1
    with "1.prems" have "(ucast (take_bit 7 a) :: u8) = ucast (take_bit 7 b)"
      by (simp only: encode_varint_last append_Cons append_Nil list.inject)
    then have "take_bit 7 a = take_bit 7 b" by (simp only: ucast_low7_inj)
    moreover have "drop_bit 7 a = drop_bit 7 b" by (simp only: c)
    ultimately show ?thesis by (rule word_split_7)
  next
    case 2
    with "1.prems" clash show ?thesis
      by (simp only: encode_varint_last encode_varint_more append_Cons append_Nil list.inject simp_thms)
  next
    case 3
    with "1.prems" clash [THEN not_sym] show ?thesis
      by (simp only: encode_varint_last encode_varint_more append_Cons append_Nil list.inject simp_thms)
  next
    case z: 4
    with "1.prems" have low: "(ucast (take_bit 7 a) OR 0x80 :: u8) = ucast (take_bit 7 b) OR 0x80"
      and tl: "encode_varint (drop_bit 7 a) @ xs = encode_varint (drop_bit 7 b) @ ys"
      by (simp_all only: encode_varint_more append_Cons list.inject simp_thms)
    from low have "take_bit 7 a = take_bit 7 b"
      by (simp only: or_0x80_inj [OF bit7_low7 bit7_low7] ucast_low7_inj)
    moreover have "drop_bit 7 a = drop_bit 7 b"
      by (rule "1.IH" [OF refl refl z(1) tl])
    ultimately show ?thesis by (rule word_split_7)
  qed
qed

interpretation varint: prefix_code encode_varint "\<lambda>_. True" "(=)"
  by unfold_locales (auto dest: encode_varint_prefix)

lemma encode_varint_nonempty [simp]: "encode_varint v \<noteq> []"
  by (subst encode_varint_unfold) simp

abbreviation short :: "'a list \<Rightarrow> bool" where
  "short bs \<equiv> length bs < 2 ^ 64"

interpretation blob: prefix_code write_varint_bytes short "(=)"
proof unfold_locales
  fix a b xs ys :: bytes
  assume *: "short a" "short b" "write_varint_bytes a @ xs = write_varint_bytes b @ ys"
  then have "encode_varint (of_nat (length a)) @ (a @ xs) = encode_varint (of_nat (length b)) @ (b @ ys)"
    by (simp add: write_varint_bytes_def)
  from varint.cut [OF _ _ this] have "(of_nat (length a) :: u64) = of_nat (length b)" "a @ xs = b @ ys"
    by simp_all
  with * of_nat_word_inj [where 'a = 64, of "length a" "length b"] show "a = b" by simp
qed simp

lemma le_bytes_length [simp]: "length (le_bytes n w) = n"
  by (simp add: le_bytes_def)

lemma le_bytes_inj:
  fixes a b :: "'a::len word"
  assumes "le_bytes n a = le_bytes n b" "LENGTH('a) \<le> 8 * n"
  shows "a = b"
proof (rule bit_word_eqI)
  fix i assume i: "i < LENGTH('a)"
  then have "i div 8 < n" using assms(2) by (simp add: less_mult_imp_div_less mult.commute)
  then have nth: "le_bytes n w ! (i div 8) = ucast (drop_bit (8 * (i div 8)) w)" for w :: "'a word"
    by (simp add: le_bytes_def)
  have "(ucast (drop_bit (8 * (i div 8)) a) :: u8) = ucast (drop_bit (8 * (i div 8)) b)"
    using nth [of a] nth [of b] assms(1) by simp
  then have "bit (ucast (drop_bit (8 * (i div 8)) a) :: u8) (i mod 8) = bit (ucast (drop_bit (8 * (i div 8)) b) :: u8) (i mod 8)"
    by simp
  then show "bit a i = bit b i" by (simp add: bit_simps)
qed

interpretation le4: prefix_code "le_bytes 4 :: u32 \<Rightarrow> bytes" "\<lambda>_. True" "(=)"
  by unfold_locales (auto dest: le_bytes_inj)

interpretation le16: prefix_code "le_bytes 16 :: u128 \<Rightarrow> bytes" "\<lambda>_. True" "(=)"
  by unfold_locales (auto dest: le_bytes_inj)

end
