(* ===== verification/Refine_Predicate.thy ===== *)
theory Refine_Predicate
  imports Wire_Codec
begin

text \<open>
  The refinement predicate language (\<^verbatim>\<open>crates/edda-refine/src/sort.rs\<close>,
  \<^verbatim>\<open>predicate/mod.rs\<close>): sorts, terms of the decidable fragment and the sort a term reports. A
  \<^verbatim>\<open>SmolStr\<close> is its UTF-8 bytes, an \<^verbatim>\<open>i128\<close> or \<^verbatim>\<open>u128\<close> literal its 128 bits.
\<close>

section \<open>Sorts\<close>

datatype int_width = W8 | W16 | W32 | W64 | W128 | Usize | Isize

record int_sort =
  is_width :: int_width
  is_signed :: bool

definition USIZE :: int_sort where "USIZE = \<lparr>is_width = Usize, is_signed = False\<rparr>"
definition ISIZE :: int_sort where "ISIZE = \<lparr>is_width = Isize, is_signed = True\<rparr>"

datatype srt =
    SInt int_sort
  | SBool
  | SSlice srt
  | STuple "srt list"
  | SRecord bytes
  | SSum bytes

fun width_name :: "int_width \<Rightarrow> string" where
  "width_name W8 = ''8''"
| "width_name W16 = ''16''"
| "width_name W32 = ''32''"
| "width_name W64 = ''64''"
| "width_name W128 = ''128''"
| "width_name Usize = ''size''"
| "width_name Isize = ''size''"

definition type_name :: "int_sort \<Rightarrow> string" where
  "type_name s = (if is_signed s then ''i'' else ''u'') @ width_name (is_width s)"

fun is_int :: "srt \<Rightarrow> bool" where
  "is_int (SInt _) = True"
| "is_int _ = False"

fun is_equality_bearing :: "srt \<Rightarrow> bool" where
  "is_equality_bearing (SInt _) = True"
| "is_equality_bearing SBool = True"
| "is_equality_bearing (SSlice _) = False"
| "is_equality_bearing (STuple ss) = list_all is_equality_bearing ss"
| "is_equality_bearing (SRecord _) = True"
| "is_equality_bearing (SSum _) = False"

record field_ref =
  fr_record :: bytes
  fr_field :: bytes
  fr_sort :: srt

record variant_ref =
  vr_sum :: bytes
  vr_variant :: bytes

section \<open>Predicates\<close>

datatype int_lit_value = LSigned u128 | LUnsigned u128

record int_lit =
  il_value :: int_lit_value
  il_sort :: int_sort

record variable =
  v_name :: bytes
  v_sort :: srt

datatype arith_op = Add | Sub
datatype cmp_op = Eq | Ne | Lt | Le | Gt | Ge
datatype bool_binop = And | Or

datatype predicate =
    PVar variable
  | PIntLit int_lit
  | PBoolLit bool
  | PArith arith_op predicate predicate
  | PNeg predicate
  | PMulLit int_lit predicate
  | PDivLit predicate int_lit
  | PModLit predicate int_lit
  | PCmp cmp_op predicate predicate
  | PBoolBinOp bool_binop predicate predicate
  | PNot predicate
  | PIf predicate predicate predicate
  | PFieldProj predicate field_ref
  | PSliceLen predicate
  | PSliceIndex predicate predicate
  | PSliceStore predicate predicate predicate
  | PCast predicate int_sort
  | PTagEq predicate variant_ref
  | PForall variable predicate predicate predicate
  | PExists variable predicate predicate predicate

fun sort_of :: "predicate \<Rightarrow> srt" where
  "sort_of (PVar v) = v_sort v"
| "sort_of (PIntLit l) = SInt (il_sort l)"
| "sort_of (PBoolLit _) = SBool"
| "sort_of (PArith _ lhs _) = sort_of lhs"
| "sort_of (PNeg operand) = sort_of operand"
| "sort_of (PMulLit _ e) = sort_of e"
| "sort_of (PDivLit e _) = sort_of e"
| "sort_of (PModLit e _) = sort_of e"
| "sort_of (PCmp _ _ _) = SBool"
| "sort_of (PBoolBinOp _ _ _) = SBool"
| "sort_of (PNot _) = SBool"
| "sort_of (PIf _ then_br _) = sort_of then_br"
| "sort_of (PFieldProj _ f) = fr_sort f"
| "sort_of (PSliceLen _) = SInt USIZE"
| "sort_of (PSliceIndex xs _) =
     (case sort_of xs of SSlice element \<Rightarrow> element | other \<Rightarrow> other)"
| "sort_of (PSliceStore xs _ _) = sort_of xs"
| "sort_of (PCast _ to) = SInt to"
| "sort_of (PTagEq _ _) = SBool"
| "sort_of (PForall _ _ _ _) = SBool"
| "sort_of (PExists _ _ _ _) = SBool"

end
