(* ===== verification/Predicate_Canonical.thy ===== *)
theory Predicate_Canonical
  imports Refine_Predicate "HOL-Library.List_Lexorder" "HOL-Library.Multiset"
begin

text \<open>
  The canonical byte form of refinement predicates and contexts
  (\<^verbatim>\<open>crates/edda-refine/src/canonical/tags.rs\<close>, \<^verbatim>\<open>canonical/mod.rs\<close>), from which the cache keys
  of proof certificates are hashed. The order on \<^verbatim>\<open>Vec<u8>\<close> is the lexicographic order of the
  library; BLAKE3, which lives outside the sources, is the parameter \<open>hash_bytes\<close>. The canonical
  bytes of two predicates agree exactly when one becomes the other by swapping operands of the
  commutative operators, and those of two contexts exactly when this holds up to a permutation.
\<close>

section \<open>Wire tags\<close>

definition TAG_VAR :: u8 where "TAG_VAR = 0x01"
definition TAG_INT_LIT :: u8 where "TAG_INT_LIT = 0x02"
definition TAG_BOOL_LIT :: u8 where "TAG_BOOL_LIT = 0x03"
definition TAG_ARITH :: u8 where "TAG_ARITH = 0x04"
definition TAG_NEG :: u8 where "TAG_NEG = 0x05"
definition TAG_MUL_LIT :: u8 where "TAG_MUL_LIT = 0x06"
definition TAG_DIV_LIT :: u8 where "TAG_DIV_LIT = 0x07"
definition TAG_CMP :: u8 where "TAG_CMP = 0x08"
definition TAG_BOOL_BINOP :: u8 where "TAG_BOOL_BINOP = 0x09"
definition TAG_NOT :: u8 where "TAG_NOT = 0x0A"
definition TAG_IF :: u8 where "TAG_IF = 0x0B"
definition TAG_FIELD_PROJ :: u8 where "TAG_FIELD_PROJ = 0x0C"
definition TAG_SLICE_LEN :: u8 where "TAG_SLICE_LEN = 0x0D"
definition TAG_SLICE_INDEX :: u8 where "TAG_SLICE_INDEX = 0x0E"
definition TAG_SLICE_STORE :: u8 where "TAG_SLICE_STORE = 0x0F"
definition TAG_CAST :: u8 where "TAG_CAST = 0x10"
definition TAG_TAG_EQ :: u8 where "TAG_TAG_EQ = 0x11"
definition TAG_FORALL :: u8 where "TAG_FORALL = 0x12"
definition TAG_EXISTS :: u8 where "TAG_EXISTS = 0x13"
definition TAG_MOD_LIT :: u8 where "TAG_MOD_LIT = 0x14"

lemmas tag_defs [codec_simps] =
  TAG_VAR_def TAG_INT_LIT_def TAG_BOOL_LIT_def TAG_ARITH_def TAG_NEG_def TAG_MUL_LIT_def
  TAG_DIV_LIT_def TAG_CMP_def TAG_BOOL_BINOP_def TAG_NOT_def TAG_IF_def TAG_FIELD_PROJ_def
  TAG_SLICE_LEN_def TAG_SLICE_INDEX_def TAG_SLICE_STORE_def TAG_CAST_def TAG_TAG_EQ_def
  TAG_FORALL_def TAG_EXISTS_def TAG_MOD_LIT_def

fun arith_op_tag :: "arith_op \<Rightarrow> u8" where
  "arith_op_tag Add = 0x00"
| "arith_op_tag Sub = 0x01"

fun cmp_op_tag :: "cmp_op \<Rightarrow> u8" where
  "cmp_op_tag Eq = 0x00"
| "cmp_op_tag Ne = 0x01"
| "cmp_op_tag Lt = 0x02"
| "cmp_op_tag Le = 0x03"
| "cmp_op_tag Gt = 0x04"
| "cmp_op_tag Ge = 0x05"

fun bool_binop_tag :: "bool_binop \<Rightarrow> u8" where
  "bool_binop_tag And = 0x00"
| "bool_binop_tag Or = 0x01"

fun int_width_tag :: "int_width \<Rightarrow> u8" where
  "int_width_tag W8 = 0x00"
| "int_width_tag W16 = 0x01"
| "int_width_tag W32 = 0x02"
| "int_width_tag W64 = 0x03"
| "int_width_tag W128 = 0x04"
| "int_width_tag Usize = 0x05"
| "int_width_tag Isize = 0x06"

section \<open>The encoder\<close>

definition CONTEXT_SEPARATOR :: u8 where "CONTEXT_SEPARATOR = 0xFF"

definition encode_str :: "bytes \<Rightarrow> bytes" where
  "encode_str s = encode_varint (of_nat (length s)) @ s"

definition encode_int_sort :: "int_sort \<Rightarrow> bytes" where
  "encode_int_sort s = [int_width_tag (is_width s), if is_signed s then 1 else 0]"

fun encode_sort :: "srt \<Rightarrow> bytes" where
  "encode_sort (SInt s) = 0x00 # encode_int_sort s"
| "encode_sort SBool = [0x01]"
| "encode_sort (SSlice e) = 0x02 # encode_sort e"
| "encode_sort (STuple es) = 0x03 # encode_varint (of_nat (length es)) @ concat (map encode_sort es)"
| "encode_sort (SRecord n) = 0x04 # encode_str n"
| "encode_sort (SSum n) = 0x05 # encode_str n"

definition encode_field_ref :: "field_ref \<Rightarrow> bytes" where
  "encode_field_ref f = encode_str (fr_record f) @ encode_str (fr_field f) @ encode_sort (fr_sort f)"

definition encode_int_lit :: "int_lit \<Rightarrow> bytes" where
  "encode_int_lit l = encode_int_sort (il_sort l) @
     (case il_value l of LSigned v \<Rightarrow> 0x00 # le_bytes 16 v | LUnsigned v \<Rightarrow> 0x01 # le_bytes 16 v)"

definition encode_binary_operands :: "bool \<Rightarrow> bytes \<Rightarrow> bytes \<Rightarrow> bytes" where
  "encode_binary_operands commutative l r =
     (if commutative then (if l \<le> r then l @ r else r @ l) else l @ r)"

fun encode_predicate :: "predicate \<Rightarrow> bytes" where
  "encode_predicate (PVar v) = TAG_VAR # encode_str (v_name v) @ encode_sort (v_sort v)"
| "encode_predicate (PIntLit l) = TAG_INT_LIT # encode_int_lit l"
| "encode_predicate (PBoolLit b) = [TAG_BOOL_LIT, if b then 1 else 0]"
| "encode_predicate (PArith op l r) = TAG_ARITH # arith_op_tag op #
     encode_binary_operands (op = Add) (encode_predicate l) (encode_predicate r)"
| "encode_predicate (PNeg p) = TAG_NEG # encode_predicate p"
| "encode_predicate (PMulLit c e) = TAG_MUL_LIT # encode_int_lit c @ encode_predicate e"
| "encode_predicate (PDivLit e c) = TAG_DIV_LIT # encode_predicate e @ encode_int_lit c"
| "encode_predicate (PModLit e c) = TAG_MOD_LIT # encode_predicate e @ encode_int_lit c"
| "encode_predicate (PCmp op l r) = TAG_CMP # cmp_op_tag op #
     encode_binary_operands (op = Eq \<or> op = Ne) (encode_predicate l) (encode_predicate r)"
| "encode_predicate (PBoolBinOp op l r) = TAG_BOOL_BINOP # bool_binop_tag op #
     encode_binary_operands True (encode_predicate l) (encode_predicate r)"
| "encode_predicate (PNot p) = TAG_NOT # encode_predicate p"
| "encode_predicate (PIf c t e) =
     TAG_IF # encode_predicate c @ encode_predicate t @ encode_predicate e"
| "encode_predicate (PFieldProj b f) = TAG_FIELD_PROJ # encode_predicate b @ encode_field_ref f"
| "encode_predicate (PSliceLen s) = TAG_SLICE_LEN # encode_predicate s"
| "encode_predicate (PSliceIndex s i) = TAG_SLICE_INDEX # encode_predicate s @ encode_predicate i"
| "encode_predicate (PSliceStore s i v) =
     TAG_SLICE_STORE # encode_predicate s @ encode_predicate i @ encode_predicate v"
| "encode_predicate (PCast v to) = TAG_CAST # encode_predicate v @ encode_int_sort to"
| "encode_predicate (PTagEq v r) =
     TAG_TAG_EQ # encode_predicate v @ encode_str (vr_sum r) @ encode_str (vr_variant r)"
| "encode_predicate (PForall b l u p) = TAG_FORALL # encode_str (v_name b) @ encode_sort (v_sort b) @
     encode_predicate l @ encode_predicate u @ encode_predicate p"
| "encode_predicate (PExists b l u p) = TAG_EXISTS # encode_str (v_name b) @ encode_sort (v_sort b) @
     encode_predicate l @ encode_predicate u @ encode_predicate p"

definition canonical_predicate :: "predicate \<Rightarrow> bytes" where
  "canonical_predicate p = encode_predicate p"

definition canonical_context :: "predicate list \<Rightarrow> bytes" where
  "canonical_context ps = sep_join CONTEXT_SEPARATOR (sort (map canonical_predicate ps))"

definition obligation_hash :: "(bytes \<Rightarrow> bytes) \<Rightarrow> predicate \<Rightarrow> bytes" where
  "obligation_hash hash_bytes p = hash_bytes (canonical_predicate p)"

definition context_hash :: "(bytes \<Rightarrow> bytes) \<Rightarrow> predicate list \<Rightarrow> bytes" where
  "context_hash hash_bytes ps = hash_bytes (canonical_context ps)"


section \<open>Prefix-freeness of the parts\<close>

lemma encode_str_blob: "encode_str = write_varint_bytes"
  by (rule ext) (simp add: encode_str_def write_varint_bytes_def)

interpretation str: prefix_code encode_str short "(=)"
  unfolding encode_str_blob by (rule blob.prefix_code_axioms)

lemma int_width_tag_inj [simp]: "int_width_tag w = int_width_tag w' \<longleftrightarrow> w = w'"
  by (cases w; cases w') simp_all

lemma arith_op_tag_inj [simp]: "arith_op_tag a = arith_op_tag a' \<longleftrightarrow> a = a'"
  by (cases a; cases a') simp_all

lemma cmp_op_tag_inj [simp]: "cmp_op_tag c = cmp_op_tag c' \<longleftrightarrow> c = c'"
  by (cases c; cases c') simp_all

lemma bool_binop_tag_inj [simp]: "bool_binop_tag b = bool_binop_tag b' \<longleftrightarrow> b = b'"
  by (cases b; cases b') simp_all

interpretation int_srt: prefix_code encode_int_sort "\<lambda>_. True" "(=)"
  by unfold_locales (auto simp: encode_int_sort_def split: if_splits intro: int_sort.equality)

interpretation lit: prefix_code encode_int_lit "\<lambda>_. True" "(=)"
proof unfold_locales
  fix a b xs ys
  assume "encode_int_lit a @ xs = encode_int_lit b @ ys"
  then have "encode_int_sort (il_sort a) @
      ((case il_value a of LSigned v \<Rightarrow> 0x00 # le_bytes 16 v | LUnsigned v \<Rightarrow> 0x01 # le_bytes 16 v) @ xs) =
    encode_int_sort (il_sort b) @
      ((case il_value b of LSigned v \<Rightarrow> 0x00 # le_bytes 16 v | LUnsigned v \<Rightarrow> 0x01 # le_bytes 16 v) @ ys)"
    by (simp add: encode_int_lit_def)
  from int_srt.cut [OF _ _ this] have "il_sort a = il_sort b" "il_value a = il_value b"
    by (auto split: int_lit_value.splits dest: le_bytes_inj)
  then show "a = b" by (intro int_lit.equality) auto
qed simp

fun srt_ok :: "srt \<Rightarrow> bool" where
  "srt_ok (SInt _) = True"
| "srt_ok SBool = True"
| "srt_ok (SSlice e) = srt_ok e"
| "srt_ok (STuple es) = (short es \<and> list_all srt_ok es)"
| "srt_ok (SRecord n) = short n"
| "srt_ok (SSum n) = short n"

lemma concat_map_cut:
  assumes "length as = length bs"
    and "\<And>a b xs ys. a \<in> set as \<Longrightarrow> b \<in> set bs \<Longrightarrow> enc a @ xs = enc b @ ys \<Longrightarrow> a = b \<and> xs = ys"
    and "concat (map enc as) @ xs = concat (map enc bs) @ ys"
  shows "as = bs \<and> xs = ys"
  using assms
proof (induction as bs rule: list_induct2)
  case (Cons a as b bs)
  have "enc a @ (concat (map enc as) @ xs) = enc b @ (concat (map enc bs) @ ys)"
    using Cons.prems(2) by simp
  with Cons.prems(1) [of a b "concat (map enc as) @ xs" "concat (map enc bs) @ ys"]
  have *: "a = b" "concat (map enc as) @ xs = concat (map enc bs) @ ys" by simp_all
  have "as = bs \<and> xs = ys" by (rule Cons.IH [OF Cons.prems(1) *(2)]) auto
  with * show ?case by simp
qed simp

lemma encode_sort_cut:
  "srt_ok a \<Longrightarrow> srt_ok b \<Longrightarrow> encode_sort a @ xs = encode_sort b @ ys \<Longrightarrow> a = b \<and> xs = ys"
proof (induction a arbitrary: b xs ys)
  case (SInt s)
  then show ?case by (cases b) (auto simp: int_srt.cut_iff)
next
  case SBool
  then show ?case by (cases b) auto
next
  case (SSlice e)
  from SSlice.prems obtain f where b: "b = SSlice f" by (cases b) auto
  have "e = f \<and> xs = ys" using SSlice.prems by (intro SSlice.IH) (simp_all add: b)
  then show ?case by (simp add: b)
next
  case (STuple es)
  from STuple.prems obtain fs where b: "b = STuple fs" by (cases b) auto
  from STuple.prems have "encode_varint (of_nat (length es)) @ (concat (map encode_sort es) @ xs) =
      encode_varint (of_nat (length fs)) @ (concat (map encode_sort fs) @ ys)" by (simp add: b)
  from varint.cut [OF _ _ this] have len: "(of_nat (length es) :: u64) = of_nat (length fs)"
    and tl: "concat (map encode_sort es) @ xs = concat (map encode_sort fs) @ ys" by simp_all
  have "short es" "short fs" using STuple.prems b by simp_all
  then have "length es = length fs"
    using of_nat_word_inj [where 'a = 64, of "length es" "length fs"] len by simp
  moreover have "e = f \<and> us = vs"
    if "e \<in> set es" "f \<in> set fs" "encode_sort e @ us = encode_sort f @ vs" for e f us vs
    using STuple.IH [OF that(1) _ _ that(3)] STuple.prems b that by (simp add: list_all_iff)
  ultimately have "es = fs \<and> xs = ys" using tl by (rule concat_map_cut)
  then show ?case by (simp add: b)
next
  case (SRecord n)
  then show ?case by (cases b) (auto simp: str.cut_iff)
next
  case (SSum n)
  then show ?case by (cases b) (auto simp: str.cut_iff)
qed

interpretation sort_code: prefix_code encode_sort srt_ok "(=)"
  by unfold_locales (auto dest: encode_sort_cut)

definition variable_ok :: "variable \<Rightarrow> bool" where
  "variable_ok v \<longleftrightarrow> short (v_name v) \<and> srt_ok (v_sort v)"

definition field_ok :: "field_ref \<Rightarrow> bool" where
  "field_ok f \<longleftrightarrow> short (fr_record f) \<and> short (fr_field f) \<and> srt_ok (fr_sort f)"

definition variant_ok :: "variant_ref \<Rightarrow> bool" where
  "variant_ok r \<longleftrightarrow> short (vr_sum r) \<and> short (vr_variant r)"

interpretation var_code: prefix_code "\<lambda>v. encode_str (v_name v) @ encode_sort (v_sort v)" variable_ok "(=)"
  by unfold_locales
    (auto simp: variable_ok_def str.cut_iff sort_code.cut_iff intro: variable.equality)

interpretation field_code: prefix_code encode_field_ref field_ok "(=)"
  by unfold_locales
    (auto simp: encode_field_ref_def field_ok_def str.cut_iff sort_code.cut_iff intro: field_ref.equality)

interpretation variant_code: prefix_code "\<lambda>r. encode_str (vr_sum r) @ encode_str (vr_variant r)" variant_ok "(=)"
  by unfold_locales (auto simp: variant_ok_def str.cut_iff intro: variant_ref.equality)

section \<open>Commutative equivalence\<close>

fun predicate_ok :: "predicate \<Rightarrow> bool" where
  "predicate_ok (PVar v) = variable_ok v"
| "predicate_ok (PIntLit _) = True"
| "predicate_ok (PBoolLit _) = True"
| "predicate_ok (PArith _ l r) = (predicate_ok l \<and> predicate_ok r)"
| "predicate_ok (PNeg p) = predicate_ok p"
| "predicate_ok (PMulLit _ e) = predicate_ok e"
| "predicate_ok (PDivLit e _) = predicate_ok e"
| "predicate_ok (PModLit e _) = predicate_ok e"
| "predicate_ok (PCmp _ l r) = (predicate_ok l \<and> predicate_ok r)"
| "predicate_ok (PBoolBinOp _ l r) = (predicate_ok l \<and> predicate_ok r)"
| "predicate_ok (PNot p) = predicate_ok p"
| "predicate_ok (PIf c t e) = (predicate_ok c \<and> predicate_ok t \<and> predicate_ok e)"
| "predicate_ok (PFieldProj b f) = (predicate_ok b \<and> field_ok f)"
| "predicate_ok (PSliceLen s) = predicate_ok s"
| "predicate_ok (PSliceIndex s i) = (predicate_ok s \<and> predicate_ok i)"
| "predicate_ok (PSliceStore s i v) = (predicate_ok s \<and> predicate_ok i \<and> predicate_ok v)"
| "predicate_ok (PCast v _) = predicate_ok v"
| "predicate_ok (PTagEq v r) = (predicate_ok v \<and> variant_ok r)"
| "predicate_ok (PForall b l u p) = (variable_ok b \<and> predicate_ok l \<and> predicate_ok u \<and> predicate_ok p)"
| "predicate_ok (PExists b l u p) = (variable_ok b \<and> predicate_ok l \<and> predicate_ok u \<and> predicate_ok p)"

text \<open>
  The least congruence that makes \<open>+\<close>, \<open>==\<close>, \<open>!=\<close>, \<open>&&\<close> and \<open>||\<close> commutative.
\<close>

inductive comm_eq :: "predicate \<Rightarrow> predicate \<Rightarrow> bool" where
  ce_refl: "comm_eq p p"
| ce_sym: "comm_eq p q \<Longrightarrow> comm_eq q p"
| ce_trans: "comm_eq p q \<Longrightarrow> comm_eq q r \<Longrightarrow> comm_eq p r"
| ce_add: "comm_eq (PArith Add l r) (PArith Add r l)"
| ce_cmp: "op = Eq \<or> op = Ne \<Longrightarrow> comm_eq (PCmp op l r) (PCmp op r l)"
| ce_bool: "comm_eq (PBoolBinOp bop l r) (PBoolBinOp bop r l)"
| cong_arith: "comm_eq l l' \<Longrightarrow> comm_eq r r' \<Longrightarrow> comm_eq (PArith aop l r) (PArith aop l' r')"
| cong_neg: "comm_eq p p' \<Longrightarrow> comm_eq (PNeg p) (PNeg p')"
| cong_mul: "comm_eq p p' \<Longrightarrow> comm_eq (PMulLit c p) (PMulLit c p')"
| cong_div: "comm_eq p p' \<Longrightarrow> comm_eq (PDivLit p c) (PDivLit p' c)"
| cong_mod: "comm_eq p p' \<Longrightarrow> comm_eq (PModLit p c) (PModLit p' c)"
| cong_cmp: "comm_eq l l' \<Longrightarrow> comm_eq r r' \<Longrightarrow> comm_eq (PCmp op l r) (PCmp op l' r')"
| cong_bool: "comm_eq l l' \<Longrightarrow> comm_eq r r' \<Longrightarrow> comm_eq (PBoolBinOp bop l r) (PBoolBinOp bop l' r')"
| cong_not: "comm_eq p p' \<Longrightarrow> comm_eq (PNot p) (PNot p')"
| cong_if: "comm_eq c c' \<Longrightarrow> comm_eq t t' \<Longrightarrow> comm_eq e e' \<Longrightarrow> comm_eq (PIf c t e) (PIf c' t' e')"
| cong_proj: "comm_eq b b' \<Longrightarrow> comm_eq (PFieldProj b f) (PFieldProj b' f)"
| cong_len: "comm_eq s s' \<Longrightarrow> comm_eq (PSliceLen s) (PSliceLen s')"
| cong_index: "comm_eq s s' \<Longrightarrow> comm_eq i i' \<Longrightarrow> comm_eq (PSliceIndex s i) (PSliceIndex s' i')"
| cong_store: "comm_eq s s' \<Longrightarrow> comm_eq i i' \<Longrightarrow> comm_eq v v' \<Longrightarrow>
    comm_eq (PSliceStore s i v) (PSliceStore s' i' v')"
| cong_cast: "comm_eq v v' \<Longrightarrow> comm_eq (PCast v to) (PCast v' to)"
| cong_tag: "comm_eq v v' \<Longrightarrow> comm_eq (PTagEq v w) (PTagEq v' w)"
| cong_forall: "comm_eq l l' \<Longrightarrow> comm_eq u u' \<Longrightarrow> comm_eq p p' \<Longrightarrow>
    comm_eq (PForall b l u p) (PForall b l' u' p')"
| cong_exists: "comm_eq l l' \<Longrightarrow> comm_eq u u' \<Longrightarrow> comm_eq p p' \<Longrightarrow>
    comm_eq (PExists b l u p) (PExists b l' u' p')"

lemma operands_swap: "encode_binary_operands True l r = encode_binary_operands True r l"
  by (auto simp: encode_binary_operands_def)

lemma comm_eq_enc: "comm_eq p q \<Longrightarrow> encode_predicate p = encode_predicate q"
proof (induction rule: comm_eq.induct)
  case (ce_cmp op l r)
  then show ?case using operands_swap by auto
qed (simp_all add: operands_swap)

lemma encode_predicate_nonempty [simp]: "encode_predicate p \<noteq> []"
  by (cases p) simp_all

text \<open>
  A term is recovered, up to commutativity, from any byte string its encoding begins.
\<close>

definition recovers :: "predicate \<Rightarrow> bool" where
  "recovers p \<longleftrightarrow> (\<forall>q xs ys. predicate_ok q \<longrightarrow>
     encode_predicate p @ xs = encode_predicate q @ ys \<longrightarrow> comm_eq p q)"

lemma recoversD:
  assumes "recovers p" "predicate_ok q" "encode_predicate p @ xs = encode_predicate q @ ys"
  shows "comm_eq p q" "xs = ys"
proof -
  show "comm_eq p q" using assms unfolding recovers_def by blast
  from comm_eq_enc [OF this] assms(3) show "xs = ys" by simp
qed

lemma recovers_two:
  assumes "recovers a" "recovers b" "predicate_ok a'" "predicate_ok b'"
    and "encode_predicate a @ encode_predicate b @ xs = encode_predicate a' @ encode_predicate b' @ ys"
  shows "comm_eq a a'" "comm_eq b b'" "xs = ys"
proof -
  note a = recoversD [OF assms(1,3,5)]
  from a(1) show "comm_eq a a'" .
  from recoversD [OF assms(2,4) a(2)] show "comm_eq b b'" "xs = ys" by blast+
qed

lemma recovers_three:
  assumes "recovers a" "recovers b" "recovers c" "predicate_ok a'" "predicate_ok b'" "predicate_ok c'"
    and "encode_predicate a @ encode_predicate b @ encode_predicate c @ xs =
      encode_predicate a' @ encode_predicate b' @ encode_predicate c' @ ys"
  shows "comm_eq a a'" "comm_eq b b'" "comm_eq c c'"
proof -
  note ab = recovers_two [OF assms(1,2,4,5,7)]
  from ab(1,2) show "comm_eq a a'" "comm_eq b b'" by blast+
  from recoversD [OF assms(3,6) ab(3)] show "comm_eq c c'" by blast
qed

text \<open>A sorted pair of operand encodings is recovered up to order.\<close>

lemma operands_cut:
  assumes rec: "recovers l" "recovers r" and ok: "predicate_ok l'" "predicate_ok r'"
    and eq: "encode_binary_operands c (encode_predicate l) (encode_predicate r) @ xs =
      encode_binary_operands c (encode_predicate l') (encode_predicate r') @ ys"
  shows "comm_eq l l' \<and> comm_eq r r' \<or> c \<and> comm_eq l r' \<and> comm_eq r l'"
proof -
  consider "encode_predicate l @ encode_predicate r @ xs = encode_predicate l' @ encode_predicate r' @ ys"
    | "c" "encode_predicate l @ encode_predicate r @ xs = encode_predicate r' @ encode_predicate l' @ ys"
    | "c" "encode_predicate r @ encode_predicate l @ xs = encode_predicate l' @ encode_predicate r' @ ys"
    | "encode_predicate r @ encode_predicate l @ xs = encode_predicate r' @ encode_predicate l' @ ys"
    using eq unfolding encode_binary_operands_def by (auto simp only: if_True if_False append_assoc split: if_splits)
  then show ?thesis
  proof cases
    case 1
    from recovers_two [OF rec ok this] show ?thesis by blast
  next
    case 2
    from recovers_two [OF rec ok(2,1) 2(2)] 2(1) show ?thesis by blast
  next
    case 3
    from recovers_two [OF rec(2,1) ok 3(2)] 3(1) show ?thesis by blast
  next
    case 4
    from recovers_two [OF rec(2,1) ok(2,1) this] show ?thesis by blast
  qed
qed

lemma recoversI:
  assumes "\<And>q xs ys. predicate_ok q \<Longrightarrow> encode_predicate p @ xs = encode_predicate q @ ys \<Longrightarrow> comm_eq p q"
  shows "recovers p"
  using assms unfolding recovers_def by blast

lemma recovers_arith:
  assumes "recovers l" "recovers r"
  shows "recovers (PArith op l r)"
proof (rule recoversI)
  fix q xs ys
  assume *: "predicate_ok q" "encode_predicate (PArith op l r) @ xs = encode_predicate q @ ys"
  then obtain l' r' where q: "q = PArith op l' r'" by (cases q) (simp_all add: codec_simps)
  have "comm_eq l l' \<and> comm_eq r r' \<or> op = Add \<and> comm_eq l r' \<and> comm_eq r l'"
    by (rule operands_cut [OF assms, of l' r' "op = Add" xs ys]) (use * q in simp_all)
  then show "comm_eq (PArith op l r) q"
    unfolding q by (blast intro: cong_arith ce_trans [OF cong_arith ce_add])
qed

lemma recovers_cmp:
  assumes "recovers l" "recovers r"
  shows "recovers (PCmp op l r)"
proof (rule recoversI)
  fix q xs ys
  assume *: "predicate_ok q" "encode_predicate (PCmp op l r) @ xs = encode_predicate q @ ys"
  then obtain l' r' where q: "q = PCmp op l' r'" by (cases q) (simp_all add: codec_simps)
  have "comm_eq l l' \<and> comm_eq r r' \<or> (op = Eq \<or> op = Ne) \<and> comm_eq l r' \<and> comm_eq r l'"
    by (rule operands_cut [OF assms, of l' r' "op = Eq \<or> op = Ne" xs ys]) (use * q in simp_all)
  then show "comm_eq (PCmp op l r) q"
    unfolding q by (blast intro: cong_cmp ce_trans [OF cong_cmp ce_cmp])
qed

lemma recovers_bool:
  assumes "recovers l" "recovers r"
  shows "recovers (PBoolBinOp op l r)"
proof (rule recoversI)
  fix q xs ys
  assume *: "predicate_ok q" "encode_predicate (PBoolBinOp op l r) @ xs = encode_predicate q @ ys"
  then obtain l' r' where q: "q = PBoolBinOp op l' r'" by (cases q) (simp_all add: codec_simps)
  have "comm_eq l l' \<and> comm_eq r r' \<or> True \<and> comm_eq l r' \<and> comm_eq r l'"
    by (rule operands_cut [OF assms, of l' r' True xs ys]) (use * q in simp_all)
  then show "comm_eq (PBoolBinOp op l r) q"
    unfolding q by (blast intro: cong_bool ce_trans [OF cong_bool ce_bool])
qed

lemma recovers_leaf:
  assumes "predicate_ok p" and "p = PVar v \<or> p = PIntLit n \<or> p = PBoolLit b"
  shows "recovers p"
proof (rule recoversI)
  fix q xs ys
  assume *: "predicate_ok q" "encode_predicate p @ xs = encode_predicate q @ ys"
  from assms(2) consider "p = PVar v" | "p = PIntLit n" | "p = PBoolLit b" by blast
  then have "p = q"
  proof cases
    case 1
    with * assms(1) show ?thesis
      by (cases q) (simp_all add: codec_simps var_code.cut_iff [simplified append_assoc])
  next
    case 2
    with * show ?thesis by (cases q) (simp_all add: codec_simps lit.cut_iff)
  next
    case 3
    with * show ?thesis by (cases q) (simp_all add: codec_simps split: if_splits)
  qed
  then show "comm_eq p q" by (simp add: ce_refl)
qed

lemma recovers_lit:
  assumes "recovers p" "predicate_ok p'"
    and "encode_predicate p @ encode_int_lit c @ xs = encode_predicate p' @ encode_int_lit c' @ ys"
  shows "comm_eq p p' \<and> c = c'"
  using recoversD [OF assms] by (simp add: lit.cut_iff)

lemma recovers_neg:
  assumes "recovers p"
  shows "recovers (PNeg p)"
proof (rule recoversI)
  fix q xs ys
  assume *: "predicate_ok q" "encode_predicate (PNeg p) @ xs = encode_predicate q @ ys"
  then obtain p' where q: "q = PNeg p'" by (cases q) (simp_all add: codec_simps)
  show "comm_eq (PNeg p) q" unfolding q by (rule cong_neg, rule recoversD(1) [OF assms, of _ xs ys]) (use * q in simp_all)
qed

lemma recovers_not:
  assumes "recovers p"
  shows "recovers (PNot p)"
proof (rule recoversI)
  fix q xs ys
  assume *: "predicate_ok q" "encode_predicate (PNot p) @ xs = encode_predicate q @ ys"
  then obtain p' where q: "q = PNot p'" by (cases q) (simp_all add: codec_simps)
  show "comm_eq (PNot p) q" unfolding q by (rule cong_not, rule recoversD(1) [OF assms, of _ xs ys]) (use * q in simp_all)
qed

lemma recovers_len:
  assumes "recovers p"
  shows "recovers (PSliceLen p)"
proof (rule recoversI)
  fix q xs ys
  assume *: "predicate_ok q" "encode_predicate (PSliceLen p) @ xs = encode_predicate q @ ys"
  then obtain p' where q: "q = PSliceLen p'" by (cases q) (simp_all add: codec_simps)
  show "comm_eq (PSliceLen p) q" unfolding q by (rule cong_len, rule recoversD(1) [OF assms, of _ xs ys]) (use * q in simp_all)
qed

lemma recovers_mul:
  assumes "recovers p"
  shows "recovers (PMulLit c p)"
proof (rule recoversI)
  fix q xs ys
  assume *: "predicate_ok q" "encode_predicate (PMulLit c p) @ xs = encode_predicate q @ ys"
  then obtain c' p' where q: "q = PMulLit c' p'" by (cases q) (simp_all add: codec_simps)
  with * have c: "c = c'" and e: "encode_predicate p @ xs = encode_predicate p' @ ys"
    by (simp_all add: lit.cut_iff)
  show "comm_eq (PMulLit c p) q" unfolding q c by (rule cong_mul, rule recoversD(1) [OF assms _ e]) (use * q in simp)
qed

lemma recovers_div:
  assumes "recovers p"
  shows "recovers (PDivLit p c)"
proof (rule recoversI)
  fix q xs ys
  assume *: "predicate_ok q" "encode_predicate (PDivLit p c) @ xs = encode_predicate q @ ys"
  then obtain c' p' where q: "q = PDivLit p' c'" by (cases q) (simp_all add: codec_simps)
  have "comm_eq p p' \<and> c = c'" by (rule recovers_lit [OF assms, of p' c xs c' ys]) (use * q in simp_all)
  then show "comm_eq (PDivLit p c) q" unfolding q by (blast intro: cong_div)
qed

lemma recovers_mod:
  assumes "recovers p"
  shows "recovers (PModLit p c)"
proof (rule recoversI)
  fix q xs ys
  assume *: "predicate_ok q" "encode_predicate (PModLit p c) @ xs = encode_predicate q @ ys"
  then obtain c' p' where q: "q = PModLit p' c'" by (cases q) (simp_all add: codec_simps)
  have "comm_eq p p' \<and> c = c'" by (rule recovers_lit [OF assms, of p' c xs c' ys]) (use * q in simp_all)
  then show "comm_eq (PModLit p c) q" unfolding q by (blast intro: cong_mod)
qed

lemma recovers_cast:
  assumes "recovers p"
  shows "recovers (PCast p to)"
proof (rule recoversI)
  fix q xs ys
  assume *: "predicate_ok q" "encode_predicate (PCast p to) @ xs = encode_predicate q @ ys"
  then obtain p' to' where q: "q = PCast p' to'" by (cases q) (simp_all add: codec_simps)
  have "comm_eq p p'" "encode_int_sort to @ xs = encode_int_sort to' @ ys"
    by (rule recoversD [OF assms, of p' "encode_int_sort to @ xs" "encode_int_sort to' @ ys"]; use * q in simp)+
  then show "comm_eq (PCast p to) q" unfolding q by (simp add: int_srt.cut_iff cong_cast)
qed

lemma recovers_proj:
  assumes "recovers p" "field_ok f"
  shows "recovers (PFieldProj p f)"
proof (rule recoversI)
  fix q xs ys
  assume *: "predicate_ok q" "encode_predicate (PFieldProj p f) @ xs = encode_predicate q @ ys"
  then obtain p' f' where q: "q = PFieldProj p' f'" by (cases q) (simp_all add: codec_simps)
  have "comm_eq p p'" "encode_field_ref f @ xs = encode_field_ref f' @ ys"
    by (rule recoversD [OF assms(1), of p' "encode_field_ref f @ xs" "encode_field_ref f' @ ys"]; use * q in simp)+
  with assms(2) * show "comm_eq (PFieldProj p f) q" unfolding q by (simp add: field_code.cut_iff cong_proj)
qed

lemma recovers_tag:
  assumes "recovers p" "variant_ok v"
  shows "recovers (PTagEq p v)"
proof (rule recoversI)
  fix q xs ys
  assume *: "predicate_ok q" "encode_predicate (PTagEq p v) @ xs = encode_predicate q @ ys"
  then obtain p' v' where q: "q = PTagEq p' v'" by (cases q) (simp_all add: codec_simps)
  let ?e = "\<lambda>r. encode_str (vr_sum r) @ encode_str (vr_variant r)"
  have c: "comm_eq p p'" and e: "?e v @ xs = ?e v' @ ys"
    by (rule recoversD [OF assms(1), of p' "?e v @ xs" "?e v' @ ys"]; use * q in simp)+
  have "v = v'" by (rule variant_code.prefix [OF assms(2) _ e]) (use * q in simp)
  with c show "comm_eq (PTagEq p v) q" unfolding q by (simp add: cong_tag)
qed

lemma recovers_index:
  assumes "recovers s" "recovers i"
  shows "recovers (PSliceIndex s i)"
proof (rule recoversI)
  fix q xs ys
  assume *: "predicate_ok q" "encode_predicate (PSliceIndex s i) @ xs = encode_predicate q @ ys"
  then obtain s' i' where q: "q = PSliceIndex s' i'" by (cases q) (simp_all add: codec_simps)
  have "comm_eq s s'" "comm_eq i i'"
    by (rule recovers_two [OF assms, of s' i' xs ys]; use * q in simp)+
  then show "comm_eq (PSliceIndex s i) q" unfolding q by (rule cong_index)
qed

lemma recovers_store:
  assumes "recovers s" "recovers i" "recovers v"
  shows "recovers (PSliceStore s i v)"
proof (rule recoversI)
  fix q xs ys
  assume *: "predicate_ok q" "encode_predicate (PSliceStore s i v) @ xs = encode_predicate q @ ys"
  then obtain s' i' v' where q: "q = PSliceStore s' i' v'" by (cases q) (simp_all add: codec_simps)
  have "comm_eq s s'" "comm_eq i i'" "comm_eq v v'"
    by (rule recovers_three [OF assms, of s' i' v' xs ys]; use * q in simp)+
  then show "comm_eq (PSliceStore s i v) q" unfolding q by (rule cong_store)
qed

lemma recovers_if:
  assumes "recovers s" "recovers i" "recovers v"
  shows "recovers (PIf s i v)"
proof (rule recoversI)
  fix q xs ys
  assume *: "predicate_ok q" "encode_predicate (PIf s i v) @ xs = encode_predicate q @ ys"
  then obtain s' i' v' where q: "q = PIf s' i' v'" by (cases q) (simp_all add: codec_simps)
  have "comm_eq s s'" "comm_eq i i'" "comm_eq v v'"
    by (rule recovers_three [OF assms, of s' i' v' xs ys]; use * q in simp)+
  then show "comm_eq (PIf s i v) q" unfolding q by (rule cong_if)
qed

lemma recovers_quantifiers:
  assumes "variable_ok b" "recovers l" "recovers u" "recovers p"
  shows "recovers (PForall b l u p)" "recovers (PExists b l u p)"
proof -
  let ?v = "\<lambda>b. encode_str (v_name b) @ encode_sort (v_sort b)"
  have quant: "b = b' \<and> comm_eq l l' \<and> comm_eq u u' \<and> comm_eq p p'"
    if ok: "variable_ok b'" "predicate_ok l'" "predicate_ok u'" "predicate_ok p'"
      and eq: "?v b @ encode_predicate l @ encode_predicate u @ encode_predicate p @ xs =
        ?v b' @ encode_predicate l' @ encode_predicate u' @ encode_predicate p' @ ys"
    for b' l' u' p' xs ys
  proof -
    from var_code.cut [OF assms(1) ok(1) eq] have "b = b'"
      and e: "encode_predicate l @ encode_predicate u @ encode_predicate p @ xs =
        encode_predicate l' @ encode_predicate u' @ encode_predicate p' @ ys" by blast+
    with recovers_three [OF assms(2-4) ok(2-4) e] show ?thesis by blast
  qed
  show "recovers (PForall b l u p)"
  proof (rule recoversI)
    fix q xs ys
    assume *: "predicate_ok q" "encode_predicate (PForall b l u p) @ xs = encode_predicate q @ ys"
    then obtain b' l' u' p' where q: "q = PForall b' l' u' p'" by (cases q) (simp_all add: codec_simps)
    have "b = b' \<and> comm_eq l l' \<and> comm_eq u u' \<and> comm_eq p p'"
      by (rule quant [of b' l' u' p' xs ys]) (use * q in simp_all)
    then show "comm_eq (PForall b l u p) q" unfolding q by (blast intro: cong_forall)
  qed
  show "recovers (PExists b l u p)"
  proof (rule recoversI)
    fix q xs ys
    assume *: "predicate_ok q" "encode_predicate (PExists b l u p) @ xs = encode_predicate q @ ys"
    then obtain b' l' u' p' where q: "q = PExists b' l' u' p'" by (cases q) (simp_all add: codec_simps)
    have "b = b' \<and> comm_eq l l' \<and> comm_eq u u' \<and> comm_eq p p'"
      by (rule quant [of b' l' u' p' xs ys]) (use * q in simp_all)
    then show "comm_eq (PExists b l u p) q" unfolding q by (blast intro: cong_exists)
  qed
qed

lemmas recovers_intros =
  recovers_arith recovers_cmp recovers_bool recovers_neg recovers_not recovers_len recovers_mul
  recovers_div recovers_mod recovers_cast recovers_proj recovers_tag recovers_index recovers_store
  recovers_if recovers_quantifiers

lemma recovers_all: "predicate_ok p \<Longrightarrow> recovers p"
proof (induction p)
  case (PVar v)
  then show ?case by (intro recovers_leaf) auto
next
  case (PIntLit n)
  then show ?case by (intro recovers_leaf) auto
next
  case (PBoolLit b)
  then show ?case by (intro recovers_leaf) auto
qed (simp_all add: recovers_intros)

interpretation pred_code: prefix_code encode_predicate predicate_ok comm_eq
proof unfold_locales
  show "comm_eq a b" if "predicate_ok a" "predicate_ok b" "encode_predicate a @ xs = encode_predicate b @ ys"
    for a b xs ys
    by (rule recoversD(1) [OF recovers_all [OF that(1)] that(2,3)])
qed (rule comm_eq_enc)


section \<open>Contexts\<close>

lemma sort_map_key: "sort (map f xs) = map f (sort_key f xs)"
  by (rule properties_for_sort) simp_all

lemma mset_map_eq_permute:
  assumes "mset (map f xs) = mset (map f ys)"
  shows "\<exists>zs. mset zs = mset ys \<and> map f xs = map f zs"
  using assms
proof (induction xs arbitrary: ys)
  case (Cons x xs)
  have "f x \<in> set (map f ys)" using Cons.prems by (metis list.set_intros(1) list.simps(9) set_mset_mset)
  then obtain y where y: "y \<in> set ys" "f y = f x" by auto
  have "mset (map f xs) = mset (map f (remove1 y ys))"
    using y by (simp add: image_mset_Diff Cons.prems [symmetric, simplified])
  from Cons.IH [OF this] obtain zs where "mset zs = mset (remove1 y ys)" "map f xs = map f zs" by blast
  with y show ?case by (intro exI [of _ "y # zs"]) simp
qed simp

lemma canonical_context_mset:
  assumes "list_all predicate_ok ps" "list_all predicate_ok qs"
  shows "canonical_context ps = canonical_context qs \<longleftrightarrow>
    mset (map encode_predicate ps) = mset (map encode_predicate qs)"
proof
  let ?s = "\<lambda>ps. sort_key encode_predicate ps"
  assume "canonical_context ps = canonical_context qs"
  then have eq: "sep_join CONTEXT_SEPARATOR (map encode_predicate (?s ps)) =
      sep_join CONTEXT_SEPARATOR (map encode_predicate (?s qs))"
    by (simp add: canonical_context_def canonical_predicate_def sort_map_key [symmetric] fun_eq_iff cong: map_cong)
  have ok: "list_all predicate_ok (?s ps)" "list_all predicate_ok (?s qs)"
    using assms by (simp_all add: list_all_iff)
  have "list_all2 comm_eq (?s ps) (?s qs)"
    by (rule pred_code.sep_join_inj [OF ok _ eq]) simp
  then have "map encode_predicate (?s ps) = map encode_predicate (?s qs)"
    by (induction rule: list_all2_induct) (simp_all add: comm_eq_enc)
  then have "mset (map encode_predicate (?s ps)) = mset (map encode_predicate (?s qs))" by (rule arg_cong)
  then show "mset (map encode_predicate ps) = mset (map encode_predicate qs)" by simp
next
  assume "mset (map encode_predicate ps) = mset (map encode_predicate qs)"
  then have "sort (map encode_predicate ps) = sort (map encode_predicate qs)"
    by (metis mset_sort properties_for_sort sorted_sort)
  then show "canonical_context ps = canonical_context qs"
    by (simp add: canonical_context_def canonical_predicate_def cong: map_cong)
qed

definition same_context :: "predicate list \<Rightarrow> predicate list \<Rightarrow> bool" where
  "same_context ps qs \<longleftrightarrow> (\<exists>rs. mset rs = mset qs \<and> list_all2 comm_eq ps rs)"

lemma same_context_iff:
  assumes "list_all predicate_ok ps" "list_all predicate_ok qs"
  shows "same_context ps qs \<longleftrightarrow> mset (map encode_predicate ps) = mset (map encode_predicate qs)"
proof
  assume "same_context ps qs"
  then obtain rs where rs: "mset rs = mset qs" "list_all2 comm_eq ps rs" by (auto simp: same_context_def)
  from rs(2) have "map encode_predicate ps = map encode_predicate rs"
    by (induction rule: list_all2_induct) (simp_all add: comm_eq_enc)
  then show "mset (map encode_predicate ps) = mset (map encode_predicate qs)"
    by (metis mset_map rs(1))
next
  assume "mset (map encode_predicate ps) = mset (map encode_predicate qs)"
  from mset_map_eq_permute [OF this] obtain rs where rs: "mset rs = mset qs"
    "map encode_predicate ps = map encode_predicate rs" by blast
  have "list_all predicate_ok rs" using assms(2) rs(1) by (metis list_all_iff set_mset_mset)
  with rs(2) assms(1) have "list_all2 comm_eq ps rs"
  proof (induction ps arbitrary: rs)
    case (Cons p ps)
    then show ?case by (cases rs) (auto simp: pred_code.enc_eq_iff)
  qed simp
  with rs(1) show "same_context ps qs" by (auto simp: same_context_def)
qed


section \<open>Exactness of the canonical forms\<close>

text \<open>C33: On predicates whose names and tuples are shorter than \<open>2 ^ 64\<close> the canonical byte
  forms of two predicates are equal exactly when the predicates are related by the least congruence
  that makes \<open>+\<close>, \<open>==\<close>, \<open>!=\<close>, \<open>&&\<close> and \<open>||\<close> commutative; and no canonical form is a proper prefix of
  another.\<close>
theorem canonical_predicate_exact:
  assumes "predicate_ok p" "predicate_ok q"
  shows "(canonical_predicate p = canonical_predicate q \<longleftrightarrow> comm_eq p q) \<and>
    (canonical_predicate p @ xs = canonical_predicate q @ ys \<longrightarrow> comm_eq p q \<and> xs = ys)"
  unfolding canonical_predicate_def
  using pred_code.enc_eq_iff [OF assms] pred_code.cut [OF assms] by blast

definition demo_i32 :: "u8 \<Rightarrow> predicate" where
  "demo_i32 c = PVar \<lparr>v_name = [c], v_sort = SInt \<lparr>is_width = W32, is_signed = True\<rparr>\<rparr>"

lemma demo_i32_ok: "predicate_ok (demo_i32 c)"
  by (simp add: demo_i32_def variable_ok_def)

theorem canonical_predicate_exact_witness:
  "canonical_predicate (PArith Add (demo_i32 120) (demo_i32 121)) =
     canonical_predicate (PArith Add (demo_i32 121) (demo_i32 120))"
  using canonical_predicate_exact [of "PArith Add (demo_i32 120) (demo_i32 121)"
      "PArith Add (demo_i32 121) (demo_i32 120)"] ce_add
  by (simp add: demo_i32_ok)

text \<open>C34: The canonical bytes of two assumption contexts are equal exactly when one is a
  permutation of the other up to commutativity of the operators: the \<open>0xFF\<close> separator loses nothing,
  duplicates count, and the order in which assumptions were collected is irrelevant.\<close>
theorem canonical_context_exact:
  assumes "list_all predicate_ok ps" "list_all predicate_ok qs"
  shows "canonical_context ps = canonical_context qs \<longleftrightarrow>
    (\<exists>rs. mset rs = mset qs \<and> list_all2 comm_eq ps rs)"
  using canonical_context_mset [OF assms] same_context_iff [OF assms] unfolding same_context_def by simp

theorem canonical_context_exact_witness:
  "canonical_context [demo_i32 120, PBoolLit True] = canonical_context [PBoolLit True, demo_i32 120]"
proof (rule canonical_context_exact [THEN iffD2])
  show "list_all predicate_ok [demo_i32 120, PBoolLit True]"
    "list_all predicate_ok [PBoolLit True, demo_i32 120]" by (simp_all add: demo_i32_ok)
  show "\<exists>rs. mset rs = mset [PBoolLit True, demo_i32 120] \<and>
      list_all2 comm_eq [demo_i32 120, PBoolLit True] rs"
    by (rule exI [of _ "[demo_i32 120, PBoolLit True]"]) (simp add: ce_refl)
qed

text \<open>A varint may well start with the separator byte: the length 255 does. What keeps the separator
  unambiguous is that predicate encodings are prefix free.\<close>

lemma varint_starts_with_separator: "encode_varint 255 = [CONTEXT_SEPARATOR, 1]"
  by (simp add: encode_varint.simps CONTEXT_SEPARATOR_def Let_def drop_bit_eq_div)

end
