(* ===== verification/Refine_Obligation.thy ===== *)
theory Refine_Obligation
  imports Refine_Predicate Source_Map
begin

text \<open>
  Proof obligations (\<^verbatim>\<open>crates/edda-refine/src/obligation.rs\<close>), the annotations that route them
  (\<^verbatim>\<open>annotation.rs\<close>) and the rendering of predicates for diagnostics
  (\<^verbatim>\<open>predicate/display.rs\<close>). Rendered text is UTF-8 bytes; \<open>ascii\<close> gives the bytes of a literal.
\<close>

definition ascii :: "string \<Rightarrow> bytes" where
  "ascii s = map of_char s"

section \<open>Display\<close>

fun display_arith_op :: "arith_op \<Rightarrow> bytes" where
  "display_arith_op Add = ascii ''+''"
| "display_arith_op Sub = ascii ''-''"

fun display_cmp_op :: "cmp_op \<Rightarrow> bytes" where
  "display_cmp_op Eq = ascii ''==''"
| "display_cmp_op Ne = ascii ''!=''"
| "display_cmp_op Lt = ascii ''<''"
| "display_cmp_op Le = ascii ''<=''"
| "display_cmp_op Gt = ascii ''>''"
| "display_cmp_op Ge = ascii ''>=''"

fun display_bool_binop :: "bool_binop \<Rightarrow> bytes" where
  "display_bool_binop And = ascii ''&&''"
| "display_bool_binop Or = ascii ''||''"

fun display_int_lit_value :: "int_lit_value \<Rightarrow> bytes" where
  "display_int_lit_value (LSigned v) =
     (if sint v < 0 then ascii (''-'' @ dec_nat (nat (- sint v))) else ascii (dec_nat (nat (sint v))))"
| "display_int_lit_value (LUnsigned v) = ascii (dec_nat (unat v))"

fun display_predicate :: "predicate \<Rightarrow> bytes" where
  "display_predicate (PVar v) = v_name v"
| "display_predicate (PIntLit l) = display_int_lit_value (il_value l)"
| "display_predicate (PBoolLit b) = (if b then ascii ''true'' else ascii ''false'')"
| "display_predicate (PArith op l r) = ascii ''('' @ display_predicate l @ ascii '' '' @
     display_arith_op op @ ascii '' '' @ display_predicate r @ ascii '')''"
| "display_predicate (PNeg p) = ascii ''(-'' @ display_predicate p @ ascii '')''"
| "display_predicate (PMulLit c e) = ascii ''('' @ display_int_lit_value (il_value c) @ ascii '' * '' @
     display_predicate e @ ascii '')''"
| "display_predicate (PDivLit e c) = ascii ''('' @ display_predicate e @ ascii '' / '' @
     display_int_lit_value (il_value c) @ ascii '')''"
| "display_predicate (PModLit e c) = ascii ''('' @ display_predicate e @ ascii '' % '' @
     display_int_lit_value (il_value c) @ ascii '')''"
| "display_predicate (PCmp op l r) = ascii ''('' @ display_predicate l @ ascii '' '' @
     display_cmp_op op @ ascii '' '' @ display_predicate r @ ascii '')''"
| "display_predicate (PBoolBinOp op l r) = ascii ''('' @ display_predicate l @ ascii '' '' @
     display_bool_binop op @ ascii '' '' @ display_predicate r @ ascii '')''"
| "display_predicate (PNot p) = ascii ''!'' @ display_predicate p"
| "display_predicate (PIf c t e) = ascii ''(if '' @ display_predicate c @ ascii '' then '' @
     display_predicate t @ ascii '' else '' @ display_predicate e @ ascii '')''"
| "display_predicate (PFieldProj b f) = display_predicate b @ ascii ''.'' @ fr_field f"
| "display_predicate (PSliceLen s) = display_predicate s @ ascii ''.len()''"
| "display_predicate (PSliceIndex s i) =
     display_predicate s @ ascii ''['' @ display_predicate i @ ascii '']''"
| "display_predicate (PSliceStore s i v) = ascii ''store('' @ display_predicate s @ ascii '', '' @
     display_predicate i @ ascii '', '' @ display_predicate v @ ascii '')''"
| "display_predicate (PCast v to) =
     ascii ''('' @ display_predicate v @ ascii '' as '' @ ascii (type_name to) @ ascii '')''"
| "display_predicate (PTagEq v r) = ascii ''('' @ display_predicate v @ ascii '' == '' @
     vr_sum r @ ascii ''.'' @ vr_variant r @ ascii '')''"
| "display_predicate (PForall b l u p) = ascii ''(forall '' @ v_name b @ ascii '' in '' @
     display_predicate l @ ascii ''..<'' @ display_predicate u @ ascii '': '' @
     display_predicate p @ ascii '')''"
| "display_predicate (PExists b l u p) = ascii ''(exists '' @ v_name b @ ascii '' in '' @
     display_predicate l @ ascii ''..<'' @ display_predicate u @ ascii '': '' @
     display_predicate p @ ascii '')''"

section \<open>Annotations and routes\<close>

record unverified_annotation =
  ua_reason :: bytes
  ua_function_site :: span

record trust_annotation =
  ta_reason :: bytes
  ta_obligation_site :: span

datatype annotation_error = EmptyReason

definition unverified_annotation_new ::
  "bytes \<Rightarrow> span \<Rightarrow> annotation_error + unverified_annotation" where
  "unverified_annotation_new reason site =
     (if reason = [] then Inl EmptyReason
      else Inr \<lparr>ua_reason = reason, ua_function_site = site\<rparr>)"

definition trust_annotation_new :: "bytes \<Rightarrow> span \<Rightarrow> annotation_error + trust_annotation" where
  "trust_annotation_new reason site =
     (if reason = [] then Inl EmptyReason
      else Inr \<lparr>ta_reason = reason, ta_obligation_site = site\<rparr>)"

datatype discharge_route =
    RSmt
  | RUnverified unverified_annotation
  | RTrust trust_annotation
  | RComptime
  | RImplicit

section \<open>Obligations\<close>

datatype obligation_kind =
    DivByZero
  | ModByZero
  | SliceBound
  | NarrowingCast int_sort int_sort
  | RequiresAtCall bytes u32
  | EnsuresAtReturn u32
  | FieldInvariant field_ref
  | VariantPayloadInvariant variant_ref bytes
  | TerminationDecreases bytes u32
  | GradedBound bytes bytes

datatype refine_diagnostic_class = EffectGradedBoundExceeded | RefinementUnproven

fun obligation_diagnostic_class :: "obligation_kind \<Rightarrow> refine_diagnostic_class" where
  "obligation_diagnostic_class (GradedBound _ _) = EffectGradedBoundExceeded"
| "obligation_diagnostic_class _ = RefinementUnproven"

definition dec_u32 :: "u32 \<Rightarrow> bytes" where
  "dec_u32 n = ascii (dec_nat (unat n))"

fun obligation_header :: "obligation_kind \<Rightarrow> bytes" where
  "obligation_header DivByZero = ascii ''division by zero''"
| "obligation_header ModByZero = ascii ''modulus by zero''"
| "obligation_header SliceBound = ascii ''slice index out of bounds''"
| "obligation_header (NarrowingCast from to) =
     ascii ''narrowing cast from '' @ ascii (type_name from) @ ascii '' to '' @ ascii (type_name to)"
| "obligation_header (RequiresAtCall callee i) =
     ascii ''requires clause '' @ dec_u32 i @ ascii '' of `'' @ callee @ ascii ''`''"
| "obligation_header (EnsuresAtReturn i) = ascii ''ensures clause '' @ dec_u32 i"
| "obligation_header (FieldInvariant f) =
     ascii ''field invariant on `'' @ fr_record f @ ascii ''.'' @ fr_field f @ ascii ''`''"
| "obligation_header (VariantPayloadInvariant v payload_field) =
     ascii ''payload invariant on `'' @ vr_sum v @ ascii ''.'' @ vr_variant v @ ascii ''.'' @
       payload_field @ ascii ''`''"
| "obligation_header (TerminationDecreases callee i) =
     ascii ''termination measure (`'' @ callee @ ascii ''`, sub-obligation '' @ dec_u32 i @ ascii '')''"
| "obligation_header (GradedBound kind callee) =
     ascii ''graded '' @ kind @ ascii '' bound exceeded by `'' @ callee @ ascii ''`''"

record obligation =
  ob_goal :: predicate
  ob_context :: "predicate list"
  ob_site :: span
  ob_kind :: obligation_kind
  ob_predicate_text :: bytes
  ob_route :: discharge_route

definition obligation_new ::
  "predicate \<Rightarrow> predicate list \<Rightarrow> span \<Rightarrow> obligation_kind \<Rightarrow> bytes \<Rightarrow> obligation" where
  "obligation_new goal context site kind predicate_text =
     \<lparr>ob_goal = goal, ob_context = context, ob_site = site, ob_kind = kind,
      ob_predicate_text = (if predicate_text = [] then display_predicate goal else predicate_text),
      ob_route = RSmt\<rparr>"

definition with_route :: "discharge_route \<Rightarrow> obligation \<Rightarrow> obligation" where
  "with_route route ob = ob\<lparr>ob_route := route\<rparr>"

end
