(* ===== verification/Certificate.thy ===== *)
theory Certificate
  imports Predicate_Canonical Refine_Obligation
begin

text \<open>
  Proof certificates (\<^verbatim>\<open>crates/edda-refine/src/certificate.rs\<close>, \<^verbatim>\<open>certificate_mint.rs\<close>): the
  witness variants, the wire format and the minting functions that stamp the obligation and context
  hashes. The theory shows that the wire format loses nothing and that two minted certificates carry the same cache key
  exactly when their obligations are the same up to commutativity and the order of assumptions.
\<close>

datatype smt_solver_id = Z3 | Cvc5 | Yices

fun solver_byte :: "smt_solver_id \<Rightarrow> u8" where
  "solver_byte Z3 = 0x00"
| "solver_byte Cvc5 = 0x01"
| "solver_byte Yices = 0x02"

datatype comptime_witness_kind =
  KBool | KInt | KFloat | KType | KTuple | KRecord | KSumVariant | KUnit

fun kind_byte :: "comptime_witness_kind \<Rightarrow> u8" where
  "kind_byte KBool = 0x00"
| "kind_byte KInt = 0x01"
| "kind_byte KFloat = 0x02"
| "kind_byte KType = 0x03"
| "kind_byte KTuple = 0x04"
| "kind_byte KRecord = 0x05"
| "kind_byte KSumVariant = 0x06"
| "kind_byte KUnit = 0xFF"

datatype certificate_witness =
    Smt smt_solver_id bytes bytes
  | Comptime comptime_witness_kind bytes
  | Implicit
  | Unverified bytes span
  | Trust bytes span

fun discriminant_byte :: "certificate_witness \<Rightarrow> u8" where
  "discriminant_byte (Smt _ _ _) = 0x00"
| "discriminant_byte (Comptime _ _) = 0x01"
| "discriminant_byte Implicit = 0x02"
| "discriminant_byte (Unverified _ _) = 0x03"
| "discriminant_byte (Trust _ _) = 0x04"

record proof_certificate =
  pc_format_version :: u8
  pc_obligation_hash :: bytes
  pc_context_hash :: bytes
  pc_witness :: certificate_witness

definition CERTIFICATE_FORMAT_VERSION :: u8 where "CERTIFICATE_FORMAT_VERSION = 0x01"

definition Z3_PROOF_HEADER :: bytes where
  "Z3_PROOF_HEADER = map of_char ''EDDA-Z3-PROOF-v1'' @ [10]"

definition zero_hash :: bytes where "zero_hash = replicate 32 0"

definition with_hashes :: "bytes \<Rightarrow> bytes \<Rightarrow> proof_certificate \<Rightarrow> proof_certificate" where
  "with_hashes oh ch c = c\<lparr>pc_obligation_hash := oh, pc_context_hash := ch\<rparr>"

definition new_certificate :: "certificate_witness \<Rightarrow> proof_certificate" where
  "new_certificate w = \<lparr>pc_format_version = CERTIFICATE_FORMAT_VERSION,
     pc_obligation_hash = zero_hash, pc_context_hash = zero_hash, pc_witness = w\<rparr>"

definition placeholder :: proof_certificate where
  "placeholder = new_certificate Implicit"

definition smt :: "bytes \<Rightarrow> bytes \<Rightarrow> proof_certificate" where
  "smt solver_version witness = new_certificate (Smt Z3 solver_version witness)"

definition unverified :: "bytes \<Rightarrow> span \<Rightarrow> proof_certificate" where
  "unverified reason function_site = new_certificate (Unverified reason function_site)"

definition trust :: "bytes \<Rightarrow> span \<Rightarrow> proof_certificate" where
  "trust reason obligation_site = new_certificate (Trust reason obligation_site)"

definition write_span_12_bytes :: "span \<Rightarrow> bytes" where
  "write_span_12_bytes s = le_bytes 4 (span_file s) @ le_bytes 4 (span_lo s) @ le_bytes 4 (span_hi s)"

definition serialise :: "proof_certificate \<Rightarrow> bytes" where
  "serialise c = [pc_format_version c, discriminant_byte (pc_witness c)] @
     (case pc_witness c of
        Smt solver version witness \<Rightarrow>
          solver_byte solver # write_varint_bytes version @ write_varint_bytes witness
      | Comptime kind value \<Rightarrow> kind_byte kind # write_varint_bytes value
      | Implicit \<Rightarrow> []
      | Unverified reason site \<Rightarrow> write_varint_bytes reason @ write_span_12_bytes site
      | Trust reason site \<Rightarrow> write_varint_bytes reason @ write_span_12_bytes site)"

definition encode_z3_witness :: "bytes \<Rightarrow> bytes list \<Rightarrow> bytes" where
  "encode_z3_witness proof_sexpr cores = Z3_PROOF_HEADER @ write_varint_bytes proof_sexpr @
     encode_varint (of_nat (length cores)) @ concat (map write_varint_bytes cores)"

section \<open>Minting\<close>

definition mint_smt_certificate ::
  "(bytes \<Rightarrow> bytes) \<Rightarrow> obligation \<Rightarrow> bytes \<Rightarrow> bytes \<Rightarrow> proof_certificate" where
  "mint_smt_certificate hash_bytes ob version proof_sexpr =
     (let oh = obligation_hash hash_bytes (ob_goal ob);
          ch = context_hash hash_bytes (ob_context ob);
          witness = encode_z3_witness proof_sexpr []
      in with_hashes oh ch (smt version witness))"

definition mint_placeholder_certificate :: "(bytes \<Rightarrow> bytes) \<Rightarrow> obligation \<Rightarrow> proof_certificate" where
  "mint_placeholder_certificate hash_bytes ob =
     (let oh = obligation_hash hash_bytes (ob_goal ob);
          ch = context_hash hash_bytes (ob_context ob)
      in with_hashes oh ch placeholder)"

definition mint_unverified_certificate ::
  "(bytes \<Rightarrow> bytes) \<Rightarrow> obligation \<Rightarrow> bytes \<Rightarrow> span \<Rightarrow> proof_certificate" where
  "mint_unverified_certificate hash_bytes ob reason function_site =
     (let oh = obligation_hash hash_bytes (ob_goal ob);
          ch = context_hash hash_bytes (ob_context ob)
      in with_hashes oh ch (unverified reason function_site))"

definition mint_trust_certificate ::
  "(bytes \<Rightarrow> bytes) \<Rightarrow> obligation \<Rightarrow> bytes \<Rightarrow> span \<Rightarrow> proof_certificate" where
  "mint_trust_certificate hash_bytes ob reason obligation_site =
     (let oh = obligation_hash hash_bytes (ob_goal ob);
          ch = context_hash hash_bytes (ob_context ob)
      in with_hashes oh ch (trust reason obligation_site))"

section \<open>The wire format\<close>

interpretation span_code: prefix_code write_span_12_bytes "\<lambda>_. True" "(=)"
  by unfold_locales (auto simp: write_span_12_bytes_def le4.cut_iff le4.enc_eq_iff intro!: span.equality)

lemma solver_byte_inj [simp]: "solver_byte a = solver_byte b \<longleftrightarrow> a = b"
  by (cases a; cases b) simp_all

lemma kind_byte_inj [simp]: "kind_byte a = kind_byte b \<longleftrightarrow> a = b"
  by (cases a; cases b) simp_all

fun witness_ok :: "certificate_witness \<Rightarrow> bool" where
  "witness_ok (Smt _ version witness) \<longleftrightarrow> short version \<and> short witness"
| "witness_ok (Comptime _ value) \<longleftrightarrow> short value"
| "witness_ok Implicit \<longleftrightarrow> True"
| "witness_ok (Unverified reason _) \<longleftrightarrow> short reason"
| "witness_ok (Trust reason _) \<longleftrightarrow> short reason"

definition certificate_ok :: "proof_certificate \<Rightarrow> bool" where
  "certificate_ok c \<longleftrightarrow> witness_ok (pc_witness c)"

definition same_wire :: "proof_certificate \<Rightarrow> proof_certificate \<Rightarrow> bool" where
  "same_wire c d \<longleftrightarrow> pc_format_version c = pc_format_version d \<and> pc_witness c = pc_witness d"

lemma serialise_prefix:
  assumes "certificate_ok c" "certificate_ok d" "serialise c @ xs = serialise d @ ys"
  shows "same_wire c d"
  using assms
  by (cases "pc_witness c"; cases "pc_witness d")
    (simp_all add: serialise_def certificate_ok_def same_wire_def blob.cut_iff span_code.cut_iff)

interpretation wire: prefix_code serialise certificate_ok same_wire
proof unfold_locales
  show "serialise c = serialise d" if "same_wire c d" for c d
    using that by (simp add: serialise_def same_wire_def)
qed (rule serialise_prefix)

lemma z3_witness_prefix:
  assumes "short p" "short q" "short cs" "short ds" "list_all short cs" "list_all short ds"
    and "encode_z3_witness p cs @ xs = encode_z3_witness q ds @ ys"
  shows "p = q \<and> cs = ds \<and> xs = ys"
proof -
  from assms(7) have "write_varint_bytes p @ encode_varint (of_nat (length cs)) @ concat (map write_varint_bytes cs) @ xs =
      write_varint_bytes q @ encode_varint (of_nat (length ds)) @ concat (map write_varint_bytes ds) @ ys"
    by (simp add: encode_z3_witness_def)
  from blob.cut [OF assms(1,2) this] have "p = q"
    and e: "encode_varint (of_nat (length cs)) @ concat (map write_varint_bytes cs) @ xs =
      encode_varint (of_nat (length ds)) @ concat (map write_varint_bytes ds) @ ys" by blast+
  from varint.cut [OF _ _ e] have n: "(of_nat (length cs) :: u64) = of_nat (length ds)"
    and c: "concat (map write_varint_bytes cs) @ xs = concat (map write_varint_bytes ds) @ ys" by simp_all
  have "length cs = length ds" using of_nat_word_inj [where 'a = 64, of "length cs" "length ds"] n assms(3,4) by simp
  from blob.concat_cut [OF this assms(5,6) c] \<open>p = q\<close> show ?thesis by (simp add: list.rel_eq)
qed

text \<open>C35: The certificate wire format is uniquely decodable: equal byte strings, even followed by
  other data, come from certificates with the same format version and the same witness; only the
  two hash slots, which the surrounding index supplies, are absent. The Z3 proof frame inside an SMT
  witness is uniquely decodable as well.\<close>
theorem serialise_unique:
  assumes "certificate_ok c" "certificate_ok d"
    and "short p" "short q" "short cs" "short ds" "list_all short cs" "list_all short ds"
  shows "(serialise c @ xs = serialise d @ ys \<longleftrightarrow>
      pc_format_version c = pc_format_version d \<and> pc_witness c = pc_witness d \<and> xs = ys) \<and>
    (encode_z3_witness p cs @ us = encode_z3_witness q ds @ vs \<longleftrightarrow> p = q \<and> cs = ds \<and> us = vs)"
  using wire.cut_iff [OF assms(1,2)] z3_witness_prefix [OF assms(3-8)]
  unfolding same_wire_def by auto

theorem serialise_unique_witness:
  "serialise (smt [52] [1, 2]) @ [7] \<noteq> serialise (trust [52] span_dummy) @ [7] \<and>
   encode_z3_witness [1] [[2], []] @ [] \<noteq> encode_z3_witness [1] [[], [2]] @ []"
  using serialise_unique [of "smt [52] [1, 2]" "trust [52] span_dummy" "[1]" "[1]" "[[2], []]" "[[], [2]]"
      "[7]" "[7]" "[]" "[]"]
  by (simp add: certificate_ok_def smt_def trust_def new_certificate_def)

section \<open>The cache key\<close>

definition cert_key :: "proof_certificate \<Rightarrow> bytes \<times> bytes" where
  "cert_key c = (pc_obligation_hash c, pc_context_hash c)"

lemma mint_keys:
  "cert_key (mint_smt_certificate h ob v s) = (obligation_hash h (ob_goal ob), context_hash h (ob_context ob))"
  "cert_key (mint_placeholder_certificate h ob) = (obligation_hash h (ob_goal ob), context_hash h (ob_context ob))"
  "cert_key (mint_unverified_certificate h ob r sp) = (obligation_hash h (ob_goal ob), context_hash h (ob_context ob))"
  "cert_key (mint_trust_certificate h ob r sp) = (obligation_hash h (ob_goal ob), context_hash h (ob_context ob))"
  by (simp_all add: cert_key_def mint_smt_certificate_def mint_placeholder_certificate_def
      mint_unverified_certificate_def mint_trust_certificate_def with_hashes_def Let_def)

definition obligation_ok :: "obligation \<Rightarrow> bool" where
  "obligation_ok ob \<longleftrightarrow> predicate_ok (ob_goal ob) \<and> list_all predicate_ok (ob_context ob)"

text \<open>C36: Where the hash has no collision between the canonical forms at hand, an SMT certificate
  and any later certificate carry the same key exactly when their goals are equal up to
  commutativity and their contexts up to commutativity and order: a cached proof is never looked up
  for a different obligation, and never missed because operands or assumptions were reordered.\<close>
theorem certificate_key_exact:
  assumes "obligation_ok a" "obligation_ok b"
    and no_collision: "\<And>x y. x \<in> {canonical_predicate (ob_goal a), canonical_context (ob_context a)} \<Longrightarrow>
      y \<in> {canonical_predicate (ob_goal b), canonical_context (ob_context b)} \<Longrightarrow>
      hash_bytes x = hash_bytes y \<Longrightarrow> x = y"
  shows "cert_key (mint_smt_certificate hash_bytes a version proof_a) =
      cert_key (mint_smt_certificate hash_bytes b version' proof_b) \<longleftrightarrow>
    comm_eq (ob_goal a) (ob_goal b) \<and> same_context (ob_context a) (ob_context b)"
proof -
  have ok: "predicate_ok (ob_goal a)" "predicate_ok (ob_goal b)"
    "list_all predicate_ok (ob_context a)" "list_all predicate_ok (ob_context b)"
    using assms(1,2) by (simp_all add: obligation_ok_def)
  have g: "hash_bytes (canonical_predicate (ob_goal a)) = hash_bytes (canonical_predicate (ob_goal b)) \<longleftrightarrow>
      comm_eq (ob_goal a) (ob_goal b)"
    using no_collision [of "canonical_predicate (ob_goal a)" "canonical_predicate (ob_goal b)"]
      pred_code.enc_eq_iff [OF ok(1,2)] unfolding canonical_predicate_def by auto
  have c: "hash_bytes (canonical_context (ob_context a)) = hash_bytes (canonical_context (ob_context b)) \<longleftrightarrow>
      same_context (ob_context a) (ob_context b)"
    using no_collision [of "canonical_context (ob_context a)" "canonical_context (ob_context b)"]
      canonical_context_mset [OF ok(3,4)] same_context_iff [OF ok(3,4)] by auto
  show ?thesis by (simp add: mint_keys obligation_hash_def context_hash_def g c)
qed

definition demo_obligation :: "predicate \<Rightarrow> obligation" where
  "demo_obligation goal = obligation_new goal [PBoolLit True] span_dummy DivByZero []"

theorem certificate_key_exact_witness:
  "cert_key (mint_smt_certificate id (demo_obligation (PCmp Ne (demo_i32 120) (demo_i32 121))) [1] [2]) =
   cert_key (mint_smt_certificate id (demo_obligation (PCmp Ne (demo_i32 121) (demo_i32 120))) [1] [2])"
proof (rule certificate_key_exact [THEN iffD2])
  show "obligation_ok (demo_obligation (PCmp Ne (demo_i32 120) (demo_i32 121)))"
    "obligation_ok (demo_obligation (PCmp Ne (demo_i32 121) (demo_i32 120)))"
    by (simp_all add: obligation_ok_def demo_obligation_def obligation_new_def demo_i32_ok)
  show "comm_eq (ob_goal (demo_obligation (PCmp Ne (demo_i32 120) (demo_i32 121))))
      (ob_goal (demo_obligation (PCmp Ne (demo_i32 121) (demo_i32 120)))) \<and>
    same_context (ob_context (demo_obligation (PCmp Ne (demo_i32 120) (demo_i32 121))))
      (ob_context (demo_obligation (PCmp Ne (demo_i32 121) (demo_i32 120))))"
    by (auto simp: demo_obligation_def obligation_new_def same_context_def
        intro!: ce_cmp exI [of _ "[PBoolLit True]"] ce_refl)
qed simp

text \<open>The certificate minted when the solver returns no proof object is documented as an SMT
  certificate, but its witness is the payload-free implicit one.\<close>

lemma placeholder_is_implicit:
  "serialise (mint_placeholder_certificate h ob) = [0x01, 0x02]"
  by (simp add: serialise_def mint_placeholder_certificate_def with_hashes_def placeholder_def
      new_certificate_def CERTIFICATE_FORMAT_VERSION_def Let_def)

end
