(* ===== verification/Job_State.thy ===== *)
theory Job_State
  imports Edda_Prelude "HOL-Library.List_Lexorder" "HOL-Library.Char_ord" "HOL-Library.Multiset"
begin

unbundle bit_operations_syntax

text \<open>
  State of the persistent leased job queue of \<^verbatim>\<open>comparisons/job-queue/rust/src\<close>: priorities
  (\<^verbatim>\<open>priority.rs\<close>), instants (\<^verbatim>\<open>clock.rs\<close>), configuration (\<^verbatim>\<open>config.rs\<close>), counters
  (\<^verbatim>\<open>metrics.rs\<close>), the audit log (\<^verbatim>\<open>audit.rs\<close>), the worker registry (\<^verbatim>\<open>workers.rs\<close>) and the
  transitions of \<^verbatim>\<open>State\<close> (\<^verbatim>\<open>state.rs\<close>). Instants are nanoseconds in \<^typ>\<open>u64\<close>, durations
  nanoseconds in \<^typ>\<open>nat\<close>; the hash map of jobs is an association list in iteration order, a
  \<^verbatim>\<open>BTreeMap\<close> an association list with ascending keys. Plain \<^verbatim>\<open>+=\<close> on counters wraps, as in a
  release build; \<^verbatim>\<open>checked_add(..).expect(..)\<close> gives \<^const>\<open>None\<close>, the panic.
\<close>

section \<open>Ordered maps\<close>

fun bt_insert :: "'k::linorder \<Rightarrow> 'v \<Rightarrow> ('k \<times> 'v) list \<Rightarrow> ('k \<times> 'v) list" where
  "bt_insert k v [] = [(k, v)]"
| "bt_insert k v ((k', v') # al) =
     (if k = k' then (k, v) # al
      else if k < k' then (k, v) # (k', v') # al
      else (k', v') # bt_insert k v al)"

section \<open>Priorities and instants\<close>

type_synonym job_id = u64
type_synonym worker_id = string
type_synonym instant = u64

definition MIN_PRIORITY :: u8 where "MIN_PRIORITY = 1"
definition MAX_PRIORITY :: u8 where "MAX_PRIORITY = 10"
definition DEFAULT_PRIORITY :: u8 where "DEFAULT_PRIORITY = 5"

definition priority_new :: "u8 \<Rightarrow> u8 option" where
  "priority_new value = (if MIN_PRIORITY \<le> value \<and> value \<le> MAX_PRIORITY then Some value else None)"

definition u64_max :: u64 where "u64_max = - 1"

definition saturating_add64 :: "u64 \<Rightarrow> u64 \<Rightarrow> u64" where
  "saturating_add64 a b = (if uint a + uint b < 2 ^ 64 then a + b else u64_max)"

definition saturating_mul64 :: "u64 \<Rightarrow> u64 \<Rightarrow> u64" where
  "saturating_mul64 a b = (if uint a * uint b < 2 ^ 64 then a * b else u64_max)"

text \<open>\<^verbatim>\<open>d.as_nanos().min(u64::MAX as u128) as u64\<close>.\<close>

definition nanos64 :: "nat \<Rightarrow> u64" where
  "nanos64 d = of_int (min (int d) (2 ^ 64 - 1))"

definition instant_add :: "instant \<Rightarrow> nat \<Rightarrow> instant" where
  "instant_add t d = saturating_add64 t (nanos64 d)"

definition instant_sub :: "instant \<Rightarrow> instant \<Rightarrow> nat" where
  "instant_sub t other = unat t - unat other"

definition dec64 :: "u64 \<Rightarrow> string" where
  "dec64 n = dec_nat (unat n)"

section \<open>Configuration\<close>

record namespace_config =
  nc_active_capacity :: nat
  nc_dead_letter_capacity :: nat
  nc_max_attempts :: u32

record config =
  cf_active_capacity :: nat
  cf_dead_letter_capacity :: nat
  cf_max_attempts :: u32
  cf_backoff_base :: nat
  cf_backoff_cap :: nat
  cf_audit_retention :: nat
  cf_require_worker_registration :: bool
  cf_namespace_configs :: "(string \<times> namespace_config) list"

definition namespace_config_default :: namespace_config where
  "namespace_config_default = \<lparr>nc_active_capacity = 1024, nc_dead_letter_capacity = 256, nc_max_attempts = 3\<rparr>"

definition config_default :: config where
  "config_default = \<lparr>cf_active_capacity = 1024, cf_dead_letter_capacity = 256, cf_max_attempts = 3,
     cf_backoff_base = 100000000, cf_backoff_cap = 30000000000, cf_audit_retention = 10000,
     cf_require_worker_registration = False, cf_namespace_configs = []\<rparr>"

definition namespace_config_of :: "config \<Rightarrow> string \<Rightarrow> namespace_config" where
  "namespace_config_of cfg name =
     (case map_of (cf_namespace_configs cfg) name of
        Some c \<Rightarrow> c
      | None \<Rightarrow> \<lparr>nc_active_capacity = cf_active_capacity cfg,
          nc_dead_letter_capacity = cf_dead_letter_capacity cfg,
          nc_max_attempts = cf_max_attempts cfg\<rparr>)"

definition DEFAULT_NAMESPACE :: string where "DEFAULT_NAMESPACE = ''default''"

section \<open>Counters\<close>

record counters =
  enqueued_total :: u64
  acquired_total :: u64
  completed_total :: u64
  failed_total :: u64
  lease_expired_total :: u64
  dead_lettered_total :: u64
  retry_scheduled_total :: u64
  cancelled_total :: u64
  promoted_total :: u64

definition counters_default :: counters where
  "counters_default = \<lparr>enqueued_total = 0, acquired_total = 0, completed_total = 0, failed_total = 0,
     lease_expired_total = 0, dead_lettered_total = 0, retry_scheduled_total = 0,
     cancelled_total = 0, promoted_total = 0\<rparr>"

definition counters_add :: "counters \<Rightarrow> counters \<Rightarrow> counters" where
  "counters_add a b =
     \<lparr>enqueued_total = enqueued_total a + enqueued_total b,
      acquired_total = acquired_total a + acquired_total b,
      completed_total = completed_total a + completed_total b,
      failed_total = failed_total a + failed_total b,
      lease_expired_total = lease_expired_total a + lease_expired_total b,
      dead_lettered_total = dead_lettered_total a + dead_lettered_total b,
      retry_scheduled_total = retry_scheduled_total a + retry_scheduled_total b,
      cancelled_total = cancelled_total a + cancelled_total b,
      promoted_total = promoted_total a + promoted_total b\<rparr>"

section \<open>The audit log\<close>

datatype audit_event_kind =
    EvEnqueued | EvAcquired | EvHeartbeatExtended | EvCompleted | EvFailed | EvLeaseExpired
  | EvRetryScheduled | EvDeadLettered | EvCancelled | EvWorkerRegistered | EvWorkerDeregistered
  | EvPromoted

record audit_event =
  ev_event_id :: u64
  ev_at :: instant
  ev_kind :: audit_event_kind
  ev_job_id :: "job_id option"
  ev_worker_id :: "worker_id option"
  ev_payload :: string

record audit_log =
  next_event_id :: u64
  al_events :: "audit_event list"

definition audit_empty :: audit_log where
  "audit_empty = \<lparr>next_event_id = 0, al_events = []\<rparr>"

fun prune :: "nat \<Rightarrow> 'a list \<Rightarrow> 'a list" where
  "prune retention [] = []"
| "prune retention (e # es) =
     (if length (e # es) > retention then prune retention es else e # es)"

definition push_with ::
  "nat \<Rightarrow> instant \<Rightarrow> audit_event_kind \<Rightarrow> job_id option \<Rightarrow> worker_id option \<Rightarrow> string \<Rightarrow>
     audit_log \<Rightarrow> audit_log option" where
  "push_with retention at kind job worker payload log =
     (if next_event_id log = u64_max then None
      else let event_id = next_event_id log + 1 in
        Some \<lparr>next_event_id = event_id,
          al_events = prune retention (al_events log @
            [\<lparr>ev_event_id = event_id, ev_at = at, ev_kind = kind, ev_job_id = job,
              ev_worker_id = worker, ev_payload = payload\<rparr>])\<rparr>)"

datatype audit_error = AuditEventDropped u64

definition audit_since :: "u64 \<Rightarrow> audit_log \<Rightarrow> audit_error + audit_event list" where
  "audit_since after log =
     (case al_events log of
        oldest # _ \<Rightarrow>
          if after + 1 < ev_event_id oldest then Inl (AuditEventDropped (ev_event_id oldest))
          else Inr (filter (\<lambda>e. after < ev_event_id e) (al_events log))
      | [] \<Rightarrow> Inr (filter (\<lambda>e. after < ev_event_id e) (al_events log)))"

definition audit_recent :: "nat \<Rightarrow> audit_log \<Rightarrow> audit_event list" where
  "audit_recent limit log = drop (length (al_events log) - limit) (al_events log)"

section \<open>Workers\<close>

record worker =
  wk_id :: worker_id
  wk_capabilities :: "string set"

type_synonym worker_registry = "(worker_id \<times> worker) list"

definition register_worker_entry :: "worker_id \<Rightarrow> string list \<Rightarrow> worker_registry \<Rightarrow> worker_registry" where
  "register_worker_entry wid capabilities ws =
     bt_insert wid \<lparr>wk_id = wid, wk_capabilities = set capabilities\<rparr> ws"

definition deregister_worker_entry :: "worker_id \<Rightarrow> worker_registry \<Rightarrow> worker option \<times> worker_registry" where
  "deregister_worker_entry wid ws = (map_of ws wid, AList.delete wid ws)"

definition registry_contains :: "worker_id \<Rightarrow> worker_registry \<Rightarrow> bool" where
  "registry_contains wid ws \<longleftrightarrow> map_of ws wid \<noteq> None"

definition registry_list :: "worker_registry \<Rightarrow> (worker_id \<times> string list) list" where
  "registry_list ws = map (\<lambda>(_, w). (wk_id w, sorted_list_of_set (wk_capabilities w))) ws"

definition caps_satisfy :: "string set \<Rightarrow> string list \<Rightarrow> bool" where
  "caps_satisfy worker_caps required \<longleftrightarrow> list_all (\<lambda>c. c \<in> worker_caps) required"

section \<open>Jobs and the queue state\<close>

datatype job_state =
    Pending "worker_id option"
  | Leased worker_id instant
  | RetryPending instant
  | Scheduled instant
  | Completed instant
  | Cancelled string instant
  | DeadLetter string instant

fun is_terminal :: "job_state \<Rightarrow> bool" where
  "is_terminal (Completed _) = True"
| "is_terminal (Cancelled _ _) = True"
| "is_terminal (DeadLetter _ _) = True"
| "is_terminal _ = False"

fun is_pending :: "job_state \<Rightarrow> bool" where
  "is_pending (Pending _) = True"
| "is_pending _ = False"

fun is_leased :: "job_state \<Rightarrow> bool" where
  "is_leased (Leased _ _) = True"
| "is_leased _ = False"

fun is_waiting :: "job_state \<Rightarrow> bool" where
  "is_waiting (Pending _) = True"
| "is_waiting (RetryPending _) = True"
| "is_waiting (Scheduled _) = True"
| "is_waiting _ = False"

record job =
  jb_id :: job_id
  jb_payload :: bytes
  jb_priority :: u8
  jb_failures :: u32
  jb_seq :: u64
  jb_scheduled_at :: "instant option"
  jb_namespace :: string
  jb_depends_on :: "job_id list"
  jb_dependents :: "job_id list"
  jb_remaining_deps :: u32
  jb_required_capabilities :: "string list"
  jb_state :: job_state

record namespace_state =
  ns_config :: namespace_config
  ns_counters :: counters
  ns_dead_letter :: "job_id list"

type_synonym jobs = "(job_id \<times> job) list"

record queue_state =
  next_id :: u64
  next_seq :: u64
  qs_jobs :: jobs
  qs_namespaces :: "(string \<times> namespace_state) list"
  qs_workers :: worker_registry
  qs_audit :: audit_log
  cancelled_order :: "job_id list"

definition state_empty :: queue_state where
  "state_empty = \<lparr>next_id = 1, next_seq = 0, qs_jobs = [], qs_namespaces = [], qs_workers = [],
     qs_audit = audit_empty, cancelled_order = []\<rparr>"

definition namespace_mut :: "string \<Rightarrow> namespace_config \<Rightarrow> queue_state \<Rightarrow> queue_state" where
  "namespace_mut name default_cfg s =
     (if map_of (qs_namespaces s) name \<noteq> None then s
      else s\<lparr>qs_namespaces := bt_insert name
        \<lparr>ns_config = default_cfg, ns_counters = counters_default, ns_dead_letter = []\<rparr> (qs_namespaces s)\<rparr>)"

definition set_job_state :: "job_id \<Rightarrow> job_state \<Rightarrow> queue_state \<Rightarrow> queue_state" where
  "set_job_state jid st s = s\<lparr>qs_jobs := modify_entry jid (\<lambda>j. j\<lparr>jb_state := st\<rparr>) (qs_jobs s)\<rparr>"

definition bump :: "(counters \<Rightarrow> counters) \<Rightarrow> string \<Rightarrow> queue_state \<Rightarrow> queue_state" where
  "bump f name s = s\<lparr>qs_namespaces :=
     modify_entry name (\<lambda>ns. ns\<lparr>ns_counters := f (ns_counters ns)\<rparr>) (qs_namespaces s)\<rparr>"

definition inc_lease_expired :: "counters \<Rightarrow> counters" where
  "inc_lease_expired c = c\<lparr>lease_expired_total := lease_expired_total c + 1\<rparr>"

definition promote_scheduled :: "instant \<Rightarrow> queue_state \<Rightarrow> queue_state" where
  "promote_scheduled now s =
     (let due = concat (map (\<lambda>(_, j). case jb_state j of
            Scheduled available_at \<Rightarrow> if available_at \<le> now then [jb_id j] else []
          | _ \<Rightarrow> []) (qs_jobs s))
      in fold (\<lambda>jid. set_job_state jid (Pending None)) due s)"

definition promote_retries :: "instant \<Rightarrow> queue_state \<Rightarrow> queue_state" where
  "promote_retries now s =
     (let due = concat (map (\<lambda>(_, j). case jb_state j of
            RetryPending ready_at \<Rightarrow> if ready_at \<le> now then [jb_id j] else []
          | _ \<Rightarrow> []) (qs_jobs s))
      in fold (\<lambda>jid. set_job_state jid (Pending None)) due s)"

definition expire_leases :: "instant \<Rightarrow> queue_state \<Rightarrow> queue_state" where
  "expire_leases now s =
     (let expired = concat (map (\<lambda>(_, j). case jb_state j of
            Leased worker expires_at \<Rightarrow>
              if expires_at \<le> now then [(jb_id j, worker, jb_namespace j)] else []
          | _ \<Rightarrow> []) (qs_jobs s))
      in fold (\<lambda>(jid, worker, ns) s.
           bump inc_lease_expired ns (set_job_state jid (Pending (Some worker)) s)) expired s)"

definition tick :: "instant \<Rightarrow> queue_state \<Rightarrow> queue_state" where
  "tick now s = expire_leases now (promote_retries now (promote_scheduled now s))"

definition is_acquirable :: "string set \<Rightarrow> job \<Rightarrow> bool" where
  "is_acquirable worker_caps j \<longleftrightarrow> is_pending (jb_state j) \<and> jb_remaining_deps j = 0 \<and>
     caps_satisfy worker_caps (jb_required_capabilities j)"

text \<open>\<^verbatim>\<open>min_by_key\<close> with key \<^verbatim>\<open>(Reverse(priority), seq)\<close> keeps the first least element.\<close>

definition acquire_before :: "job \<Rightarrow> job \<Rightarrow> bool" where
  "acquire_before a b \<longleftrightarrow> jb_priority b < jb_priority a \<or>
     jb_priority a = jb_priority b \<and> jb_seq a < jb_seq b"

fun min_by_key :: "job list \<Rightarrow> job option" where
  "min_by_key [] = None"
| "min_by_key (j # js) = Some (fold (\<lambda>x best. if acquire_before x best then x else best) js j)"

definition next_acquirable :: "string set \<Rightarrow> queue_state \<Rightarrow> job_id option" where
  "next_acquirable worker_caps s =
     map_option jb_id (min_by_key (filter (is_acquirable worker_caps) (map snd (qs_jobs s))))"

definition active_count_ns :: "string \<Rightarrow> queue_state \<Rightarrow> nat" where
  "active_count_ns ns s =
     length (filter (\<lambda>j. jb_namespace j = ns \<and> is_waiting (jb_state j)) (map snd (qs_jobs s)))"

definition leased_count_ns :: "string \<Rightarrow> queue_state \<Rightarrow> nat" where
  "leased_count_ns ns s =
     length (filter (\<lambda>j. jb_namespace j = ns \<and> is_leased (jb_state j)) (map snd (qs_jobs s)))"

definition dead_letter_count_ns :: "string \<Rightarrow> queue_state \<Rightarrow> nat" where
  "dead_letter_count_ns ns s =
     (case map_of (qs_namespaces s) ns of Some n \<Rightarrow> length (ns_dead_letter n) | None \<Rightarrow> 0)"

definition active_count :: "queue_state \<Rightarrow> nat" where
  "active_count s = length (filter (\<lambda>j. is_waiting (jb_state j)) (map snd (qs_jobs s)))"

definition leased_count :: "queue_state \<Rightarrow> nat" where
  "leased_count s = length (filter (\<lambda>j. is_leased (jb_state j)) (map snd (qs_jobs s)))"

definition dead_letter_count :: "queue_state \<Rightarrow> nat" where
  "dead_letter_count s = sum_list (map (\<lambda>(_, ns). length (ns_dead_letter ns)) (qs_namespaces s))"

record dead_letter_entry =
  dl_id :: job_id
  dl_payload :: bytes
  dl_final_reason :: string
  dl_namespace :: string

record cancelled_entry =
  ce_id :: job_id
  ce_payload :: bytes
  ce_reason :: string
  ce_namespace :: string
  ce_cancelled_at :: instant

definition dead_letter_entries :: "queue_state \<Rightarrow> dead_letter_entry list" where
  "dead_letter_entries s = concat (map (\<lambda>(_, ns). concat (map (\<lambda>i.
     case map_of (qs_jobs s) i of
       None \<Rightarrow> []
     | Some j \<Rightarrow> (case jb_state j of
         DeadLetter final_reason _ \<Rightarrow>
           [\<lparr>dl_id = jb_id j, dl_payload = jb_payload j, dl_final_reason = final_reason,
             dl_namespace = jb_namespace j\<rparr>]
       | _ \<Rightarrow> [])) (ns_dead_letter ns))) (qs_namespaces s))"

definition cancelled_entries :: "queue_state \<Rightarrow> cancelled_entry list" where
  "cancelled_entries s = concat (map (\<lambda>i.
     case map_of (qs_jobs s) i of
       None \<Rightarrow> []
     | Some j \<Rightarrow> (case jb_state j of
         Cancelled reason cancelled_at \<Rightarrow>
           [\<lparr>ce_id = jb_id j, ce_payload = jb_payload j, ce_reason = reason,
             ce_namespace = jb_namespace j, ce_cancelled_at = cancelled_at\<rparr>]
       | _ \<Rightarrow> [])) (cancelled_order s))"

text \<open>The breadth-first loop of \<^verbatim>\<open>cascade_collect\<close>: visited set, output, work queue.\<close>

function cascade_loop :: "jobs \<Rightarrow> job_id set \<Rightarrow> job_id list \<Rightarrow> job_id list \<Rightarrow> job_id list" where
  "cascade_loop js visited order [] = order"
| "cascade_loop js visited order (i # queue) =
     (if i \<in> visited then cascade_loop js visited order queue
      else case map_of js i of
        None \<Rightarrow> cascade_loop js (insert i visited) order queue
      | Some j \<Rightarrow>
          if is_terminal (jb_state j) then cascade_loop js (insert i visited) order queue
          else cascade_loop js (insert i visited) (order @ [i]) (queue @ jb_dependents j))"
  by pat_completeness auto

termination
proof (relation "measures [\<lambda>(js, visited, order, queue). card (fst ` set js - visited),
    \<lambda>(js, visited, order, queue). length queue]", goal_cases)
  case (3 js visited order i queue)
  have "card (fst ` set js - insert i visited) \<le> card (fst ` set js - visited)"
    by (intro card_mono) auto
  then show ?case by (auto simp: le_less)
next
  case (4 js visited order i queue j)
  have "card (fst ` set js - insert i visited) \<le> card (fst ` set js - visited)"
    by (intro card_mono) auto
  then show ?case by (auto simp: le_less)
next
  case (5 js visited order i queue j)
  then have "i \<in> fst ` set js - visited" by (metis DiffI map_of_eq_None_iff option.distinct(1))
  then have "card (fst ` set js - insert i visited) < card (fst ` set js - visited)"
    by (intro psubset_card_mono) auto
  then show ?case by simp
qed simp_all

definition cascade_collect :: "job_id \<Rightarrow> queue_state \<Rightarrow> job_id list" where
  "cascade_collect root s = cascade_loop (qs_jobs s) {} [] [root]"

end
