(* ===== verification/Job_Queue.thy ===== *)
theory Job_Queue
  imports Job_State "HOL-Library.Monad_Syntax"
begin

text \<open>
  The public operations of the job queue (\<^verbatim>\<open>comparisons/job-queue/rust/src/queue.rs\<close>,
  \<^verbatim>\<open>enqueue.rs\<close>, \<^verbatim>\<open>error.rs\<close>, and \<^verbatim>\<open>load\<close> and \<^verbatim>\<open>save\<close> of \<^verbatim>\<open>state.rs\<close>). Every operation runs
  under the queue's mutex, so it is one atomic function from queue to result and queue; \<^const>\<open>None\<close>
  is a panic. The environment of a call supplies the clock reading, the random jitter, the outcome
  of the file operations and the JSON encoder, none of which are part of the sources.
\<close>

section \<open>Environment and persistence\<close>

datatype save_outcome = SaveOk | SaveFails | SaveRenamed

record env =
  en_now :: instant
  en_max_jitter :: "u64 \<Rightarrow> u64"
  en_pick :: "u64 \<Rightarrow> u64"
  en_save :: save_outcome
  en_to_vec :: "queue_state \<Rightarrow> bytes"

record queue =
  q_state :: queue_state
  q_file :: "bytes option"

datatype io_error = InvalidData

definition load :: "(bytes \<Rightarrow> queue_state option) \<Rightarrow> bytes option \<Rightarrow> io_error + queue_state" where
  "load from_slice file =
     (case file of
        None \<Rightarrow> Inr state_empty
      | Some buf \<Rightarrow>
          if buf = [] then Inr state_empty
          else (case from_slice buf of None \<Rightarrow> Inl InvalidData | Some s \<Rightarrow> Inr s))"

definition queue_open :: "(bytes \<Rightarrow> queue_state option) \<Rightarrow> bytes option \<Rightarrow> io_error + queue" where
  "queue_open from_slice file =
     (case load from_slice file of
        Inl e \<Rightarrow> Inl e
      | Inr s \<Rightarrow> Inr \<lparr>q_state = s, q_file = file\<rparr>)"

text \<open>
  The write goes to a temporary file that is renamed over the target: either the target is
  untouched, or it holds the new bytes and only the directory sync can still fail.
\<close>

definition save :: "env \<Rightarrow> queue \<Rightarrow> bool \<times> queue" where
  "save env q =
     (let q' = q\<lparr>q_file := Some (en_to_vec env (q_state q))\<rparr>
      in case en_save env of SaveOk \<Rightarrow> (True, q') | SaveFails \<Rightarrow> (False, q) | SaveRenamed \<Rightarrow> (False, q'))"

definition finish :: "env \<Rightarrow> 'e \<Rightarrow> 'a \<Rightarrow> queue \<Rightarrow> queue_state \<Rightarrow> ('e + 'a) \<times> queue" where
  "finish env io v q s =
     (case save env (q\<lparr>q_state := s\<rparr>) of
        (True, q') \<Rightarrow> (Inr v, q')
      | (False, q') \<Rightarrow> (Inl io, q'))"

section \<open>Errors, requests and results\<close>

datatype dependency_error =
    DepUnknown job_id
  | DepCycle job_id
  | DepCrossNamespace job_id string string
  | DepDuplicate job_id

datatype enqueue_error = QueueFull | EnqInvalidPriority u8 | InvalidDependency dependency_error | EnqIo
datatype heartbeat_error = HbNotLeaseHolder | HbLeaseExpired | HbIo
datatype ack_error = AckNotLeaseHolder | AckIo
datatype acquire_error = UnknownWorker worker_id | AcqIo
datatype promote_error =
  NotPending job_id | PriorityNotIncreased u8 u8 | ProInvalidPriority u8 | UnknownJob job_id | ProIo

record enqueue_request =
  rq_payload :: bytes
  rq_priority :: "u8 option"
  rq_scheduled_at :: "instant option"
  rq_depends_on :: "job_id list"
  rq_required_capabilities :: "string list"
  rq_namespace :: "string option"

definition enqueue_request_new :: "bytes \<Rightarrow> enqueue_request" where
  "enqueue_request_new payload = \<lparr>rq_payload = payload, rq_priority = None, rq_scheduled_at = None,
     rq_depends_on = [], rq_required_capabilities = [], rq_namespace = None\<rparr>"

record acquired_job =
  aj_id :: job_id
  aj_payload :: bytes
  aj_attempt :: u32
  aj_priority :: u8
  aj_scheduled_at :: "instant option"
  aj_namespace :: string
  aj_required_capabilities :: "string list"

section \<open>Helpers\<close>

definition audit_push ::
  "config \<Rightarrow> instant \<Rightarrow> audit_event_kind \<Rightarrow> job_id option \<Rightarrow> worker_id option \<Rightarrow> string \<Rightarrow>
     queue_state \<Rightarrow> queue_state option" where
  "audit_push cfg now kind job worker payload s =
     map_option (\<lambda>log. s\<lparr>qs_audit := log\<rparr>)
       (push_with (cf_audit_retention cfg) now kind job worker payload (qs_audit s))"

text \<open>\<^verbatim>\<open>namespaces.get_mut(..).expect("namespace exists")\<close>.\<close>

definition bump_expect :: "(counters \<Rightarrow> counters) \<Rightarrow> string \<Rightarrow> queue_state \<Rightarrow> queue_state option" where
  "bump_expect f name s =
     (if map_of (qs_namespaces s) name = None then None else Some (bump f name s))"

definition is_lease_holder :: "queue_state \<Rightarrow> worker_id \<Rightarrow> job_id \<Rightarrow> bool" where
  "is_lease_holder s wid jid =
     (case map_of (qs_jobs s) jid of
        Some j \<Rightarrow> (case jb_state j of Leased w _ \<Rightarrow> w = wid | _ \<Rightarrow> False)
      | None \<Rightarrow> False)"

definition resolve_worker_caps :: "queue_state \<Rightarrow> worker_id \<Rightarrow> string set" where
  "resolve_worker_caps s wid =
     (case map_of (qs_workers s) wid of Some w \<Rightarrow> wk_capabilities w | None \<Rightarrow> {})"

definition any_acquirable_requires_caps :: "queue_state \<Rightarrow> bool" where
  "any_acquirable_requires_caps s \<longleftrightarrow> list_ex (\<lambda>j. is_pending (jb_state j) \<and>
     jb_remaining_deps j = 0 \<and> jb_required_capabilities j \<noteq> []) (map snd (qs_jobs s))"

text \<open>
  The recursive \<^verbatim>\<open>visit\<close> of \<^verbatim>\<open>check_no_cycle\<close>. The stack set is restored on every successful
  return, so it is passed down; the visited set is threaded.
\<close>

function visit :: "jobs \<Rightarrow> job_id set \<Rightarrow> job_id set \<Rightarrow> job_id \<Rightarrow> dependency_error + job_id set"
  and visit_all :: "jobs \<Rightarrow> job_id set \<Rightarrow> job_id set \<Rightarrow> job_id list \<Rightarrow> dependency_error + job_id set" where
  "visit js on_stack visited i =
     (if i \<in> on_stack then Inl (DepCycle i)
      else if i \<in> visited then Inr visited
      else case map_of js i of
        None \<Rightarrow> Inr (insert i visited)
      | Some j \<Rightarrow>
          (case visit_all js (insert i on_stack) visited (jb_depends_on j) of
             Inl e \<Rightarrow> Inl e
           | Inr visited' \<Rightarrow> Inr (insert i visited')))"
| "visit_all js on_stack visited [] = Inr visited"
| "visit_all js on_stack visited (i # is) =
     (case visit js on_stack visited i of
        Inl e \<Rightarrow> Inl e
      | Inr visited' \<Rightarrow> visit_all js on_stack visited' is)"
  by pat_completeness auto

termination
proof (relation "measures [\<lambda>x. case x of Inl (js, on_stack, _, _) \<Rightarrow> card (fst ` set js - on_stack)
      | Inr (js, on_stack, _, _) \<Rightarrow> card (fst ` set js - on_stack),
    \<lambda>x. case x of Inl _ \<Rightarrow> 0 | Inr (_, _, _, is) \<Rightarrow> Suc (length is)]", goal_cases)
  case (2 js on_stack visited i j)
  then have "i \<in> fst ` set js - on_stack" by (metis DiffI map_of_eq_None_iff option.distinct(1))
  then have "card (fst ` set js - insert i on_stack) < card (fst ` set js - on_stack)"
    by (intro psubset_card_mono) auto
  then show ?case by simp
qed simp_all

definition check_no_cycle :: "job_id list \<Rightarrow> queue_state \<Rightarrow> dependency_error + unit" where
  "check_no_cycle deps s =
     (case visit_all (qs_jobs s) {} {} deps of Inl e \<Rightarrow> Inl e | Inr _ \<Rightarrow> Inr ())"

fun validate_each :: "job_id set \<Rightarrow> job_id list \<Rightarrow> string \<Rightarrow> queue_state \<Rightarrow> dependency_error + unit" where
  "validate_each seen [] ns s = Inr ()"
| "validate_each seen (d # ds) ns s =
     (if d \<in> seen then Inl (DepDuplicate d)
      else case map_of (qs_jobs s) d of
        None \<Rightarrow> Inl (DepUnknown d)
      | Some j \<Rightarrow>
          if jb_namespace j \<noteq> ns then Inl (DepCrossNamespace d ns (jb_namespace j))
          else validate_each (insert d seen) ds ns s)"

definition validate_dependencies :: "job_id list \<Rightarrow> string \<Rightarrow> queue_state \<Rightarrow> dependency_error + unit" where
  "validate_dependencies deps ns s =
     (case validate_each {} deps ns s of Inl e \<Rightarrow> Inl e | Inr _ \<Rightarrow> check_no_cycle deps s)"

fun drop_oldest :: "nat \<Rightarrow> job_id list \<Rightarrow> jobs \<Rightarrow> job_id list \<times> jobs" where
  "drop_oldest cap [] js = ([], js)"
| "drop_oldest cap (i # ring) js =
     (if length (i # ring) > cap then drop_oldest cap ring (AList.delete i js) else (i # ring, js))"

definition terminal_dead_letter ::
  "config \<Rightarrow> job_id \<Rightarrow> string \<Rightarrow> instant \<Rightarrow> queue_state \<Rightarrow> queue_state option" where
  "terminal_dead_letter cfg jid reason now s = do {
     j \<leftarrow> map_of (qs_jobs s) jid;
     let s = set_job_state jid (DeadLetter reason now) s;
     ns \<leftarrow> map_of (qs_namespaces s) (jb_namespace j);
     let (ring, js) = drop_oldest (nc_dead_letter_capacity (ns_config ns))
           (ns_dead_letter ns @ [jid]) (qs_jobs s);
     let ns' = ns\<lparr>ns_dead_letter := ring,
           ns_counters := (ns_counters ns)\<lparr>dead_lettered_total := dead_lettered_total (ns_counters ns) + 1\<rparr>\<rparr>;
     let s = s\<lparr>qs_jobs := js,
           qs_namespaces := modify_entry (jb_namespace j) (\<lambda>_. ns') (qs_namespaces s)\<rparr>;
     audit_push cfg now EvDeadLettered (Some jid) None reason s
   }"

fun cascade_apply ::
  "config \<Rightarrow> job_id \<Rightarrow> string \<Rightarrow> instant \<Rightarrow> nat \<Rightarrow> job_id list \<Rightarrow> queue_state \<Rightarrow> queue_state option" where
  "cascade_apply cfg root reason now idx [] s = Some s"
| "cascade_apply cfg root reason now idx (i # is) s = do {
     j \<leftarrow> map_of (qs_jobs s) i;
     s \<leftarrow> (case jb_state j of
            Leased worker _ \<Rightarrow>
              audit_push cfg now EvLeaseExpired (Some i) (Some worker) ''cancelled''
                (bump inc_lease_expired (jb_namespace j) s)
          | _ \<Rightarrow> Some s);
     let payload = (if idx = 0 then reason
           else ''cascaded from '' @ dec64 root @ '' ('' @ reason @ '')'');
     let s = set_job_state i (Cancelled payload now) s;
     let s = s\<lparr>cancelled_order := cancelled_order s @ [i]\<rparr>;
     let s = bump (\<lambda>c. c\<lparr>cancelled_total := cancelled_total c + 1\<rparr>) (jb_namespace j) s;
     s \<leftarrow> audit_push cfg now EvCancelled (Some i) None payload s;
     cascade_apply cfg root reason now (Suc idx) is s
   }"

definition cascade_cancel ::
  "config \<Rightarrow> job_id \<Rightarrow> string \<Rightarrow> instant \<Rightarrow> queue_state \<Rightarrow> (nat \<times> queue_state) option" where
  "cascade_cancel cfg root reason now s =
     (let order = cascade_collect root s
      in map_option (Pair (length order)) (cascade_apply cfg root reason now 0 order s))"

definition compute_backoff :: "env \<Rightarrow> nat \<Rightarrow> nat \<Rightarrow> u32 \<Rightarrow> nat" where
  "compute_backoff env base cap attempt =
     (let e = (if attempt = 0 then 0 else attempt - 1);
          shift = (if unat e < 64 then push_bit (unat e) 1 else u64_max) :: u64;
          unbounded = saturating_mul64 (nanos64 base) shift;
          bounded = min unbounded (nanos64 cap);
          delay = unat bounded
      in if 0 < bounded \<and> 0 < en_max_jitter env bounded
         then delay + unat (en_pick env (en_max_jitter env bounded))
         else delay)"

section \<open>Lifecycle operations\<close>

text \<open>The loop of \<^verbatim>\<open>enqueue\<close> over the dependencies of the new job \<open>jid\<close>.\<close>

fun link_deps ::
  "job_id \<Rightarrow> job_id list \<Rightarrow> u32 \<Rightarrow> string option \<Rightarrow> jobs \<Rightarrow> (u32 \<times> string option \<times> jobs) option" where
  "link_deps jid [] remaining cascade js = Some (remaining, cascade, js)"
| "link_deps jid (d # ds) remaining cascade js =
     (case map_of js d of
        None \<Rightarrow> None
      | Some j \<Rightarrow>
          (case jb_state j of
             Completed _ \<Rightarrow> link_deps jid ds remaining cascade js
           | Cancelled _ _ \<Rightarrow>
               link_deps jid ds remaining (Some (''dependency '' @ dec64 d @ '' was cancelled'')) js
           | DeadLetter _ _ \<Rightarrow>
               link_deps jid ds remaining (Some (''dependency '' @ dec64 d @ '' was dead-lettered'')) js
           | _ \<Rightarrow>
               if remaining = - 1 then None
               else link_deps jid ds (remaining + 1) cascade
                 (modify_entry d (\<lambda>j. j\<lparr>jb_dependents := jb_dependents j @ [jid]\<rparr>) js)))"

definition request_priority :: "enqueue_request \<Rightarrow> enqueue_error + u8" where
  "request_priority req =
     (case rq_priority req of
        Some v \<Rightarrow> (case priority_new v of None \<Rightarrow> Inl (EnqInvalidPriority v) | Some p \<Rightarrow> Inr p)
      | None \<Rightarrow> Inr DEFAULT_PRIORITY)"

definition new_job :: "job_id \<Rightarrow> u64 \<Rightarrow> u8 \<Rightarrow> string \<Rightarrow> u32 \<Rightarrow> instant \<Rightarrow> enqueue_request \<Rightarrow> job" where
  "new_job jid sq priority ns remaining now req =
     (let st = (case rq_scheduled_at req of
            Some when \<Rightarrow> if now < when then Scheduled when else Pending None
          | None \<Rightarrow> Pending None)
      in \<lparr>jb_id = jid, jb_payload = rq_payload req, jb_priority = priority, jb_failures = 0,
          jb_seq = sq, jb_scheduled_at = rq_scheduled_at req, jb_namespace = ns,
          jb_depends_on = rq_depends_on req, jb_dependents = [], jb_remaining_deps = remaining,
          jb_required_capabilities = rq_required_capabilities req, jb_state = st\<rparr>)"

definition enqueue ::
  "config \<Rightarrow> env \<Rightarrow> enqueue_request \<Rightarrow> queue \<Rightarrow> ((enqueue_error + job_id) \<times> queue) option" where
  "enqueue cfg env req q =
     (case request_priority req of
        Inl e \<Rightarrow> Some (Inl e, q)
      | Inr priority \<Rightarrow>
        let ns = (case rq_namespace req of None \<Rightarrow> DEFAULT_NAMESPACE | Some n \<Rightarrow> n);
            now = en_now env;
            s = namespace_mut ns (namespace_config_of cfg ns) (tick now (q_state q))
        in do {
          nst \<leftarrow> map_of (qs_namespaces s) ns;
          if nc_active_capacity (ns_config nst) \<le> active_count_ns ns s
          then Some (Inl QueueFull, q\<lparr>q_state := s\<rparr>)
          else case validate_dependencies (rq_depends_on req) ns s of
            Inl e \<Rightarrow> Some (Inl (InvalidDependency e), q\<lparr>q_state := s\<rparr>)
          | Inr _ \<Rightarrow>
            if next_id s = u64_max \<or> next_seq s = u64_max then None
            else do {
              let jid = next_id s;
              let sq = next_seq s;
              (remaining, cascade, js) \<leftarrow> link_deps jid (rq_depends_on req) 0 None (qs_jobs s);
              let s = s\<lparr>next_id := jid + 1, next_seq := sq + 1,
                    qs_jobs := AList.update jid (new_job jid sq priority ns remaining now req) js\<rparr>;
              s \<leftarrow> bump_expect (\<lambda>c. c\<lparr>enqueued_total := enqueued_total c + 1\<rparr>) ns s;
              s \<leftarrow> audit_push cfg now EvEnqueued (Some jid) None
                    (''ns='' @ ns @ '' priority='' @ dec_nat (unat priority)) s;
              s \<leftarrow> (case cascade of
                     None \<Rightarrow> Some s
                   | Some reason \<Rightarrow> map_option snd (cascade_cancel cfg jid reason now s));
              Some (finish env EnqIo jid q s)
            }
        })"

definition acquire ::
  "config \<Rightarrow> env \<Rightarrow> worker_id \<Rightarrow> nat \<Rightarrow> queue \<Rightarrow> ((acquire_error + acquired_job option) \<times> queue) option" where
  "acquire cfg env wid lease_duration q =
     (let now = en_now env;
          s = tick now (q_state q);
          known = registry_contains wid (qs_workers s)
      in if cf_require_worker_registration cfg \<and> \<not> known
         then Some (Inl (UnknownWorker wid), q\<lparr>q_state := s\<rparr>)
         else case next_acquirable (resolve_worker_caps s wid) s of
           None \<Rightarrow>
             if \<not> known \<and> any_acquirable_requires_caps s
             then Some (Inl (UnknownWorker wid), q\<lparr>q_state := s\<rparr>)
             else Some (Inr None, q\<lparr>q_state := s\<rparr>)
         | Some jid \<Rightarrow> do {
             j \<leftarrow> map_of (qs_jobs s) jid;
             let s = set_job_state jid (Leased wid (instant_add now lease_duration)) s;
             let acquired = \<lparr>aj_id = jid, aj_payload = jb_payload j, aj_attempt = jb_failures j + 1,
                   aj_priority = jb_priority j, aj_scheduled_at = jb_scheduled_at j,
                   aj_namespace = jb_namespace j,
                   aj_required_capabilities = jb_required_capabilities j\<rparr>;
             s \<leftarrow> bump_expect (\<lambda>c. c\<lparr>acquired_total := acquired_total c + 1\<rparr>) (jb_namespace j) s;
             s \<leftarrow> audit_push cfg now EvAcquired (Some jid) (Some wid)
                   (''attempt='' @ dec_nat (unat (aj_attempt acquired))) s;
             Some (finish env AcqIo (Some acquired) q s)
           })"

definition heartbeat ::
  "config \<Rightarrow> env \<Rightarrow> worker_id \<Rightarrow> job_id \<Rightarrow> nat \<Rightarrow> queue \<Rightarrow> ((heartbeat_error + unit) \<times> queue) option" where
  "heartbeat cfg env wid jid lease_extension q =
     (let now = en_now env;
          s = tick now (q_state q)
      in case map_of (qs_jobs s) jid of
           None \<Rightarrow> Some (Inl HbNotLeaseHolder, q\<lparr>q_state := s\<rparr>)
         | Some j \<Rightarrow>
             (case jb_state j of
                Leased w _ \<Rightarrow>
                  if w = wid
                  then do {
                    let s = set_job_state jid (Leased wid (instant_add now lease_extension)) s;
                    s \<leftarrow> audit_push cfg now EvHeartbeatExtended (Some jid) (Some wid) [] s;
                    Some (finish env HbIo () q s)
                  }
                  else Some (Inl HbNotLeaseHolder, q\<lparr>q_state := s\<rparr>)
              | Pending (Some holder) \<Rightarrow>
                  if holder = wid then Some (Inl HbLeaseExpired, q\<lparr>q_state := s\<rparr>)
                  else Some (Inl HbNotLeaseHolder, q\<lparr>q_state := s\<rparr>)
              | _ \<Rightarrow> Some (Inl HbNotLeaseHolder, q\<lparr>q_state := s\<rparr>)))"

definition dec_remaining :: "job \<Rightarrow> job" where
  "dec_remaining j = j\<lparr>jb_remaining_deps :=
     (if jb_remaining_deps j = 0 then 0 else jb_remaining_deps j - 1)\<rparr>"

definition complete ::
  "config \<Rightarrow> env \<Rightarrow> worker_id \<Rightarrow> job_id \<Rightarrow> queue \<Rightarrow> ((ack_error + unit) \<times> queue) option" where
  "complete cfg env wid jid q =
     (let now = en_now env;
          s = tick now (q_state q)
      in if \<not> is_lease_holder s wid jid then Some (Inl AckNotLeaseHolder, q\<lparr>q_state := s\<rparr>)
         else do {
           j \<leftarrow> map_of (qs_jobs s) jid;
           let s = set_job_state jid (Completed now) s;
           let s = s\<lparr>qs_jobs := fold (\<lambda>c. modify_entry c dec_remaining) (jb_dependents j) (qs_jobs s)\<rparr>;
           s \<leftarrow> bump_expect (\<lambda>c. c\<lparr>completed_total := completed_total c + 1\<rparr>) (jb_namespace j) s;
           s \<leftarrow> audit_push cfg now EvCompleted (Some jid) (Some wid) [] s;
           Some (finish env AckIo () q s)
         })"

fun cascade_children ::
  "config \<Rightarrow> job_id list \<Rightarrow> string \<Rightarrow> instant \<Rightarrow> queue_state \<Rightarrow> queue_state option" where
  "cascade_children cfg [] reason now s = Some s"
| "cascade_children cfg (c # cs) reason now s = do {
     (_, s) \<leftarrow> cascade_cancel cfg c reason now s;
     cascade_children cfg cs reason now s
   }"

definition fail ::
  "config \<Rightarrow> env \<Rightarrow> worker_id \<Rightarrow> job_id \<Rightarrow> string \<Rightarrow> queue \<Rightarrow> ((ack_error + unit) \<times> queue) option" where
  "fail cfg env wid jid reason q =
     (let now = en_now env;
          s = tick now (q_state q)
      in if \<not> is_lease_holder s wid jid then Some (Inl AckNotLeaseHolder, q\<lparr>q_state := s\<rparr>)
         else do {
           j \<leftarrow> map_of (qs_jobs s) jid;
           nst \<leftarrow> map_of (qs_namespaces s) (jb_namespace j);
           let attempt_before = jb_failures j + 1;
           let delay = compute_backoff env (cf_backoff_base cfg) (cf_backoff_cap cfg) attempt_before;
           let failures = jb_failures j + 1;
           let s = s\<lparr>qs_jobs := modify_entry jid (\<lambda>j. j\<lparr>jb_failures := failures\<rparr>) (qs_jobs s)\<rparr>;
           s \<leftarrow> bump_expect (\<lambda>c. c\<lparr>failed_total := failed_total c + 1\<rparr>) (jb_namespace j) s;
           s \<leftarrow> audit_push cfg now EvFailed (Some jid) (Some wid)
                 (''attempt='' @ dec_nat (unat attempt_before) @ '' reason='' @ reason) s;
           s \<leftarrow> (if nc_max_attempts (ns_config nst) \<le> failures
                then do {
                  s \<leftarrow> terminal_dead_letter cfg jid reason now s;
                  let children = (case map_of (qs_jobs s) jid of Some j \<Rightarrow> jb_dependents j | None \<Rightarrow> []);
                  cascade_children cfg children (''parent '' @ dec64 jid @ '' dead-lettered'') now s
                }
                else do {
                  let retry_ready_at = instant_add now delay;
                  let ready_at = (case jb_scheduled_at j of
                        Some t \<Rightarrow> max retry_ready_at t | None \<Rightarrow> retry_ready_at);
                  let s = set_job_state jid (RetryPending ready_at) s;
                  s \<leftarrow> bump_expect (\<lambda>c. c\<lparr>retry_scheduled_total := retry_scheduled_total c + 1\<rparr>)
                        (jb_namespace j) s;
                  audit_push cfg now EvRetryScheduled (Some jid) None
                    (''ready_at_nanos='' @ dec64 ready_at) s
                });
           Some (finish env AckIo () q s)
         })"

definition cancel ::
  "config \<Rightarrow> env \<Rightarrow> job_id \<Rightarrow> string \<Rightarrow> queue \<Rightarrow> ((unit + nat) \<times> queue) option" where
  "cancel cfg env jid reason q = do {
     let now = en_now env;
     let s = tick now (q_state q);
     (count, s) \<leftarrow> cascade_cancel cfg jid reason now s;
     Some (finish env () count q s)
   }"

definition promote ::
  "config \<Rightarrow> env \<Rightarrow> job_id \<Rightarrow> u8 \<Rightarrow> queue \<Rightarrow> ((promote_error + unit) \<times> queue) option" where
  "promote cfg env jid new_priority q =
     (case priority_new new_priority of
        None \<Rightarrow> Some (Inl (ProInvalidPriority new_priority), q)
      | Some new_prio \<Rightarrow>
        let now = en_now env;
            s = tick now (q_state q)
        in case map_of (qs_jobs s) jid of
             None \<Rightarrow> Some (Inl (UnknownJob jid), q\<lparr>q_state := s\<rparr>)
           | Some j \<Rightarrow>
             if \<not> (case jb_state j of Pending _ \<Rightarrow> True | Scheduled _ \<Rightarrow> True | _ \<Rightarrow> False)
             then Some (Inl (NotPending jid), q\<lparr>q_state := s\<rparr>)
             else if new_prio \<le> jb_priority j
             then Some (Inl (PriorityNotIncreased (jb_priority j) new_prio), q\<lparr>q_state := s\<rparr>)
             else do {
               let s = s\<lparr>qs_jobs := modify_entry jid (\<lambda>j. j\<lparr>jb_priority := new_prio\<rparr>) (qs_jobs s)\<rparr>;
               s \<leftarrow> bump_expect (\<lambda>c. c\<lparr>promoted_total := promoted_total c + 1\<rparr>) (jb_namespace j) s;
               s \<leftarrow> audit_push cfg now EvPromoted (Some jid) None
                     (dec_nat (unat (jb_priority j)) @ '' -> '' @ dec_nat (unat new_prio)) s;
               Some (finish env ProIo () q s)
             })"

section \<open>Administration\<close>

fun join_caps :: "string list \<Rightarrow> string" where
  "join_caps [] = []"
| "join_caps [x] = x"
| "join_caps (x # xs) = x @ '','' @ join_caps xs"

definition register_worker ::
  "config \<Rightarrow> env \<Rightarrow> worker_id \<Rightarrow> string list \<Rightarrow> queue \<Rightarrow> ((unit + unit) \<times> queue) option" where
  "register_worker cfg env wid capabilities q = do {
     let now = en_now env;
     let s = tick now (q_state q);
     let s = s\<lparr>qs_workers := register_worker_entry wid capabilities (qs_workers s)\<rparr>;
     s \<leftarrow> audit_push cfg now EvWorkerRegistered None (Some wid) (''caps='' @ join_caps capabilities) s;
     Some (finish env () () q s)
   }"

fun expire_held ::
  "config \<Rightarrow> worker_id \<Rightarrow> instant \<Rightarrow> (job_id \<times> string) list \<Rightarrow> queue_state \<Rightarrow> queue_state option" where
  "expire_held cfg wid now [] s = Some s"
| "expire_held cfg wid now ((i, ns) # held) s = do {
     let s = bump inc_lease_expired ns (set_job_state i (Pending (Some wid)) s);
     s \<leftarrow> audit_push cfg now EvLeaseExpired (Some i) (Some wid) ''worker deregistered'' s;
     expire_held cfg wid now held s
   }"

definition deregister_worker ::
  "config \<Rightarrow> env \<Rightarrow> worker_id \<Rightarrow> queue \<Rightarrow> ((unit + nat) \<times> queue) option" where
  "deregister_worker cfg env wid q = do {
     let now = en_now env;
     let s = tick now (q_state q);
     let held = concat (map (\<lambda>(_, j). case jb_state j of
           Leased w _ \<Rightarrow> if w = wid then [(jb_id j, jb_namespace j)] else []
         | _ \<Rightarrow> []) (qs_jobs s));
     s \<leftarrow> expire_held cfg wid now held s;
     let (removed, ws) = deregister_worker_entry wid (qs_workers s);
     let s = s\<lparr>qs_workers := ws\<rparr>;
     s \<leftarrow> (if removed \<noteq> None then audit_push cfg now EvWorkerDeregistered None (Some wid) [] s else Some s);
     Some (finish env () (length held) q s)
   }"

definition register_namespace ::
  "env \<Rightarrow> string \<Rightarrow> namespace_config \<Rightarrow> queue \<Rightarrow> ((unit + unit) \<times> queue) option" where
  "register_namespace env name ncfg q = do {
     let s = namespace_mut name ncfg (q_state q);
     let s = s\<lparr>qs_namespaces := modify_entry name (\<lambda>ns. ns\<lparr>ns_config := ncfg\<rparr>) (qs_namespaces s)\<rparr>;
     Some (finish env () () q s)
   }"

section \<open>Observation\<close>

record namespace_metrics =
  nm_counters :: counters
  nm_active_count :: nat
  nm_leased_count :: nat
  nm_dead_letter_count :: nat

record metrics_snapshot =
  ms_counters :: counters
  ms_active_count :: nat
  ms_leased_count :: nat
  ms_dead_letter_count :: nat
  ms_by_namespace :: "(string \<times> namespace_metrics) list"

definition metrics_add :: "queue_state \<Rightarrow> string \<times> namespace_state \<Rightarrow> metrics_snapshot \<Rightarrow> metrics_snapshot" where
  "metrics_add s entry m =
     (let (name, ns) = entry;
          active = active_count_ns name s;
          leased = leased_count_ns name s;
          dead = dead_letter_count_ns name s
      in \<lparr>ms_counters = counters_add (ms_counters m) (ns_counters ns),
          ms_active_count = ms_active_count m + active,
          ms_leased_count = ms_leased_count m + leased,
          ms_dead_letter_count = ms_dead_letter_count m + dead,
          ms_by_namespace = bt_insert name \<lparr>nm_counters = ns_counters ns, nm_active_count = active,
            nm_leased_count = leased, nm_dead_letter_count = dead\<rparr> (ms_by_namespace m)\<rparr>)"

definition metrics :: "env \<Rightarrow> queue \<Rightarrow> metrics_snapshot \<times> queue" where
  "metrics env q =
     (let s = tick (en_now env) (q_state q)
      in (fold (metrics_add s) (qs_namespaces s)
            \<lparr>ms_counters = counters_default, ms_active_count = 0, ms_leased_count = 0,
             ms_dead_letter_count = 0, ms_by_namespace = []\<rparr>,
          q\<lparr>q_state := s\<rparr>))"

section \<open>Traces\<close>

text \<open>
  The mutex makes every interleaving of threads a sequence of whole operations.
\<close>

datatype op =
    OpEnqueue enqueue_request
  | OpAcquire worker_id nat
  | OpHeartbeat worker_id job_id nat
  | OpComplete worker_id job_id
  | OpFail worker_id job_id string
  | OpCancel job_id string
  | OpPromote job_id u8
  | OpRegisterWorker worker_id "string list"
  | OpDeregisterWorker worker_id
  | OpRegisterNamespace string namespace_config
  | OpObserve

fun exec :: "config \<Rightarrow> env \<Rightarrow> op \<Rightarrow> queue \<Rightarrow> queue option" where
  "exec cfg env (OpEnqueue req) q = map_option snd (enqueue cfg env req q)"
| "exec cfg env (OpAcquire w d) q = map_option snd (acquire cfg env w d q)"
| "exec cfg env (OpHeartbeat w i d) q = map_option snd (heartbeat cfg env w i d q)"
| "exec cfg env (OpComplete w i) q = map_option snd (complete cfg env w i q)"
| "exec cfg env (OpFail w i r) q = map_option snd (fail cfg env w i r q)"
| "exec cfg env (OpCancel i r) q = map_option snd (cancel cfg env i r q)"
| "exec cfg env (OpPromote i p) q = map_option snd (promote cfg env i p q)"
| "exec cfg env (OpRegisterWorker w cs) q = map_option snd (register_worker cfg env w cs q)"
| "exec cfg env (OpDeregisterWorker w) q = map_option snd (deregister_worker cfg env w q)"
| "exec cfg env (OpRegisterNamespace n c) q = map_option snd (register_namespace env n c q)"
| "exec cfg env OpObserve q = Some (snd (metrics env q))"

fun run_ops :: "config \<Rightarrow> (env \<times> op) list \<Rightarrow> queue \<Rightarrow> queue option" where
  "run_ops cfg [] q = Some q"
| "run_ops cfg ((env, op) # ops) q = do { q \<leftarrow> exec cfg env op q; run_ops cfg ops q }"

definition fresh_queue :: queue where
  "fresh_queue = \<lparr>q_state = state_empty, q_file = None\<rparr>"

end
