(* ===== verification/Job_Invariant.thy ===== *)
theory Job_Invariant
  imports Job_Queue
begin

text \<open>
  The invariant of the job queue and the steps that keep it. Most operations only move
  jobs between states; \<open>quiet\<close> is the reflexive and transitive relation such steps satisfy, and one
  lemma shows that it keeps the invariant. The clock tick, which every operation starts with, is such
  a step, and its effect on every single job is computed here.
\<close>

section \<open>The invariant\<close>

abbreviation look :: "queue_state \<Rightarrow> job_id \<Rightarrow> job option" where
  "look s i \<equiv> map_of (qs_jobs s) i"

fun is_completed :: "job_state \<Rightarrow> bool" where
  "is_completed (Completed _) = True"
| "is_completed _ = False"

fun is_dead :: "job_state \<Rightarrow> bool" where
  "is_dead (DeadLetter _ _) = True"
| "is_dead _ = False"

lemma terminal_if [simp]: "is_completed st \<Longrightarrow> is_terminal st" "is_dead st \<Longrightarrow> is_terminal st"
  by (cases st; simp)+

lemma nonterminal_if [simp]: "is_leased st \<Longrightarrow> \<not> is_terminal st" "is_pending st \<Longrightarrow> \<not> is_terminal st"
  by (cases st; simp)+

definition completed_in :: "jobs \<Rightarrow> job_id \<Rightarrow> bool" where
  "completed_in js d = (case map_of js d of Some j \<Rightarrow> is_completed (jb_state j) | None \<Rightarrow> False)"

text \<open>Dependencies point to older jobs, dependents back to the jobs that name them; the counter of a
  live job is the number of its dependencies that have not completed, and a job that is or was run
  has none.\<close>

definition job_wf :: "u64 \<Rightarrow> u64 \<Rightarrow> jobs \<Rightarrow> job_id \<Rightarrow> job \<Rightarrow> bool" where
  "job_wf nid nsq js i j \<longleftrightarrow>
     jb_id j = i \<and> i < nid \<and> jb_seq j < nsq \<and> 1 \<le> jb_priority j \<and> jb_priority j \<le> 10 \<and>
     distinct (jb_depends_on j) \<and> (\<forall>d \<in> set (jb_depends_on j). d < i) \<and>
     distinct (jb_dependents j) \<and>
     (\<forall>c \<in> set (jb_dependents j). c < nid \<and>
        (\<forall>jc. map_of js c = Some jc \<longrightarrow> i \<in> set (jb_depends_on jc))) \<and>
     (\<not> is_terminal (jb_state j) \<longrightarrow>
        unat (jb_remaining_deps j) = length (filter (\<lambda>d. \<not> completed_in js d) (jb_depends_on j)) \<and>
        (\<forall>d \<in> set (jb_depends_on j). \<forall>jd. map_of js d = Some jd \<longrightarrow>
           \<not> is_terminal (jb_state jd) \<longrightarrow> i \<in> set (jb_dependents jd))) \<and>
     (is_leased (jb_state j) \<or> is_completed (jb_state j) \<longrightarrow>
        (\<forall>d \<in> set (jb_depends_on j). completed_in js d))"

definition jobs_wf :: "u64 \<Rightarrow> u64 \<Rightarrow> jobs \<Rightarrow> bool" where
  "jobs_wf nid nsq js \<longleftrightarrow> distinct_keys js \<and>
     (\<forall>i j. map_of js i = Some j \<longrightarrow> job_wf nid nsq js i j) \<and>
     (\<forall>i j i' j'. map_of js i = Some j \<longrightarrow> map_of js i' = Some j' \<longrightarrow> jb_seq j = jb_seq j' \<longrightarrow> i = i')"

definition queue_wf :: "queue_state \<Rightarrow> bool" where
  "queue_wf s \<longleftrightarrow> jobs_wf (next_id s) (next_seq s) (qs_jobs s) \<and>
     distinct_keys (qs_namespaces s) \<and>
     (\<forall>i j. look s i = Some j \<longrightarrow> map_of (qs_namespaces s) (jb_namespace j) \<noteq> None) \<and>
     (\<forall>name ns. map_of (qs_namespaces s) name = Some ns \<longrightarrow>
        (\<forall>i \<in> set (ns_dead_letter ns). i < next_id s \<and> (\<forall>j. look s i = Some j \<longrightarrow> is_dead (jb_state j))))"

lemma queue_wfD:
  assumes "queue_wf s" "look s i = Some j"
  shows "job_wf (next_id s) (next_seq s) (qs_jobs s) i j" "jb_id j = i"
    "map_of (qs_namespaces s) (jb_namespace j) \<noteq> None"
  using assms unfolding queue_wf_def jobs_wf_def job_wf_def by blast+

section \<open>Quiet steps\<close>

definition job_step :: "job \<Rightarrow> job \<Rightarrow> bool" where
  "job_step j j' \<longleftrightarrow> jb_id j' = jb_id j \<and> jb_seq j' = jb_seq j \<and> jb_namespace j' = jb_namespace j \<and>
     jb_depends_on j' = jb_depends_on j \<and> jb_dependents j' = jb_dependents j \<and>
     jb_remaining_deps j' = jb_remaining_deps j \<and>
     (1 \<le> jb_priority j \<and> jb_priority j \<le> 10 \<longrightarrow> 1 \<le> jb_priority j' \<and> jb_priority j' \<le> 10) \<and>
     (is_terminal (jb_state j) \<longrightarrow> jb_state j' = jb_state j) \<and>
     (is_completed (jb_state j') \<longrightarrow> is_completed (jb_state j)) \<and>
     (is_leased (jb_state j') \<longrightarrow>
        is_leased (jb_state j) \<or> \<not> is_terminal (jb_state j) \<and> jb_remaining_deps j = 0)"

lemma job_step_refl [simp]: "job_step j j"
  by (simp add: job_step_def)

lemma job_stepD:
  assumes "job_step j j'"
  shows "jb_id j' = jb_id j" "jb_seq j' = jb_seq j" "jb_namespace j' = jb_namespace j"
    "jb_depends_on j' = jb_depends_on j" "jb_dependents j' = jb_dependents j"
    "jb_remaining_deps j' = jb_remaining_deps j"
    "1 \<le> jb_priority j \<Longrightarrow> jb_priority j \<le> 10 \<Longrightarrow> 1 \<le> jb_priority j' \<and> jb_priority j' \<le> 10"
    "is_terminal (jb_state j) \<Longrightarrow> jb_state j' = jb_state j"
    "is_completed (jb_state j') \<Longrightarrow> is_completed (jb_state j)"
    "is_leased (jb_state j') \<Longrightarrow>
       is_leased (jb_state j) \<or> \<not> is_terminal (jb_state j) \<and> jb_remaining_deps j = 0"
  using assms unfolding job_step_def by blast+

lemma job_step_trans:
  assumes "job_step a b" "job_step b c"
  shows "job_step a c"
proof -
  note ab = job_stepD [OF assms(1)] and bc = job_stepD [OF assms(2)]
  have lease: "is_leased (jb_state a) \<or> \<not> is_terminal (jb_state a) \<and> jb_remaining_deps a = 0"
    if "is_leased (jb_state c)"
    using bc(10) [OF that] ab(6,8,10) by metis
  have final: "is_terminal (jb_state a) \<Longrightarrow> jb_state c = jb_state a" using ab(8) bc(8) by metis
  have prio: "1 \<le> jb_priority a \<and> jb_priority a \<le> 10 \<longrightarrow> 1 \<le> jb_priority c \<and> jb_priority c \<le> 10"
    using ab(7) bc(7) by blast
  show ?thesis
    unfolding job_step_def using ab(1-6) bc(1-6) ab(9) bc(9) prio final lease by simp
qed

definition restates :: "jobs \<Rightarrow> jobs \<Rightarrow> bool" where
  "restates js js' \<longleftrightarrow> map fst js' = map fst js \<and>
     (\<forall>i j. map_of js i = Some j \<longrightarrow> (\<exists>j'. map_of js' i = Some j' \<and> job_step j j'))"

lemma map_of_None_same_keys: "map fst js' = map fst js \<Longrightarrow> map_of js' i = None \<longleftrightarrow> map_of js i = None"
  by (metis list.set_map map_of_eq_None_iff)

lemma restatesD:
  assumes "restates js js'" "map_of js i = Some j"
  obtains j' where "map_of js' i = Some j'" "job_step j j'"
  using assms unfolding restates_def by blast

lemma restates_back:
  assumes "restates js js'" "map_of js' i = Some j'"
  obtains j where "map_of js i = Some j" "job_step j j'"
proof -
  have "map fst js' = map fst js" using assms(1) by (simp add: restates_def)
  then have "map_of js i \<noteq> None" using map_of_None_same_keys [of js' js i] assms(2) by simp
  then obtain j where j: "map_of js i = Some j" by blast
  obtain k where "map_of js' i = Some k" "job_step j k" by (rule restatesD [OF assms(1) j])
  with assms(2) j show ?thesis by (intro that) simp_all
qed

lemma restates_refl [simp]: "restates js js"
  by (simp add: restates_def)

lemma restates_trans:
  assumes "restates a b" "restates b c"
  shows "restates a c"
  unfolding restates_def
proof (intro conjI allI impI)
  show "map fst c = map fst a" using assms by (simp add: restates_def)
  fix i j assume "map_of a i = Some j"
  then obtain k where k: "map_of b i = Some k" "job_step j k" by (rule restatesD [OF assms(1)])
  obtain l where "map_of c i = Some l" "job_step k l" by (rule restatesD [OF assms(2) k(1)])
  with k(2) show "\<exists>j'. map_of c i = Some j' \<and> job_step j j'" using job_step_trans by blast
qed

lemma restates_modify:
  assumes "\<And>j. map_of js i = Some j \<Longrightarrow> job_step j (f j)"
  shows "restates js (modify_entry i f js)"
  using assms by (auto simp: restates_def)

lemma restates_completed:
  assumes r: "restates js js'"
  shows "completed_in js' d \<longleftrightarrow> completed_in js d"
proof (cases "map_of js d")
  case None
  then have "map_of js' d = None" using r map_of_None_same_keys unfolding restates_def by metis
  with None show ?thesis by (simp add: completed_in_def)
next
  case (Some j)
  then obtain j' where j': "map_of js' d = Some j'" "job_step j j'" using r by (auto simp: restates_def)
  then have "is_completed (jb_state j') \<longleftrightarrow> is_completed (jb_state j)"
    unfolding job_step_def using terminal_if(1) [of "jb_state j"] by auto
  with Some j' show ?thesis by (simp add: completed_in_def)
qed

lemma job_wf_restates:
  assumes r: "restates js js'" and j: "map_of js i = Some j" "map_of js' i = Some j'"
    and wf: "job_wf nid nsq js i j"
  shows "job_wf nid nsq js' i j'"
proof -
  have "job_step j j'" using restatesD [OF r j(1)] j(2) by (metis option.inject)
  note step = job_stepD [OF this]
  note comp = restates_completed [OF r]
  have nt: "\<not> is_terminal (jb_state j') \<Longrightarrow> \<not> is_terminal (jb_state j)"
    using step(8) by (cases "is_terminal (jb_state j)") simp_all
  have "filter (\<lambda>d. \<not> completed_in js d) (jb_depends_on j) = []"
    if "\<not> is_terminal (jb_state j)" "jb_remaining_deps j = 0"
    using wf that unfolding job_wf_def by simp
  then have lease: "completed_in js d"
    if l: "is_leased (jb_state j') \<or> is_completed (jb_state j')" and d: "d \<in> set (jb_depends_on j)" for d
    using step(9,10) l d wf unfolding job_wf_def filter_empty_conv by blast
  have dependents: "i \<in> set (jb_depends_on jc')"
    if c: "c \<in> set (jb_dependents j)" "map_of js' c = Some jc'" for c jc'
  proof -
    obtain jc where "map_of js c = Some jc" "job_step jc jc'" by (rule restates_back [OF r c(2)])
    then show ?thesis using wf c(1) job_stepD(4) [of jc jc'] unfolding job_wf_def by simp
  qed
  have registered: "i \<in> set (jb_dependents jd')"
    if d: "\<not> is_terminal (jb_state j)" "d \<in> set (jb_depends_on j)" "map_of js' d = Some jd'"
      "\<not> is_terminal (jb_state jd')" for d jd'
  proof -
    obtain jd where jd: "map_of js d = Some jd" "job_step jd jd'" by (rule restates_back [OF r d(3)])
    then have "\<not> is_terminal (jb_state jd)" using job_stepD(8) [OF jd(2)] d(4) by auto
    then show ?thesis using wf d jd job_stepD(5) [OF jd(2)] unfolding job_wf_def by simp
  qed
  show ?thesis
    using wf nt lease dependents registered
    unfolding job_wf_def step(1-6) comp by (simp add: step(7))
qed

lemma jobs_wf_restates:
  assumes r: "restates js js'" and wf: "jobs_wf nid nsq js"
  shows "jobs_wf nid nsq js'"
  unfolding jobs_wf_def
proof (intro conjI allI impI)
  show "distinct_keys js'" using r wf by (simp add: restates_def jobs_wf_def)
next
  fix i j' assume j': "map_of js' i = Some j'"
  then obtain j where j: "map_of js i = Some j" using restates_back [OF r] by metis
  then have "job_wf nid nsq js i j" using wf by (simp add: jobs_wf_def)
  then show "job_wf nid nsq js' i j'" by (rule job_wf_restates [OF r j j'])
next
  fix i j i' j' assume *: "map_of js' i = Some j" "map_of js' i' = Some j'" "jb_seq j = jb_seq j'"
  obtain k where k: "map_of js i = Some k" "job_step k j" by (rule restates_back [OF r *(1)])
  obtain k' where k': "map_of js i' = Some k'" "job_step k' j'" by (rule restates_back [OF r *(2)])
  have "jb_seq k = jb_seq k'" using * k k' by (simp add: job_step_def)
  then show "i = i'" using wf k k' unfolding jobs_wf_def by blast
qed

definition rings :: "queue_state \<Rightarrow> string \<Rightarrow> (namespace_config \<times> job_id list) option" where
  "rings s name = map_option (\<lambda>ns. (ns_config ns, ns_dead_letter ns)) (map_of (qs_namespaces s) name)"

definition quiet :: "queue_state \<Rightarrow> queue_state \<Rightarrow> bool" where
  "quiet s s' \<longleftrightarrow> next_id s' = next_id s \<and> next_seq s' = next_seq s \<and>
     restates (qs_jobs s) (qs_jobs s') \<and>
     map fst (qs_namespaces s') = map fst (qs_namespaces s) \<and> rings s' = rings s"

lemma quiet_refl [simp]: "quiet s s"
  by (simp add: quiet_def)

lemma quiet_trans: "quiet a b \<Longrightarrow> quiet b c \<Longrightarrow> quiet a c"
  unfolding quiet_def using restates_trans by fastforce

lemma rings_Some: "map_of (qs_namespaces s) name = Some ns \<Longrightarrow> rings s name = Some (ns_config ns, ns_dead_letter ns)"
  by (simp add: rings_def)

lemma quietD:
  assumes "quiet s s'"
  shows "next_id s' = next_id s" "next_seq s' = next_seq s" "restates (qs_jobs s) (qs_jobs s')"
    "map fst (qs_namespaces s') = map fst (qs_namespaces s)" "rings s' = rings s"
  using assms unfolding quiet_def by blast+

lemma queue_wf_ringD:
  assumes "queue_wf s" "rings s name = Some (c, ring)" "i \<in> set ring"
  shows "i < next_id s" "look s i = Some j \<Longrightarrow> is_dead (jb_state j)"
proof -
  obtain ns where "map_of (qs_namespaces s) name = Some ns" "ns_dead_letter ns = ring"
    using assms(2) by (auto simp: rings_def)
  with assms show "i < next_id s" "look s i = Some j \<Longrightarrow> is_dead (jb_state j)"
    unfolding queue_wf_def by blast+
qed

lemma queue_wfI:
  assumes "jobs_wf (next_id s) (next_seq s) (qs_jobs s)" "distinct_keys (qs_namespaces s)"
    and "\<And>i j. look s i = Some j \<Longrightarrow> map_of (qs_namespaces s) (jb_namespace j) \<noteq> None"
    and "\<And>name c ring i. rings s name = Some (c, ring) \<Longrightarrow> i \<in> set ring \<Longrightarrow> i < next_id s"
    and "\<And>name c ring i j. rings s name = Some (c, ring) \<Longrightarrow> i \<in> set ring \<Longrightarrow> look s i = Some j \<Longrightarrow>
      is_dead (jb_state j)"
  shows "queue_wf s"
  unfolding queue_wf_def using assms(1-3) assms(4,5) [OF rings_Some] by blast

lemma quiet_wf:
  assumes q: "quiet s s'" and wf: "queue_wf s"
  shows "queue_wf s'"
proof (rule queue_wfI)
  note D = quietD [OF q] and r = quietD(3) [OF q]
  show "jobs_wf (next_id s') (next_seq s') (qs_jobs s')"
    using wf jobs_wf_restates [OF r] by (simp add: D(1,2) queue_wf_def)
  show "distinct_keys (qs_namespaces s')" using wf by (simp add: D(4) queue_wf_def)
  show "map_of (qs_namespaces s') (jb_namespace j') \<noteq> None" if l: "look s' i = Some j'" for i j'
  proof -
    obtain j where j: "look s i = Some j" "job_step j j'" by (rule restates_back [OF r l])
    have "map_of (qs_namespaces s) (jb_namespace j') \<noteq> None"
      using queue_wfD(3) [OF wf j(1)] job_stepD(3) [OF j(2)] by simp
    then show ?thesis using map_of_None_same_keys [OF D(4)] by simp
  qed
  show "i < next_id s'" if "rings s' name = Some (c, ring)" "i \<in> set ring" for name c ring i
    using queue_wf_ringD(1) [OF wf] that by (simp add: D)
  show "is_dead (jb_state j')"
    if ring: "rings s' name = Some (c, ring)" "i \<in> set ring" and l: "look s' i = Some j'" for name c ring i j'
  proof -
    obtain j where j: "look s i = Some j" "job_step j j'" by (rule restates_back [OF r l])
    have "is_dead (jb_state j)" using queue_wf_ringD(2) [OF wf _ ring(2) j(1)] ring(1) by (simp add: D)
    then show ?thesis using job_stepD(8) [OF j(2)] by simp
  qed
qed

section \<open>Building blocks are quiet\<close>

lemma quiet_audit_push: "audit_push cfg now kind jid w p s = Some s' \<Longrightarrow> quiet s s'"
  by (auto simp: audit_push_def quiet_def rings_def)

lemma rings_bump [simp]: "rings (bump f name s) = rings s"
  by (rule ext) (auto simp: rings_def bump_def option.map_comp comp_def)

lemma quiet_bump [simp]: "quiet s (bump f name s)"
  unfolding quiet_def by simp (simp add: bump_def)

lemma quiet_bump_expect: "bump_expect f name s = Some s' \<Longrightarrow> quiet s s'"
  by (auto simp: bump_expect_def split: if_splits)

definition live :: "queue_state \<Rightarrow> job_id \<Rightarrow> bool" where
  "live s i \<longleftrightarrow> (\<forall>j. look s i = Some j \<longrightarrow> \<not> is_terminal (jb_state j))"

lemma quiet_set_job_state:
  assumes "live s i" "\<not> is_completed st"
    and "is_leased st \<Longrightarrow> \<forall>j. look s i = Some j \<longrightarrow> is_leased (jb_state j) \<or> jb_remaining_deps j = 0"
  shows "quiet s (set_job_state i st s)"
proof -
  have "restates (qs_jobs s) (modify_entry i (\<lambda>j. j\<lparr>jb_state := st\<rparr>) (qs_jobs s))"
    by (rule restates_modify) (use assms in \<open>auto simp: live_def job_step_def\<close>)
  then show ?thesis by (simp add: quiet_def set_job_state_def rings_def fun_eq_iff)
qed

lemma look_set_job_state:
  "look (set_job_state i st s) k =
     (if i = k then map_option (\<lambda>j. j\<lparr>jb_state := st\<rparr>) (look s k) else look s k)"
  by (simp add: set_job_state_def)

lemma look_bump [simp]: "qs_jobs (bump f name s) = qs_jobs s"
  by (simp add: bump_def)

lemma live_set_waiting: "live s k \<Longrightarrow> \<not> is_terminal st \<Longrightarrow> live (set_job_state i st s) k"
  by (auto simp: live_def look_set_job_state split: if_splits)

lemma live_bump [simp]: "live (bump f name s) k = live s k"
  by (simp add: live_def)

section \<open>The clock tick\<close>

lemma set_job_state_fields [simp]:
  "next_id (set_job_state i st s) = next_id s" "next_seq (set_job_state i st s) = next_seq s"
  "qs_namespaces (set_job_state i st s) = qs_namespaces s" "qs_workers (set_job_state i st s) = qs_workers s"
  "qs_audit (set_job_state i st s) = qs_audit s" "cancelled_order (set_job_state i st s) = cancelled_order s"
  by (simp_all add: set_job_state_def)

lemma bump_fields [simp]:
  "next_id (bump f n s) = next_id s" "next_seq (bump f n s) = next_seq s"
  "qs_workers (bump f n s) = qs_workers s" "qs_audit (bump f n s) = qs_audit s"
  "cancelled_order (bump f n s) = cancelled_order s"
  by (simp_all add: bump_def)

lemma queue_wf_distinct: "queue_wf s \<Longrightarrow> distinct_keys (qs_jobs s)"
  unfolding queue_wf_def jobs_wf_def by blast

lemma look_in_jobs: "queue_wf s \<Longrightarrow> (k, j) \<in> set (qs_jobs s) \<longleftrightarrow> look s k = Some j"
  by (rule map_of_in_set_iff [OF queue_wf_distinct])

lemma look_fold_set:
  "look (fold (\<lambda>i. set_job_state i st) ids s) k =
     (if k \<in> set ids then map_option (\<lambda>j. j\<lparr>jb_state := st\<rparr>) (look s k) else look s k)"
  by (induction ids arbitrary: s) (auto simp: look_set_job_state option.map_comp comp_def)

lemma fold_set_quiet:
  "\<forall>i \<in> set ids. live s i \<Longrightarrow> quiet s (fold (\<lambda>i. set_job_state i (Pending w)) ids s)"
proof (induction ids arbitrary: s)
  case (Cons i ids)
  have "quiet s (set_job_state i (Pending w) s)" using Cons.prems by (intro quiet_set_job_state) simp_all
  moreover have "quiet (set_job_state i (Pending w) s)
      (fold (\<lambda>i. set_job_state i (Pending w)) ids (set_job_state i (Pending w) s))"
    by (rule Cons.IH) (use Cons.prems in \<open>simp add: live_set_waiting\<close>)
  ultimately show ?case by (auto intro: quiet_trans)
qed simp

fun sched_state :: "instant \<Rightarrow> job_state \<Rightarrow> job_state" where
  "sched_state now (Scheduled t) = (if t \<le> now then Pending None else Scheduled t)"
| "sched_state now st = st"

fun retry_state :: "instant \<Rightarrow> job_state \<Rightarrow> job_state" where
  "retry_state now (RetryPending t) = (if t \<le> now then Pending None else RetryPending t)"
| "retry_state now st = st"

fun lease_state :: "instant \<Rightarrow> job_state \<Rightarrow> job_state" where
  "lease_state now (Leased w e) = (if e \<le> now then Pending (Some w) else Leased w e)"
| "lease_state now st = st"

definition restate :: "(job_state \<Rightarrow> job_state) \<Rightarrow> job \<Rightarrow> job" where
  "restate f j = j\<lparr>jb_state := f (jb_state j)\<rparr>"

lemma in_select:
  assumes "queue_wf s"
  shows "x \<in> set (concat (map (\<lambda>(_, j). g j) (qs_jobs s))) \<longleftrightarrow> (\<exists>i j. look s i = Some j \<and> x \<in> set (g j))"
  using look_in_jobs [OF assms] by fastforce

lemma fold_due_spec:
  assumes wf: "queue_wf s"
    and sel: "\<And>j x. x \<in> set (g j) \<longleftrightarrow> x = jb_id j \<and> P j"
    and live: "\<And>j. P j \<Longrightarrow> \<not> is_terminal (jb_state j)"
  defines "due \<equiv> concat (map (\<lambda>(_, j). g j) (qs_jobs s))"
  shows "quiet s (fold (\<lambda>i. set_job_state i (Pending w)) due s)"
    "look (fold (\<lambda>i. set_job_state i (Pending w)) due s) k =
       map_option (\<lambda>j. if P j then j\<lparr>jb_state := Pending w\<rparr> else j) (look s k)"
proof -
  have mem: "i \<in> set due \<longleftrightarrow> (\<exists>j. look s i = Some j \<and> P j)" for i
    unfolding due_def in_select [OF wf] sel using queue_wfD(2) [OF wf] by auto
  show "quiet s (fold (\<lambda>i. set_job_state i (Pending w)) due s)"
    by (rule fold_set_quiet) (auto simp: mem live_def live)
  show "look (fold (\<lambda>i. set_job_state i (Pending w)) due s) k =
       map_option (\<lambda>j. if P j then j\<lparr>jb_state := Pending w\<rparr> else j) (look s k)"
    unfolding look_fold_set mem by (cases "look s k") auto
qed

lemma promote_scheduled_spec:
  assumes wf: "queue_wf s"
  shows "quiet s (promote_scheduled now s)"
    "look (promote_scheduled now s) k = map_option (restate (sched_state now)) (look s k)"
proof -
  let ?g = "\<lambda>j. case jb_state j of Scheduled t \<Rightarrow> if t \<le> now then [jb_id j] else [] | _ \<Rightarrow> []"
  let ?P = "\<lambda>j. case jb_state j of Scheduled t \<Rightarrow> t \<le> now | _ \<Rightarrow> False"
  have sel: "x \<in> set (?g j) \<longleftrightarrow> x = jb_id j \<and> ?P j" for x j by (cases "jb_state j") auto
  have live: "?P j \<Longrightarrow> \<not> is_terminal (jb_state j)" for j by (cases "jb_state j") auto
  note spec = fold_due_spec [OF wf sel live, where w = None]
  show "quiet s (promote_scheduled now s)" using spec(1) by (simp add: promote_scheduled_def Let_def)
  have "(\<lambda>j. if ?P j then j\<lparr>jb_state := Pending None\<rparr> else j) = restate (sched_state now)"
  proof
    fix j :: job
    show "(if ?P j then j\<lparr>jb_state := Pending None\<rparr> else j) = restate (sched_state now) j"
      by (cases "jb_state j") (simp_all add: restate_def)
  qed
  then show "look (promote_scheduled now s) k = map_option (restate (sched_state now)) (look s k)"
    using spec(2) [of k] unfolding promote_scheduled_def Let_def by (simp only:)
qed

lemma promote_retries_spec:
  assumes wf: "queue_wf s"
  shows "quiet s (promote_retries now s)"
    "look (promote_retries now s) k = map_option (restate (retry_state now)) (look s k)"
proof -
  let ?g = "\<lambda>j. case jb_state j of RetryPending t \<Rightarrow> if t \<le> now then [jb_id j] else [] | _ \<Rightarrow> []"
  let ?P = "\<lambda>j. case jb_state j of RetryPending t \<Rightarrow> t \<le> now | _ \<Rightarrow> False"
  have sel: "x \<in> set (?g j) \<longleftrightarrow> x = jb_id j \<and> ?P j" for x j by (cases "jb_state j") auto
  have live: "?P j \<Longrightarrow> \<not> is_terminal (jb_state j)" for j by (cases "jb_state j") auto
  note spec = fold_due_spec [OF wf sel live, where w = None]
  show "quiet s (promote_retries now s)" using spec(1) by (simp add: promote_retries_def Let_def)
  have "(\<lambda>j. if ?P j then j\<lparr>jb_state := Pending None\<rparr> else j) = restate (retry_state now)"
  proof
    fix j :: job
    show "(if ?P j then j\<lparr>jb_state := Pending None\<rparr> else j) = restate (retry_state now) j"
      by (cases "jb_state j") (simp_all add: restate_def)
  qed
  then show "look (promote_retries now s) k = map_option (restate (retry_state now)) (look s k)"
    using spec(2) [of k] unfolding promote_retries_def Let_def by (simp only:)
qed

definition expire_one :: "job_id \<times> worker_id \<times> string \<Rightarrow> queue_state \<Rightarrow> queue_state" where
  "expire_one x s = (case x of (i, w, ns) \<Rightarrow> bump inc_lease_expired ns (set_job_state i (Pending (Some w)) s))"

lemma fold_expire_quiet:
  "\<forall>x \<in> set xs. live s (fst x) \<Longrightarrow> quiet s (fold expire_one xs s)"
proof (induction xs arbitrary: s)
  case (Cons x xs)
  obtain i w n where x: "x = (i, w, n)" by (cases x)
  have "quiet s (set_job_state i (Pending (Some w)) s)"
    using Cons.prems x by (intro quiet_set_job_state) simp_all
  then have "quiet s (expire_one x s)" by (auto simp: x expire_one_def intro: quiet_trans)
  moreover have "quiet (expire_one x s) (fold expire_one xs (expire_one x s))"
    by (rule Cons.IH) (use Cons.prems in \<open>simp add: x expire_one_def live_set_waiting\<close>)
  ultimately show ?case by (auto intro: quiet_trans)
qed simp

lemma look_fold_expire_other:
  "\<forall>x \<in> set xs. fst x \<noteq> k \<Longrightarrow> look (fold expire_one xs s) k = look s k"
  by (induction xs arbitrary: s) (auto simp: expire_one_def look_set_job_state)

lemma look_fold_expire_hit:
  assumes "(k, w, n) \<in> set xs" "{(i, w', n') \<in> set xs. i = k} \<subseteq> UNIV \<times> {w} \<times> UNIV"
  shows "look (fold expire_one xs s) k = map_option (\<lambda>j. j\<lparr>jb_state := Pending (Some w)\<rparr>) (look s k)"
  using assms
proof (induction xs arbitrary: s n)
  case (Cons x xs)
  obtain i w' n' where x: "x = (i, w', n')" by (cases x)
  have sub: "{(i, w', n') \<in> set xs. i = k} \<subseteq> UNIV \<times> {w} \<times> UNIV" using Cons.prems(2) by auto
  have w': "i = k \<Longrightarrow> w' = w" using Cons.prems(2) x by auto
  show ?case
  proof (cases "\<exists>w n. (k, w, n) \<in> set xs")
    case True
    then obtain w2 n2 where in_xs: "(k, w2, n2) \<in> set xs" by blast
    then have "(k, w2, n2) \<in> {(i, w', n') \<in> set xs. i = k}" by simp
    with sub have "w2 = w" by blast
    with in_xs have "(k, w, n2) \<in> set xs" by simp
    then have "look (fold expire_one xs (expire_one x s)) k =
        map_option (\<lambda>j. j\<lparr>jb_state := Pending (Some w)\<rparr>) (look (expire_one x s) k)"
      by (rule Cons.IH [OF _ sub])
    moreover have "map_option (\<lambda>j. j\<lparr>jb_state := Pending (Some w)\<rparr>) (look (expire_one x s) k) =
        map_option (\<lambda>j. j\<lparr>jb_state := Pending (Some w)\<rparr>) (look s k)"
      by (simp add: x expire_one_def look_set_job_state option.map_comp comp_def)
    ultimately show ?thesis by simp
  next
    case False
    then have "i = k" using Cons.prems(1) x by auto
    moreover have "look (fold expire_one xs (expire_one x s)) k = look (expire_one x s) k"
      by (rule look_fold_expire_other) (use False in auto)
    moreover have "look (expire_one x s) k = map_option (\<lambda>j. j\<lparr>jb_state := Pending (Some w)\<rparr>) (look s k)"
      using w' [OF \<open>i = k\<close>] \<open>i = k\<close> by (simp add: x expire_one_def look_set_job_state)
    ultimately show ?thesis by simp
  qed
qed simp

lemma expire_leases_spec:
  assumes wf: "queue_wf s"
  shows "quiet s (expire_leases now s)"
    "look (expire_leases now s) k = map_option (restate (lease_state now)) (look s k)"
proof -
  let ?g = "\<lambda>j. case jb_state j of Leased w e \<Rightarrow>
    if e \<le> now then [(jb_id j, w, jb_namespace j)] else [] | _ \<Rightarrow> []"
  define xs where "xs = concat (map (\<lambda>(_, j). ?g j) (qs_jobs s))"
  have sel: "(i, w, n) \<in> set (?g j) \<longleftrightarrow>
      i = jb_id j \<and> n = jb_namespace j \<and> (\<exists>e. jb_state j = Leased w e \<and> e \<le> now)" for i w n j
    by (cases "jb_state j") auto
  have mem: "(i, w, n) \<in> set xs \<longleftrightarrow>
      (\<exists>j e. look s i = Some j \<and> n = jb_namespace j \<and> jb_state j = Leased w e \<and> e \<le> now)" for i w n
    unfolding xs_def in_select [OF wf] sel using queue_wfD(2) [OF wf] by blast
  have eq: "expire_leases now s = fold expire_one xs s"
    unfolding expire_leases_def xs_def Let_def expire_one_def [abs_def] by (simp add: case_prod_unfold)
  show "quiet s (expire_leases now s)"
    unfolding eq by (rule fold_expire_quiet) (auto simp: mem live_def)
  show "look (expire_leases now s) k = map_option (restate (lease_state now)) (look s k)"
  proof (cases "\<exists>w n. (k, w, n) \<in> set xs")
    case True
    then obtain w n where *: "(k, w, n) \<in> set xs" by blast
    then obtain j e where j: "look s k = Some j" "jb_state j = Leased w e" "e \<le> now" by (auto simp: mem)
    have "look (fold expire_one xs s) k = map_option (\<lambda>j. j\<lparr>jb_state := Pending (Some w)\<rparr>) (look s k)"
      by (rule look_fold_expire_hit [OF *]) (use j in \<open>auto simp: mem\<close>)
    with j show ?thesis by (simp add: eq restate_def)
  next
    case False
    then have "look (fold expire_one xs s) k = look s k" by (intro look_fold_expire_other) auto
    moreover have "restate (lease_state now) j = j" if "look s k = Some j" for j
      using False that unfolding mem by (cases "jb_state j") (auto simp: restate_def)
    ultimately show ?thesis by (cases "look s k") (simp_all add: eq)
  qed
qed

definition tick_state :: "instant \<Rightarrow> job_state \<Rightarrow> job_state" where
  "tick_state now st = lease_state now (retry_state now (sched_state now st))"

lemma tick_quiet: "queue_wf s \<Longrightarrow> quiet s (tick now s)"
  unfolding tick_def
  by (meson expire_leases_spec(1) promote_retries_spec(1) promote_scheduled_spec(1) quiet_trans quiet_wf)

lemma look_tick:
  assumes "queue_wf s"
  shows "look (tick now s) k = map_option (restate (tick_state now)) (look s k)"
proof -
  note w1 = quiet_wf [OF promote_scheduled_spec(1) [OF assms] assms]
  note w2 = quiet_wf [OF promote_retries_spec(1) [OF w1] w1]
  show ?thesis
    unfolding tick_def expire_leases_spec(2) [OF w2] promote_retries_spec(2) [OF w1]
      promote_scheduled_spec(2) [OF assms]
    by (simp add: option.map_comp comp_def restate_def [abs_def] tick_state_def)
qed

lemma tick_wf [wf_intros]: "queue_wf s \<Longrightarrow> queue_wf (tick now s)"
  by (rule quiet_wf [OF tick_quiet])

end
