(* ===== verification/Job_Dependencies.thy ===== *)
theory Job_Dependencies
  imports Job_Invariant
begin

text \<open>
  The steps of the job queue that touch the dependency bookkeeping: creation of a namespace,
  completion of a job and the countdown of its dependents, the dropping of old dead letters, and the
  cascade that cancels a job and everything that waits for it.
\<close>

section \<open>Frames\<close>

text \<open>Everything but the jobs that the invariant speaks about stays the same.\<close>

definition frame :: "queue_state \<Rightarrow> queue_state \<Rightarrow> bool" where
  "frame s s' \<longleftrightarrow> next_id s' = next_id s \<and> next_seq s' = next_seq s \<and>
     map fst (qs_namespaces s') = map fst (qs_namespaces s) \<and> rings s' = rings s"

lemma frame_refl [simp]: "frame s s"
  by (simp add: frame_def)

lemma frame_trans: "frame a b \<Longrightarrow> frame b c \<Longrightarrow> frame a c"
  by (simp add: frame_def)

lemma quiet_iff_frame: "quiet s s' \<longleftrightarrow> frame s s' \<and> restates (qs_jobs s) (qs_jobs s')"
  by (auto simp: quiet_def frame_def)

lemma frame_set_job_state [simp]: "frame s (set_job_state i st s)"
  by (simp add: frame_def rings_def fun_eq_iff)

lemma frame_bump [simp]: "frame s (bump f n s)"
  by (simp add: frame_def) (simp add: bump_def)

lemma audit_push_frame: "audit_push cfg now kind jid w p s = Some s' \<Longrightarrow> frame s s' \<and> qs_jobs s' = qs_jobs s"
  by (auto simp: audit_push_def frame_def rings_def)

lemma bump_expect_frame: "bump_expect f n s = Some s' \<Longrightarrow> frame s s' \<and> qs_jobs s' = qs_jobs s"
  by (auto simp: bump_expect_def split: if_splits)

lemma frame_jobs_update [simp]: "frame s (s\<lparr>qs_jobs := js\<rparr>)" "frame s (s\<lparr>cancelled_order := cs\<rparr>)"
  "frame s (s\<lparr>qs_workers := ws\<rparr>)"
  by (simp_all add: frame_def rings_def fun_eq_iff)

lemma wf_frame_jobs:
  assumes fr: "frame s s'" and wf: "queue_wf s"
    and jobs: "jobs_wf (next_id s) (next_seq s) (qs_jobs s')"
    and keep: "\<And>i j'. look s' i = Some j' \<Longrightarrow> \<exists>j. look s i = Some j \<and> jb_namespace j' = jb_namespace j \<and>
      (is_dead (jb_state j) \<longrightarrow> is_dead (jb_state j'))"
  shows "queue_wf s'"
proof (rule queue_wfI)
  have D: "next_id s' = next_id s" "next_seq s' = next_seq s"
    "map fst (qs_namespaces s') = map fst (qs_namespaces s)" "rings s' = rings s"
    using fr unfolding frame_def by blast+
  show "jobs_wf (next_id s') (next_seq s') (qs_jobs s')" using jobs by (simp add: D)
  show "distinct_keys (qs_namespaces s')" using wf unfolding D queue_wf_def by blast
  show "map_of (qs_namespaces s') (jb_namespace j') \<noteq> None" if l: "look s' i = Some j'" for i j'
  proof -
    obtain j where "look s i = Some j" "jb_namespace j' = jb_namespace j" using keep [OF l] by blast
    then have "map_of (qs_namespaces s) (jb_namespace j') \<noteq> None" using queue_wfD(3) [OF wf] by simp
    then show ?thesis using map_of_None_same_keys [OF D(3)] by simp
  qed
  show "i < next_id s'" if "rings s' name = Some (c, ring)" "i \<in> set ring" for name c ring i
    using queue_wf_ringD(1) [OF wf] that by (simp add: D)
  show "is_dead (jb_state j')"
    if ring: "rings s' name = Some (c, ring)" "i \<in> set ring" and l: "look s' i = Some j'" for name c ring i j'
  proof -
    obtain j where "look s i = Some j" "is_dead (jb_state j) \<longrightarrow> is_dead (jb_state j')"
      using keep [OF l] by blast
    then show ?thesis using queue_wf_ringD(2) [OF wf _ ring(2)] ring(1) by (simp add: D)
  qed
qed

section \<open>Namespaces\<close>

lemma map_of_bt_insert [simp]: "map_of (bt_insert k v al) = (map_of al)(k \<mapsto> v)"
  by (induction k v al rule: bt_insert.induct) (auto simp: fun_eq_iff)

lemma keys_bt_insert: "set (map fst (bt_insert k v al)) = insert k (set (map fst al))"
  by (induction k v al rule: bt_insert.induct) auto

lemma distinct_bt_insert:
  "distinct_keys al \<Longrightarrow> map_of al k = None \<Longrightarrow> distinct_keys (bt_insert k v al)"
proof (induction k v al rule: bt_insert.induct)
  case (2 k v k' v' al)
  then show ?case using keys_bt_insert [of k v al] by (auto simp: map_of_eq_None_iff split: if_splits)
qed simp

lemma namespace_mut_jobs [simp]:
  "qs_jobs (namespace_mut n c s) = qs_jobs s" "next_id (namespace_mut n c s) = next_id s"
  "next_seq (namespace_mut n c s) = next_seq s" "qs_audit (namespace_mut n c s) = qs_audit s"
  by (simp_all add: namespace_mut_def)

lemma namespace_mut_has [simp]: "map_of (qs_namespaces (namespace_mut n c s)) n \<noteq> None"
  by (simp add: namespace_mut_def)

lemma namespace_mut_rings:
  "rings (namespace_mut n c s) m = (if m = n \<and> rings s n = None then Some (c, []) else rings s m)"
  by (auto simp: namespace_mut_def rings_def)

lemma namespace_mut_wf [wf_intros]:
  assumes wf: "queue_wf s"
  shows "queue_wf (namespace_mut n c s)"
proof (rule queue_wfI)
  show "jobs_wf (next_id (namespace_mut n c s)) (next_seq (namespace_mut n c s)) (qs_jobs (namespace_mut n c s))"
    using wf by (simp add: queue_wf_def)
  have "distinct_keys (qs_namespaces s)" using wf unfolding queue_wf_def by blast
  then show "distinct_keys (qs_namespaces (namespace_mut n c s))"
  proof (cases "map_of (qs_namespaces s) n = None")
    case True
    have "distinct_keys (bt_insert n v (qs_namespaces s))" for v
      by (rule distinct_bt_insert) fact+
    with True show ?thesis by (simp add: namespace_mut_def del: map_of_eq_None_iff)
  qed (simp add: namespace_mut_def)
  show "map_of (qs_namespaces (namespace_mut n c s)) (jb_namespace j) \<noteq> None"
    if "look (namespace_mut n c s) i = Some j" for i j
  proof -
    have "map_of (qs_namespaces s) (jb_namespace j) \<noteq> None"
      using queue_wfD(3) [OF wf, of i j] that by simp
    then show ?thesis by (auto simp: namespace_mut_def)
  qed
  show "i < next_id (namespace_mut n c s)"
    if "rings (namespace_mut n c s) name = Some (d, ring)" "i \<in> set ring" for name d ring i
    using that queue_wf_ringD(1) [OF wf, of name d ring i] by (auto simp: namespace_mut_rings split: if_splits)
  show "is_dead (jb_state j)"
    if "rings (namespace_mut n c s) name = Some (d, ring)" "i \<in> set ring" "look (namespace_mut n c s) i = Some j"
    for name d ring i j
    using that queue_wf_ringD(2) [OF wf, of name d ring i j] by (auto simp: namespace_mut_rings split: if_splits)
qed

section \<open>Completion\<close>

lemma map_fst_fold_modify [simp]: "map fst (fold (\<lambda>c. modify_entry c f) cs js) = map fst js"
  by (induction cs arbitrary: js) simp_all

lemma map_of_fold_modify:
  "distinct cs \<Longrightarrow> map_of (fold (\<lambda>c. modify_entry c f) cs js) k =
     (if k \<in> set cs then map_option f (map_of js k) else map_of js k)"
  by (induction cs arbitrary: js) auto

lemma count_drop_one:
  assumes "distinct ds" "i \<in> set ds" "P i" "\<And>d. Q d \<longleftrightarrow> P d \<and> d \<noteq> i"
  shows "length (filter P ds) = Suc (length (filter Q ds))"
proof -
  have "filter Q ds = filter (\<lambda>d. d \<noteq> i) (filter P ds)"
    unfolding filter_filter by (rule filter_cong) (simp_all add: assms(4))
  moreover have "length (filter (\<lambda>d. d \<noteq> i) (filter P ds)) = length (remove1 i (filter P ds))"
    using assms(1) by (simp add: distinct_remove1_removeAll removeAll_filter_not_eq eq_commute)
  moreover have i: "i \<in> set (filter P ds)" using assms(2,3) by simp
  then have "0 < length (filter P ds)" by (rule length_pos_if_in_set)
  ultimately show ?thesis using i by (simp add: length_remove1)
qed

definition complete_jobs :: "instant \<Rightarrow> job_id \<Rightarrow> job \<Rightarrow> jobs \<Rightarrow> jobs" where
  "complete_jobs now i j js =
     fold (\<lambda>c. modify_entry c dec_remaining) (jb_dependents j)
       (modify_entry i (\<lambda>j. j\<lparr>jb_state := Completed now\<rparr>) js)"

lemma dec_remaining_fields [simp]:
  "jb_id (dec_remaining j) = jb_id j" "jb_seq (dec_remaining j) = jb_seq j"
  "jb_priority (dec_remaining j) = jb_priority j" "jb_depends_on (dec_remaining j) = jb_depends_on j"
  "jb_dependents (dec_remaining j) = jb_dependents j" "jb_state (dec_remaining j) = jb_state j"
  "jb_namespace (dec_remaining j) = jb_namespace j"
  by (simp_all add: dec_remaining_def)

lemma complete_jobs_look:
  assumes "distinct (jb_dependents j)" "i \<notin> set (jb_dependents j)"
  shows "map_of (complete_jobs now i j js) k =
    (if k = i then map_option (\<lambda>j. j\<lparr>jb_state := Completed now\<rparr>) (map_of js k)
     else if k \<in> set (jb_dependents j) then map_option dec_remaining (map_of js k)
     else map_of js k)"
  using assms by (simp add: complete_jobs_def map_of_fold_modify)

lemma job_wfD:
  assumes "job_wf nid nsq js i j"
  shows "jb_id j = i" "i < nid" "jb_seq j < nsq" "1 \<le> jb_priority j" "jb_priority j \<le> 10"
    "distinct (jb_depends_on j)" "d \<in> set (jb_depends_on j) \<Longrightarrow> d < i"
    "distinct (jb_dependents j)" "c \<in> set (jb_dependents j) \<Longrightarrow> c < nid"
    "c \<in> set (jb_dependents j) \<Longrightarrow> map_of js c = Some jc \<Longrightarrow> i \<in> set (jb_depends_on jc)"
    "\<not> is_terminal (jb_state j) \<Longrightarrow>
       unat (jb_remaining_deps j) = length (filter (\<lambda>d. \<not> completed_in js d) (jb_depends_on j))"
    "\<not> is_terminal (jb_state j) \<Longrightarrow> d \<in> set (jb_depends_on j) \<Longrightarrow> map_of js d = Some jd \<Longrightarrow>
       \<not> is_terminal (jb_state jd) \<Longrightarrow> i \<in> set (jb_dependents jd)"
    "is_leased (jb_state j) \<or> is_completed (jb_state j) \<Longrightarrow> d \<in> set (jb_depends_on j) \<Longrightarrow> completed_in js d"
  using assms unfolding job_wf_def by blast+

lemma job_wfI:
  assumes "jb_id j = i" "i < nid" "jb_seq j < nsq" "1 \<le> jb_priority j" "jb_priority j \<le> 10"
    and "distinct (jb_depends_on j)" "\<And>d. d \<in> set (jb_depends_on j) \<Longrightarrow> d < i"
    and "distinct (jb_dependents j)" "\<And>c. c \<in> set (jb_dependents j) \<Longrightarrow> c < nid"
    and "\<And>c jc. c \<in> set (jb_dependents j) \<Longrightarrow> map_of js c = Some jc \<Longrightarrow> i \<in> set (jb_depends_on jc)"
    and "\<not> is_terminal (jb_state j) \<Longrightarrow>
       unat (jb_remaining_deps j) = length (filter (\<lambda>d. \<not> completed_in js d) (jb_depends_on j))"
    and "\<And>d jd. \<not> is_terminal (jb_state j) \<Longrightarrow> d \<in> set (jb_depends_on j) \<Longrightarrow> map_of js d = Some jd \<Longrightarrow>
       \<not> is_terminal (jb_state jd) \<Longrightarrow> i \<in> set (jb_dependents jd)"
    and "\<And>d. is_leased (jb_state j) \<or> is_completed (jb_state j) \<Longrightarrow> d \<in> set (jb_depends_on j) \<Longrightarrow> completed_in js d"
  shows "job_wf nid nsq js i j"
  unfolding job_wf_def using assms by blast

lemma jobs_wfD:
  assumes "jobs_wf nid nsq js"
  shows "distinct_keys js" "map_of js i = Some j \<Longrightarrow> job_wf nid nsq js i j"
    "map_of js i = Some j \<Longrightarrow> map_of js i' = Some j' \<Longrightarrow> jb_seq j = jb_seq j' \<Longrightarrow> i = i'"
  using assms unfolding jobs_wf_def by blast+

lemma jobs_wfI:
  assumes "distinct_keys js" "\<And>i j. map_of js i = Some j \<Longrightarrow> job_wf nid nsq js i j"
    and "\<And>i j i' j'. map_of js i = Some j \<Longrightarrow> map_of js i' = Some j' \<Longrightarrow> jb_seq j = jb_seq j' \<Longrightarrow> i = i'"
  shows "jobs_wf nid nsq js"
  unfolding jobs_wf_def using assms by blast

lemma complete_jobs_wf:
  assumes wf: "jobs_wf nid nsq js" and i: "map_of js i = Some j" and leased: "is_leased (jb_state j)"
  shows "jobs_wf nid nsq (complete_jobs now i j js)"
proof (rule jobs_wfI)
  note wi = job_wfD [OF jobs_wfD(2) [OF wf i]]
  let ?js = "complete_jobs now i j js"
  have "i \<notin> set (jb_dependents j)" using wi(10) [OF _ i] wi(7) by blast
  note look' = complete_jobs_look [OF wi(8) this, of now js]
  have prev: "\<exists>k0. map_of js k = Some k0 \<and> jb_id k' = jb_id k0 \<and> jb_seq k' = jb_seq k0 \<and>
      jb_priority k' = jb_priority k0 \<and> jb_depends_on k' = jb_depends_on k0 \<and>
      jb_dependents k' = jb_dependents k0 \<and>
      jb_state k' = (if k = i then Completed now else jb_state k0) \<and>
      jb_remaining_deps k' = (if k \<noteq> i \<and> k \<in> set (jb_dependents j) then jb_remaining_deps (dec_remaining k0)
        else jb_remaining_deps k0)"
    if "map_of ?js k = Some k'" for k k'
    using that by (auto simp: look' split: if_splits)
  have comp: "completed_in ?js d \<longleftrightarrow> completed_in js d \<or> d = i" for d
    using i by (auto simp: completed_in_def look' split: option.splits)
  show "distinct_keys ?js" using jobs_wfD(1) [OF wf] by (simp add: complete_jobs_def)
  show "k = l" if *: "map_of ?js k = Some k'" "map_of ?js l = Some l'" "jb_seq k' = jb_seq l'" for k k' l l'
    using prev [OF *(1)] prev [OF *(2)] *(3) jobs_wfD(3) [OF wf] by metis
  show "job_wf nid nsq ?js k k'" if k': "map_of ?js k = Some k'" for k k'
  proof -
    obtain k0 where k0: "map_of js k = Some k0" and same: "jb_id k' = jb_id k0" "jb_seq k' = jb_seq k0"
        "jb_priority k' = jb_priority k0" "jb_depends_on k' = jb_depends_on k0"
        "jb_dependents k' = jb_dependents k0"
      and st: "jb_state k' = (if k = i then Completed now else jb_state k0)"
      and rem: "jb_remaining_deps k' = (if k \<noteq> i \<and> k \<in> set (jb_dependents j)
        then jb_remaining_deps (dec_remaining k0) else jb_remaining_deps k0)"
      using prev [OF k'] by blast
    note wk = job_wfD [OF jobs_wfD(2) [OF wf k0]]
    have count: "unat (jb_remaining_deps k') = length (filter (\<lambda>d. \<not> completed_in ?js d) (jb_depends_on k0))"
      if nt: "k \<noteq> i" "\<not> is_terminal (jb_state k0)"
    proof (cases "i \<in> set (jb_depends_on k0)")
      case True
      have dep: "k \<in> set (jb_dependents j)"
        using wk(12) [OF nt(2) True i] leased by simp
      have "\<not> completed_in js i" using i leased by (cases "jb_state j") (auto simp: completed_in_def)
      then have "length (filter (\<lambda>d. \<not> completed_in js d) (jb_depends_on k0)) =
          Suc (length (filter (\<lambda>d. \<not> completed_in ?js d) (jb_depends_on k0)))"
        by (intro count_drop_one [OF wk(6) True]) (auto simp: comp)
      then have r: "unat (jb_remaining_deps k0) = Suc (length (filter (\<lambda>d. \<not> completed_in ?js d) (jb_depends_on k0)))"
        using wk(11) [OF nt(2)] by simp
      then have "jb_remaining_deps k0 \<noteq> 0" by auto
      then have "unat (jb_remaining_deps k0 - 1) = unat (jb_remaining_deps k0) - 1" by (rule unat_minus_one)
      with r dep nt(1) \<open>jb_remaining_deps k0 \<noteq> 0\<close> show ?thesis by (simp add: rem dec_remaining_def)
    next
      case False
      then have "k \<notin> set (jb_dependents j)" using wi(10) [OF _ k0] by blast
      moreover have "filter (\<lambda>d. \<not> completed_in ?js d) (jb_depends_on k0) =
          filter (\<lambda>d. \<not> completed_in js d) (jb_depends_on k0)"
        using False by (intro filter_cong) (auto simp: comp)
      ultimately show ?thesis using wk(11) [OF nt(2)] by (simp add: rem)
    qed
    show ?thesis
    proof (rule job_wfI)
      show "k \<in> set (jb_depends_on jc')" if c: "c \<in> set (jb_dependents k')" "map_of ?js c = Some jc'" for c jc'
        using prev [OF c(2)] wk(10) c(1) same(5) by metis
      show "k \<in> set (jb_dependents jd')"
        if d: "\<not> is_terminal (jb_state k')" "d \<in> set (jb_depends_on k')" "map_of ?js d = Some jd'"
          "\<not> is_terminal (jb_state jd')" for d jd'
      proof -
        have nt: "\<not> is_terminal (jb_state k0)" using d(1) st by (simp split: if_splits)
        obtain jd where jd: "map_of js d = Some jd" "jb_dependents jd' = jb_dependents jd"
          "jb_state jd' = (if d = i then Completed now else jb_state jd)" using prev [OF d(3)] by blast
        then have "\<not> is_terminal (jb_state jd)" using d(4) by (simp split: if_splits)
        with wk(12) [OF nt _ jd(1)] d(2) same(4) jd(2) show ?thesis by simp
      qed
      show "unat (jb_remaining_deps k') = length (filter (\<lambda>d. \<not> completed_in ?js d) (jb_depends_on k'))"
        if "\<not> is_terminal (jb_state k')"
        using that count st same(4) by (cases "k = i") simp_all
      show "completed_in ?js d" if l: "is_leased (jb_state k') \<or> is_completed (jb_state k')"
        and d: "d \<in> set (jb_depends_on k')" for d
      proof (cases "k = i")
        case True
        then have "k0 = j" using k0 i by simp
        then have "completed_in js d" using wi(13) [of d] d same(4) leased by simp
        then show ?thesis unfolding comp by blast
      next
        case False
        with wk(13) [of d] l d st same(4) show ?thesis by (simp add: comp)
      qed
    qed (use wk same in simp_all)
  qed
qed

section \<open>Dropping dead letters\<close>

lemma delete_dead_wf:
  assumes wf: "jobs_wf nid nsq js" and dead: "\<And>j. map_of js i = Some j \<Longrightarrow> is_dead (jb_state j)"
  shows "jobs_wf nid nsq (AList.delete i js)"
proof (rule jobs_wfI)
  let ?js = "AList.delete i js"
  have look': "map_of ?js = (map_of js)(i := None)" by (rule AList.delete_conv')
  have comp: "completed_in ?js d \<longleftrightarrow> completed_in js d" for d
  proof (cases "d = i")
    case True
    then show ?thesis using dead
      by (cases "map_of js i"; simp add: completed_in_def look'; rename_tac j; case_tac "jb_state j"; simp)
  qed (simp add: completed_in_def look')
  have old: "k \<noteq> i \<and> map_of js k = Some j" if "map_of ?js k = Some j" for k j
    using that by (simp add: look' split: if_splits)
  show "distinct_keys ?js" using jobs_wfD(1) [OF wf] by (rule distinct_delete)
  show "k = l" if "map_of ?js k = Some k'" "map_of ?js l = Some l'" "jb_seq k' = jb_seq l'" for k k' l l'
    using old [OF that(1)] old [OF that(2)] that(3) jobs_wfD(3) [OF wf] by blast
  show "job_wf nid nsq ?js k j" if k: "map_of ?js k = Some j" for k j
  proof -
    note wk = job_wfD [OF jobs_wfD(2) [OF wf old [OF k, THEN conjunct2]]]
    show ?thesis
    proof (rule job_wfI)
      show "k \<in> set (jb_depends_on jc)" if "c \<in> set (jb_dependents j)" "map_of ?js c = Some jc" for c jc
        using wk(10) old that by blast
      show "k \<in> set (jb_dependents jd)" if "\<not> is_terminal (jb_state j)" "d \<in> set (jb_depends_on j)"
        "map_of ?js d = Some jd" "\<not> is_terminal (jb_state jd)" for d jd
        using wk(12) old that by blast
    qed (use wk in \<open>simp_all add: comp\<close>)
  qed
qed

lemma drop_oldest_split:
  "\<exists>dropped. ring = dropped @ fst (drop_oldest cap ring js) \<and>
     snd (drop_oldest cap ring js) = fold AList.delete dropped js"
proof (induction cap ring js rule: drop_oldest.induct)
  case (2 cap i ring js)
  show ?case
  proof (cases "length (i # ring) > cap")
    case True
    then obtain dropped where "ring = dropped @ fst (drop_oldest cap ring (AList.delete i js))"
      "snd (drop_oldest cap ring (AList.delete i js)) = fold AList.delete dropped (AList.delete i js)"
      using 2 by blast
    with True show ?thesis by (intro exI [of _ "i # dropped"]) simp
  qed (intro exI [of _ "[]"], simp)
qed simp

lemma drop_oldest_length: "length (fst (drop_oldest cap ring js)) \<le> cap"
  by (induction cap ring js rule: drop_oldest.induct) auto

lemma map_of_fold_delete: "map_of (fold AList.delete is js) k = (if k \<in> set is then None else map_of js k)"
  by (induction "is" arbitrary: js) (auto simp: AList.delete_conv')

lemma fold_delete_dead_wf:
  "jobs_wf nid nsq js \<Longrightarrow> \<forall>i \<in> set is. \<forall>j. map_of js i = Some j \<longrightarrow> is_dead (jb_state j) \<Longrightarrow>
     jobs_wf nid nsq (fold AList.delete is js)"
proof (induction "is" arbitrary: js)
  case (Cons i "is")
  have "jobs_wf nid nsq (AList.delete i js)" by (rule delete_dead_wf) (use Cons.prems in auto)
  then have "jobs_wf nid nsq (fold AList.delete is (AList.delete i js))"
    by (rule Cons.IH) (use Cons.prems(2) in \<open>auto simp: AList.delete_conv'\<close>)
  then show ?case by simp
qed simp

section \<open>Cascades\<close>

definition alive :: "jobs \<Rightarrow> job_id \<Rightarrow> bool" where
  "alive js i \<longleftrightarrow> (\<exists>j. map_of js i = Some j \<and> \<not> is_terminal (jb_state j))"

lemma cascade_loop_alive:
  "distinct order \<Longrightarrow> set order \<subseteq> visited \<Longrightarrow> \<forall>i \<in> set order. alive js i \<Longrightarrow>
     distinct (cascade_loop js visited order queue) \<and> (\<forall>i \<in> set (cascade_loop js visited order queue). alive js i)"
proof (induction js visited order queue rule: cascade_loop.induct)
  case (2 js visited order i queue)
  consider "i \<in> visited" | "i \<notin> visited" "map_of js i = None"
    | j where "i \<notin> visited" "map_of js i = Some j" "is_terminal (jb_state j)"
    | j where "i \<notin> visited" "map_of js i = Some j" "\<not> is_terminal (jb_state j)"
    by (cases "map_of js i") blast+
  then show ?case
  proof cases
    case 1
    then show ?thesis using "2.IH"(1) "2.prems" by simp
  next
    case c: 2
    then show ?thesis using "2.IH"(2) "2.prems" by auto
  next
    case c: 3
    then show ?thesis using "2.IH"(3) "2.prems" by auto
  next
    case c: 4
    then have "alive js i" by (auto simp: alive_def)
    with c show ?thesis using "2.IH"(4) [OF c(1,2,3)] "2.prems" by auto
  qed
qed simp

lemma cascade_collect_alive:
  "distinct (cascade_collect root s)" "i \<in> set (cascade_collect root s) \<Longrightarrow> alive (qs_jobs s) i"
  using cascade_loop_alive [of "[]" "{}" "qs_jobs s" "[root]"] by (simp_all add: cascade_collect_def)

lemma cascade_apply_step:
  assumes "cascade_apply cfg root reason now idx (i # is) s = Some s'"
  obtains payload s1 where "frame s s1"
    "qs_jobs s1 = modify_entry i (\<lambda>j. j\<lparr>jb_state := Cancelled payload now\<rparr>) (qs_jobs s)"
    "cascade_apply cfg root reason now (Suc idx) is s1 = Some s'"
proof -
  let ?payload = "if idx = 0 then reason else ''cascaded from '' @ dec64 root @ '' ('' @ reason @ '')''"
  obtain j where j: "look s i = Some j" using assms by (auto simp: Option.bind_eq_Some_conv)
  define pre where "pre = (case jb_state j of Leased worker _ \<Rightarrow>
      audit_push cfg now EvLeaseExpired (Some i) (Some worker) ''cancelled'' (bump inc_lease_expired (jb_namespace j) s)
    | _ \<Rightarrow> Some s)"
  define mid where "mid s0 = bump (\<lambda>c. c\<lparr>cancelled_total := cancelled_total c + 1\<rparr>) (jb_namespace j)
      ((set_job_state i (Cancelled ?payload now) s0)
        \<lparr>cancelled_order := cancelled_order (set_job_state i (Cancelled ?payload now) s0) @ [i]\<rparr>)" for s0
  from assms obtain s0 s1 where s0: "pre = Some s0"
    and s1: "audit_push cfg now EvCancelled (Some i) None ?payload (mid s0) = Some s1"
    and rest: "cascade_apply cfg root reason now (Suc idx) is s1 = Some s'"
    by (auto simp: j Option.bind_eq_Some_conv Let_def pre_def mid_def)
  have pre: "frame s s0 \<and> qs_jobs s0 = qs_jobs s"
  proof (cases "jb_state j")
    case (Leased w e)
    with s0 have "audit_push cfg now EvLeaseExpired (Some i) (Some w) ''cancelled''
        (bump inc_lease_expired (jb_namespace j) s) = Some s0" by (simp add: pre_def)
    note push = audit_push_frame [OF this]
    show ?thesis using push frame_trans [OF frame_bump push [THEN conjunct1]] by simp
  qed (use s0 in \<open>simp_all add: pre_def\<close>)
  have mid: "frame s0 (mid s0)"
    unfolding mid_def by (intro frame_trans [OF _ frame_bump] frame_trans [OF _ frame_jobs_update(2)]) simp
  have post: "frame (mid s0) s1 \<and> qs_jobs s1 = qs_jobs (mid s0)" by (rule audit_push_frame [OF s1])
  show ?thesis
  proof (rule that [OF _ _ rest])
    show "frame s s1" using pre mid post by (blast intro: frame_trans)
    show "qs_jobs s1 = modify_entry i (\<lambda>j. j\<lparr>jb_state := Cancelled ?payload now\<rparr>) (qs_jobs s)"
      using pre post by (simp add: mid_def set_job_state_def)
  qed
qed

definition cancels :: "instant \<Rightarrow> job_id set \<Rightarrow> queue_state \<Rightarrow> queue_state \<Rightarrow> bool" where
  "cancels now is s s' \<longleftrightarrow> quiet s s' \<and> (\<forall>k. k \<notin> is \<longrightarrow> look s' k = look s k) \<and>
     (\<forall>k j. k \<in> is \<longrightarrow> look s k = Some j \<longrightarrow> (\<exists>r. look s' k = Some (j\<lparr>jb_state := Cancelled r now\<rparr>)))"

lemma cancelsD:
  assumes "cancels now is s s'"
  shows "quiet s s'" "k \<notin> is \<Longrightarrow> look s' k = look s k"
    "k \<in> is \<Longrightarrow> look s k = Some j \<Longrightarrow> \<exists>r. look s' k = Some (j\<lparr>jb_state := Cancelled r now\<rparr>)"
  using assms unfolding cancels_def by blast+

lemma cancelsI:
  assumes "quiet s s'" "\<And>k. k \<notin> is \<Longrightarrow> look s' k = look s k"
    and "\<And>k j. k \<in> is \<Longrightarrow> look s k = Some j \<Longrightarrow> \<exists>r. look s' k = Some (j\<lparr>jb_state := Cancelled r now\<rparr>)"
  shows "cancels now is s s'"
  unfolding cancels_def using assms by blast

lemma cancels_insert:
  assumes "alive (qs_jobs s) i" "i \<notin> is" "frame s s1"
    and js: "qs_jobs s1 = modify_entry i (\<lambda>j. j\<lparr>jb_state := Cancelled p now\<rparr>) (qs_jobs s)"
    and rest: "cancels now is s1 s'"
  shows "cancels now (insert i is) s s'"
proof (rule cancelsI)
  have look1: "look s1 k = (if k = i then map_option (\<lambda>j. j\<lparr>jb_state := Cancelled p now\<rparr>) (look s k) else look s k)" for k
    by (simp add: js)
  have "restates (qs_jobs s) (qs_jobs s1)"
    unfolding js using assms(1) by (intro restates_modify) (auto simp: alive_def job_step_def)
  then have "quiet s s1" using assms(3) by (simp add: quiet_iff_frame)
  then show "quiet s s'" by (rule quiet_trans [OF _ cancelsD(1) [OF rest]])
  show "look s' k = look s k" if "k \<notin> insert i is" for k
    using cancelsD(2) [OF rest, of k] that by (simp add: look1)
  show "\<exists>r. look s' k = Some (j\<lparr>jb_state := Cancelled r now\<rparr>)" if k: "k \<in> insert i is" "look s k = Some j" for k j
  proof (cases "k = i")
    case True
    then have "look s' k = look s1 k" using cancelsD(2) [OF rest] assms(2) by simp
    with True k(2) show ?thesis by (auto simp: look1)
  next
    case False
    with k cancelsD(3) [OF rest, of k j] show ?thesis by (simp add: look1)
  qed
qed

lemma cascade_apply_cancels:
  "distinct ids \<Longrightarrow> \<forall>i \<in> set ids. alive (qs_jobs s) i \<Longrightarrow>
     cascade_apply cfg root reason now idx ids s = Some s' \<Longrightarrow> cancels now (set ids) s s'"
proof (induction ids arbitrary: s idx)
  case Nil
  then have "s' = s" by (simp only: cascade_apply.simps option.inject)
  then show ?case by (auto intro: cancelsI)
next
  case (Cons i ids)
  obtain p s1 where fr: "frame s s1"
    and js: "qs_jobs s1 = modify_entry i (\<lambda>j. j\<lparr>jb_state := Cancelled p now\<rparr>) (qs_jobs s)"
    and rest: "cascade_apply cfg root reason now (Suc idx) ids s1 = Some s'"
    by (rule cascade_apply_step [OF Cons.prems(3)])
  have "\<forall>k \<in> set ids. alive (qs_jobs s1) k"
  proof
    fix k assume "k \<in> set ids"
    then have "k \<noteq> i" "alive (qs_jobs s) k" using Cons.prems(1,2) by auto
    then show "alive (qs_jobs s1) k" by (simp add: alive_def js)
  qed
  with Cons.IH rest Cons.prems(1) have "cancels now (set ids) s1 s'" by simp
  moreover have "alive (qs_jobs s) i" "i \<notin> set ids" using Cons.prems(1,2) by auto
  ultimately show ?case using cancels_insert [OF _ _ fr js] by simp
qed

lemma cascade_cancel_spec:
  assumes "cascade_cancel cfg root reason now s = Some (n, s')"
  shows "n = length (cascade_collect root s)" "cancels now (set (cascade_collect root s)) s s'"
proof -
  have ap: "cascade_apply cfg root reason now 0 (cascade_collect root s) s = Some s'"
    and n: "n = length (cascade_collect root s)"
    using assms by (auto simp: cascade_cancel_def Let_def)
  show "n = length (cascade_collect root s)" by (rule n)
  have "\<forall>i \<in> set (cascade_collect root s). alive (qs_jobs s) i" using cascade_collect_alive(2) by blast
  from cascade_apply_cancels [OF cascade_collect_alive(1) this ap]
  show "cancels now (set (cascade_collect root s)) s s'" .
qed

lemma cascade_children_quiet:
  "cascade_children cfg cs reason now s = Some s' \<Longrightarrow> quiet s s'"
proof (induction cs arbitrary: s)
  case (Cons c cs)
  then obtain n s1 where "cascade_cancel cfg c reason now s = Some (n, s1)"
    "cascade_children cfg cs reason now s1 = Some s'" by (auto simp: Option.bind_eq_Some_conv)
  then show ?case using cancelsD(1) [OF cascade_cancel_spec(2)] Cons.IH quiet_trans by blast
qed simp

section \<open>Dead letters\<close>

lemma drop_oldest_nonempty: "cap \<noteq> 0 \<Longrightarrow> ring \<noteq> [] \<Longrightarrow> fst (drop_oldest cap ring js) \<noteq> []"
proof (induction cap ring js rule: drop_oldest.induct)
  case (2 cap i ring js)
  then show ?case by (cases ring) auto
qed simp

lemma terminal_dead_letter_spec:
  assumes res: "terminal_dead_letter cfg jid reason now s = Some s'"
  obtains j ns dropped ring where "look s jid = Some j" "map_of (qs_namespaces s) (jb_namespace j) = Some ns"
    "ns_dead_letter ns @ [jid] = dropped @ ring" "length ring \<le> nc_dead_letter_capacity (ns_config ns)"
    "nc_dead_letter_capacity (ns_config ns) \<noteq> 0 \<Longrightarrow> ring \<noteq> []"
    "audit_push cfg now EvDeadLettered (Some jid) None reason ((set_job_state jid (DeadLetter reason now) s)
       \<lparr>qs_jobs := fold AList.delete dropped (qs_jobs (set_job_state jid (DeadLetter reason now) s)),
        qs_namespaces := modify_entry (jb_namespace j) (\<lambda>_. ns\<lparr>ns_dead_letter := ring, ns_counters :=
          (ns_counters ns)\<lparr>dead_lettered_total := dead_lettered_total (ns_counters ns) + 1\<rparr>\<rparr>) (qs_namespaces s)\<rparr>) = Some s'"
proof -
  define s1 where "s1 = set_job_state jid (DeadLetter reason now) s"
  obtain j where j: "look s jid = Some j"
    using res by (cases "look s jid") (simp_all add: terminal_dead_letter_def)
  obtain ns where ns: "map_of (qs_namespaces s) (jb_namespace j) = Some ns"
    using res by (cases "map_of (qs_namespaces s) (jb_namespace j)") (simp_all add: terminal_dead_letter_def j Let_def)
  define dl where "dl = drop_oldest (nc_dead_letter_capacity (ns_config ns)) (ns_dead_letter ns @ [jid]) (qs_jobs s1)"
  obtain dropped where split: "ns_dead_letter ns @ [jid] = dropped @ fst dl" "snd dl = fold AList.delete dropped (qs_jobs s1)"
    using drop_oldest_split [of "ns_dead_letter ns @ [jid]"] unfolding dl_def by blast
  show ?thesis
  proof (rule that [OF j ns split(1)])
    show "length (fst dl) \<le> nc_dead_letter_capacity (ns_config ns)" unfolding dl_def by (rule drop_oldest_length)
    show "fst dl \<noteq> []" if "nc_dead_letter_capacity (ns_config ns) \<noteq> 0"
      unfolding dl_def using that by (rule drop_oldest_nonempty) simp
    show "audit_push cfg now EvDeadLettered (Some jid) None reason ((set_job_state jid (DeadLetter reason now) s)
       \<lparr>qs_jobs := fold AList.delete dropped (qs_jobs (set_job_state jid (DeadLetter reason now) s)),
        qs_namespaces := modify_entry (jb_namespace j) (\<lambda>_. ns\<lparr>ns_dead_letter := fst dl, ns_counters :=
          (ns_counters ns)\<lparr>dead_lettered_total := dead_lettered_total (ns_counters ns) + 1\<rparr>\<rparr>) (qs_namespaces s)\<rparr>) = Some s'"
      using res unfolding s1_def [symmetric] split(2) [symmetric]
      by (simp add: terminal_dead_letter_def j ns Let_def dl_def s1_def case_prod_unfold)
  qed
qed

lemma terminal_dead_letter_wf:
  assumes wf: "queue_wf s" and live: "live s jid"
    and res: "terminal_dead_letter cfg jid reason now s = Some s'"
  shows "queue_wf s'"
proof -
  define s1 where "s1 = set_job_state jid (DeadLetter reason now) s"
  obtain j ns dropped ring where j: "look s jid = Some j" and ns: "map_of (qs_namespaces s) (jb_namespace j) = Some ns"
    and ring: "ns_dead_letter ns @ [jid] = dropped @ ring"
    and push: "audit_push cfg now EvDeadLettered (Some jid) None reason (s1\<lparr>qs_jobs := fold AList.delete dropped (qs_jobs s1),
      qs_namespaces := modify_entry (jb_namespace j) (\<lambda>_. ns\<lparr>ns_dead_letter := ring, ns_counters :=
        (ns_counters ns)\<lparr>dead_lettered_total := dead_lettered_total (ns_counters ns) + 1\<rparr>\<rparr>) (qs_namespaces s)\<rparr>) = Some s'"
    unfolding s1_def by (rule terminal_dead_letter_spec [OF res])
  define ns' where "ns' = ns\<lparr>ns_dead_letter := ring, ns_counters :=
    (ns_counters ns)\<lparr>dead_lettered_total := dead_lettered_total (ns_counters ns) + 1\<rparr>\<rparr>"
  define js where "js = fold AList.delete dropped (qs_jobs s1)"
  define s2 where "s2 = s1\<lparr>qs_jobs := js, qs_namespaces := modify_entry (jb_namespace j) (\<lambda>_. ns') (qs_namespaces s)\<rparr>"
  note split = ring js_def
  have q1: "quiet s s1" unfolding s1_def by (rule quiet_set_job_state [OF live]) simp_all
  then have wf1: "queue_wf s1" using wf by (rule quiet_wf)
  have jid: "look s1 jid = Some (j\<lparr>jb_state := DeadLetter reason now\<rparr>)" by (simp add: s1_def look_set_job_state j)
  have "rings s (jb_namespace j) = Some (ns_config ns, ns_dead_letter ns)" by (rule rings_Some [OF ns])
  then have r1: "rings s1 (jb_namespace j) = Some (ns_config ns, ns_dead_letter ns)" using quietD(5) [OF q1] by simp
  have ring_ok: "i < next_id s1 \<and> (\<forall>k. look s1 i = Some k \<longrightarrow> is_dead (jb_state k))"
    if "i \<in> set (ns_dead_letter ns @ [jid])" for i
    using that queue_wf_ringD [OF wf1 r1] jid job_wfD(2) [OF queue_wfD(1) [OF wf1 jid]] by auto
  have sub: "set dropped \<subseteq> set (ns_dead_letter ns @ [jid])" "set ring \<subseteq> set (ns_dead_letter ns @ [jid])"
    using split(1) by auto
  have look2: "look s2 k = (if k \<in> set dropped then None else look s1 k)" for k
    by (simp add: s2_def split(2) map_of_fold_delete)
  have wf2: "queue_wf s2"
  proof (rule queue_wfI)
    have "jobs_wf (next_id s1) (next_seq s1) (qs_jobs s1)" using wf1 unfolding queue_wf_def by blast
    then have "jobs_wf (next_id s1) (next_seq s1) js"
      unfolding split(2) by (rule fold_delete_dead_wf) (use ring_ok sub in blast)
    then show "jobs_wf (next_id s2) (next_seq s2) (qs_jobs s2)" by (simp add: s2_def)
    show "distinct_keys (qs_namespaces s2)" using wf unfolding queue_wf_def s2_def by simp
    show "map_of (qs_namespaces s2) (jb_namespace k) \<noteq> None" if "look s2 i = Some k" for i k
    proof -
      have "look s1 i = Some k" using that by (simp add: look2 split: if_splits)
      from queue_wfD(3) [OF wf1 this] show ?thesis by (auto simp: s2_def s1_def)
    qed
    have rings2: "rings s2 m = (if m = jb_namespace j then Some (ns_config ns, ring) else rings s1 m)" for m
      using ns by (auto simp: rings_def s2_def ns'_def s1_def)
    show "i < next_id s2" if "rings s2 name = Some (c, r)" "i \<in> set r" for name c r i
    proof (cases "name = jb_namespace j")
      case True
      then have "i \<in> set ring" using that by (simp add: rings2)
      then show ?thesis using ring_ok [of i] sub(2) by (auto simp: s2_def)
    next
      case False
      then have "rings s1 name = Some (c, r)" using that(1) by (simp add: rings2)
      from queue_wf_ringD(1) [OF wf1 this that(2)] show ?thesis by (simp add: s2_def)
    qed
    show "is_dead (jb_state k)" if "rings s2 name = Some (c, r)" "i \<in> set r" "look s2 i = Some k" for name c r i k
    proof -
      have l: "look s1 i = Some k" using that(3) by (simp add: look2 split: if_splits)
      show ?thesis
      proof (cases "name = jb_namespace j")
        case True
        then have "i \<in> set ring" using that(1,2) by (simp add: rings2)
        then show ?thesis using ring_ok [of i] sub(2) l by blast
      next
        case False
        then have "rings s1 name = Some (c, r)" using that(1) by (simp add: rings2)
        from queue_wf_ringD(2) [OF wf1 this that(2) l] show ?thesis .
      qed
    qed
  qed
  from push have "audit_push cfg now EvDeadLettered (Some jid) None reason s2 = Some s'"
    unfolding s2_def js_def ns'_def .
  then show ?thesis by (rule quiet_wf [OF quiet_audit_push wf2])
qed

lemma terminal_dead_letter_look:
  assumes wf: "queue_wf s" and live: "live s jid" and res: "terminal_dead_letter cfg jid reason now s = Some s'"
  shows "\<exists>j c r dropped. look s jid = Some j \<and> rings s (jb_namespace j) = Some (c, r) \<and>
    (\<forall>k. look s' k = (if k \<in> dropped then None else look (set_job_state jid (DeadLetter reason now) s) k)) \<and>
    (\<forall>k \<in> dropped. \<forall>m. k \<noteq> jid \<longrightarrow> look s k = Some m \<longrightarrow> is_dead (jb_state m)) \<and>
    (nc_dead_letter_capacity c \<noteq> 0 \<longrightarrow> jid \<notin> dropped) \<and>
    (\<forall>n. map_option fst (rings s' n) = map_option fst (rings s n))"
  using res
proof (rule terminal_dead_letter_spec)
  let ?s1 = "set_job_state jid (DeadLetter reason now) s"
  fix j :: job and ns :: namespace_state and dropped ring :: "job_id list"
  let ?ns' = "ns\<lparr>ns_dead_letter := ring, ns_counters :=
    (ns_counters ns)\<lparr>dead_lettered_total := dead_lettered_total (ns_counters ns) + 1\<rparr>\<rparr>"
  let ?s2 = "?s1\<lparr>qs_jobs := fold AList.delete dropped (qs_jobs ?s1),
    qs_namespaces := modify_entry (jb_namespace j) (\<lambda>_. ?ns') (qs_namespaces s)\<rparr>"
  assume j: "look s jid = Some j" and ns: "map_of (qs_namespaces s) (jb_namespace j) = Some ns"
    and split: "ns_dead_letter ns @ [jid] = dropped @ ring"
    and cap: "nc_dead_letter_capacity (ns_config ns) \<noteq> 0 \<Longrightarrow> ring \<noteq> []"
    and push: "audit_push cfg now EvDeadLettered (Some jid) None reason ?s2 = Some s'"
  note r = rings_Some [OF ns]
  have dead: "is_dead (jb_state m)" if "k \<in> set (ns_dead_letter ns)" "look s k = Some m" for k m
    using queue_wf_ringD(2) [OF wf r that(1)] that(2) by blast
  have sub: "set dropped \<subseteq> set (ns_dead_letter ns @ [jid])" unfolding split by simp
  have look': "look s' k = (if k \<in> set dropped then None else look ?s1 k)" for k
    using audit_push_frame [OF push] by (simp add: map_of_fold_delete)
  have old: "is_dead (jb_state m)" if "k \<in> set dropped" "k \<noteq> jid" "look s k = Some m" for k m
    using dead that sub by auto
  have keep: "jid \<notin> set dropped" if "nc_dead_letter_capacity (ns_config ns) \<noteq> 0"
  proof
    assume "jid \<in> set dropped"
    moreover have "set dropped \<subseteq> set (ns_dead_letter ns)"
      using split cap [OF that] by (metis append_butlast_last_id append_assoc append1_eq_conv sup_ge1 set_append)
    ultimately show False using dead [of jid] j live by (auto simp: live_def)
  qed
  have "rings s' = rings ?s2" using audit_push_frame [OF push] unfolding frame_def by blast
  then have "map_option fst (rings s' n) = map_option fst (rings s n)" for n
    using ns by (auto simp: rings_def option.map_comp comp_def)
  then show ?thesis using j r look' old keep by blast
qed

end
