(* ===== verification/Job_Enqueue.thy ===== *)
theory Job_Enqueue
  imports Job_Dependencies
begin

text \<open>
  Insertion of a job: the loop that links a new job to its dependencies, the validation of the
  dependencies, and the proof that the state with the new job is well formed, whether the job stays
  or is cancelled at once because one of its dependencies can no longer complete.
\<close>

section \<open>Insertion of a job\<close>

lemma u64_succ: "(x :: u64) \<noteq> u64_max \<Longrightarrow> unat (x + 1) = Suc (unat x)"
  unfolding u64_max_def by (metis add.commute unatSuc add_eq_0_iff add.inverse_inverse)

lemma less_succ: "(n :: u64) \<noteq> u64_max \<Longrightarrow> n < n + 1" "(n :: u64) \<noteq> u64_max \<Longrightarrow> i < n \<Longrightarrow> i < n + 1"
  by (simp_all add: word_less_nat_alt u64_succ)

lemma u32_succ: "(x :: u32) \<noteq> - 1 \<Longrightarrow> unat (x + 1) = Suc (unat x)"
  by (metis add.commute unatSuc add_eq_0_iff add.inverse_inverse)

definition link_job :: "job_id \<Rightarrow> job_id set \<Rightarrow> job_id \<Rightarrow> job \<Rightarrow> job" where
  "link_job jid ds k j =
     (if k \<in> ds \<and> \<not> is_terminal (jb_state j) then j\<lparr>jb_dependents := jb_dependents j @ [jid]\<rparr> else j)"

lemma link_job_state [simp]: "jb_state (link_job jid ds k j) = jb_state j"
  by (simp add: link_job_def)

lemma link_deps_spec:
  "link_deps jid ds r c js = Some (r', c', js') \<Longrightarrow> distinct ds \<Longrightarrow>
     map fst js' = map fst js \<and> (\<forall>k. map_of js' k = map_option (link_job jid (set ds) k) (map_of js k)) \<and>
     unat r' = unat r + length (filter (alive js) ds) \<and>
     (c' = None \<longleftrightarrow> c = None \<and> (\<forall>d \<in> set ds. alive js d \<or> completed_in js d))"
proof (induction ds arbitrary: r c js)
  case Nil
  then have "r' = r" "c' = c" "js' = js" by simp_all
  then show ?case by (simp add: link_job_def option.map_ident)
next
  case (Cons d ds)
  obtain j where j: "map_of js d = Some j" using Cons.prems(1) by (cases "map_of js d") simp_all
  have fresh: "d \<notin> set ds" "distinct ds" using Cons.prems(2) by simp_all
  show ?case
  proof (cases "is_terminal (jb_state j)")
    case True
    obtain c1 where l: "link_deps jid ds r c1 js = Some (r', c', js')"
      and c1: "c1 = None \<longleftrightarrow> c = None \<and> is_completed (jb_state j)"
      using Cons.prems(1) j True by (cases "jb_state j") auto
    note IH = Cons.IH [OF l fresh(2)]
    have "\<not> alive js d" using j True by (simp add: alive_def)
    moreover have "map_option (link_job jid (set ds) k) (map_of js k) =
        map_option (link_job jid (set (d # ds)) k) (map_of js k)" for k
      using j True by (cases "map_of js k"; cases "k = d") (auto simp: link_job_def)
    moreover have "is_completed (jb_state j) \<longleftrightarrow> completed_in js d" using j by (simp add: completed_in_def)
    ultimately show ?thesis using IH c1 by auto
  next
    case False
    define f where "f = (\<lambda>j :: job. j\<lparr>jb_dependents := jb_dependents j @ [jid]\<rparr>)"
    define js1 where "js1 = modify_entry d f js"
    have r: "r \<noteq> - 1" and l: "link_deps jid ds (r + 1) c js1 = Some (r', c', js')"
      using Cons.prems(1) j False by (cases "jb_state j"; simp add: js1_def f_def split: if_splits)+
    note IH = Cons.IH [OF l fresh(2)]
    have look1: "map_of js1 k = (if k = d then Some (f j) else map_of js k)" for k
      using j by (simp add: js1_def)
    have f_state: "jb_state (f j) = jb_state j" by (simp add: f_def)
    have al: "alive js1 k = alive js k" for k using j by (simp add: alive_def look1 f_state)
    have co: "completed_in js1 k = completed_in js k" for k using j by (simp add: completed_in_def look1 f_state)
    have "map_option (link_job jid (set ds) k) (map_of js1 k) =
        map_option (link_job jid (set (d # ds)) k) (map_of js k)" for k
      using j False fresh(1) by (cases "map_of js k"; cases "k = d") (auto simp: link_job_def look1 f_def)
    moreover have "filter (alive js1) ds = filter (alive js) ds" by (rule filter_cong) (simp_all add: al)
    moreover have "alive js d" using j False by (simp add: alive_def)
    moreover have "map fst js1 = map fst js" by (simp add: js1_def)
    ultimately show ?thesis using IH by (simp add: u32_succ [OF r] al co)
  qed
qed

lemma validate_each_spec:
  "validate_each seen ds ns s = Inr u \<Longrightarrow>
     distinct ds \<and> set ds \<inter> seen = {} \<and> (\<forall>d \<in> set ds. \<exists>j. look s d = Some j \<and> jb_namespace j = ns)"
proof (induction seen ds ns s rule: validate_each.induct)
  case (2 seen d ds ns s)
  then have "d \<notin> seen" by (auto split: if_splits)
  moreover obtain j where "look s d = Some j" "jb_namespace j = ns"
    using "2.prems" \<open>d \<notin> seen\<close> by (cases "look s d") (simp_all split: if_splits)
  ultimately show ?case using 2 by auto
qed simp

lemma insert_jobs_wf:
  assumes wf: "jobs_wf nid nsq js" and max: "nid \<noteq> u64_max" "nsq \<noteq> u64_max"
    and link: "link_deps nid ds 0 None js = Some (rem, cascade, js')"
    and ds: "distinct ds" "\<And>d. d \<in> set ds \<Longrightarrow> map_of js d \<noteq> None"
    and new: "jb_id j = nid" "jb_seq j = nsq" "jb_depends_on j = ds" "jb_dependents j = []"
      "jb_remaining_deps j = rem" "1 \<le> jb_priority j" "jb_priority j \<le> 10"
      "\<not> is_leased (jb_state j)" "\<not> is_completed (jb_state j)"
      "\<not> is_terminal (jb_state j) \<Longrightarrow> cascade = None"
    and js2: "distinct_keys js2" "map_of js2 = (map_of js')(nid \<mapsto> j)"
  shows "jobs_wf (nid + 1) (nsq + 1) js2"
proof (rule jobs_wfI)
  note L = link_deps_spec [OF link ds(1)]
  have fresh: "map_of js nid = None"
    using job_wfD(2) [OF jobs_wfD(2) [OF wf]] by (cases "map_of js nid") auto
  have look2: "map_of js2 k = (if k = nid then Some j else map_option (link_job nid (set ds) k) (map_of js k))" for k
    using L by (simp add: js2(2))
  have old: "\<exists>k0. map_of js k = Some k0 \<and> k' = link_job nid (set ds) k k0"
    if "map_of js2 k = Some k'" "k \<noteq> nid" for k k'
    using that by (auto simp: look2)
  have comp: "completed_in js2 d \<longleftrightarrow> completed_in js d" for d
    using new(9) fresh by (cases "map_of js d") (auto simp: completed_in_def look2)
  have dep_less: "d < nid" if "d \<in> set ds" for d
    using ds(2) [OF that] job_wfD(2) [OF jobs_wfD(2) [OF wf]] by blast
  show "distinct_keys js2" by (rule js2(1))
  show "k = l" if *: "map_of js2 k = Some k'" "map_of js2 l = Some l'" "jb_seq k' = jb_seq l'" for k k' l l'
  proof -
    have seq: "\<exists>m0. map_of js m = Some m0 \<and> jb_seq m' = jb_seq m0 \<and> jb_seq m0 < nsq"
      if "map_of js2 m = Some m'" "m \<noteq> nid" for m m'
      using old [OF that] job_wfD(3) [OF jobs_wfD(2) [OF wf]] by (auto simp: link_job_def)
    show ?thesis
    proof (cases "k = nid"; cases "l = nid")
      assume "k = nid" "l \<noteq> nid"
      with seq [OF *(2)] * new(2) show ?thesis by (auto simp: look2)
    next
      assume "k \<noteq> nid" "l = nid"
      with seq [OF *(1)] * new(2) show ?thesis by (auto simp: look2)
    next
      assume "k \<noteq> nid" "l \<noteq> nid"
      with seq [OF *(1)] seq [OF *(2)] *(3) show ?thesis using jobs_wfD(3) [OF wf] by metis
    qed simp
  qed
  show "job_wf (nid + 1) (nsq + 1) js2 k k'" if k': "map_of js2 k = Some k'" for k k'
  proof (cases "k = nid")
    case True
    then have k'_eq: "k' = j" using k' by (simp add: look2)
    have count: "unat rem = length (filter (\<lambda>d. \<not> completed_in js2 d) ds)" if "cascade = None"
    proof -
      have "filter (alive js) ds = filter (\<lambda>d. \<not> completed_in js2 d) ds"
      proof (rule filter_cong)
        fix d assume "d \<in> set ds"
        then have "alive js d \<or> completed_in js d" using L that by blast
        moreover have "\<not> (alive js d \<and> completed_in js d)"
          by (auto simp: alive_def completed_in_def)
        ultimately show "alive js d = (\<not> completed_in js2 d)" unfolding comp by blast
      qed simp
      then show ?thesis using L by simp
    qed
    show ?thesis unfolding True k'_eq
    proof (rule job_wfI)
      show "nid < nid + 1" "jb_seq j < nsq + 1" using less_succ(1) max by (simp_all add: new)
      show "d < nid" if "d \<in> set (jb_depends_on j)" for d using dep_less that by (simp add: new)
      show "unat (jb_remaining_deps j) = length (filter (\<lambda>d. \<not> completed_in js2 d) (jb_depends_on j))"
        if "\<not> is_terminal (jb_state j)" using count new(10) that by (simp add: new)
      show "nid \<in> set (jb_dependents jd)" if d: "d \<in> set (jb_depends_on j)" "map_of js2 d = Some jd"
        "\<not> is_terminal (jb_state jd)" for d jd
      proof -
        have "d \<noteq> nid" using dep_less d(1) by (auto simp: new)
        then obtain d0 where "jd = link_job nid (set ds) d d0" using old [OF d(2)] by blast
        then show ?thesis using d(1,3) by (simp add: link_job_def new split: if_splits)
      qed
    qed (use new ds in auto)
  next
    case False
    then obtain k0 where k0: "map_of js k = Some k0" "k' = link_job nid (set ds) k k0" using old [OF k'] by blast
    note wk = job_wfD [OF jobs_wfD(2) [OF wf k0(1)]]
    have same: "jb_id k' = jb_id k0" "jb_seq k' = jb_seq k0" "jb_priority k' = jb_priority k0"
      "jb_depends_on k' = jb_depends_on k0" "jb_remaining_deps k' = jb_remaining_deps k0"
      "jb_state k' = jb_state k0" by (simp_all add: k0(2) link_job_def)
    have deps: "set (jb_dependents k') \<subseteq> insert nid (set (jb_dependents k0)) \<and>
        (nid \<in> set (jb_dependents k') \<longrightarrow> k \<in> set ds) \<and> distinct (jb_dependents k')"
      using wk(8,9) by (auto simp: k0(2) link_job_def)
    show ?thesis
    proof (rule job_wfI)
      show "k < nid + 1" "jb_seq k' < nsq + 1" using less_succ(2) max wk(2,3) same by simp_all
      show "d < k" if "d \<in> set (jb_depends_on k')" for d using wk(7) that same by simp
      show "distinct (jb_dependents k')" using deps by blast
      show "c < nid + 1" if "c \<in> set (jb_dependents k')" for c
        using that deps wk(9) [of c] less_succ [OF max(1)] by auto
      show "k \<in> set (jb_depends_on jc)" if c: "c \<in> set (jb_dependents k')" "map_of js2 c = Some jc" for c jc
      proof (cases "c = nid")
        case True
        then show ?thesis using c deps new(3) by (auto simp: look2)
      next
        case False
        obtain c0 where c0: "map_of js c = Some c0" "jc = link_job nid (set ds) c c0"
          using old [OF c(2) False] by blast
        have "c \<in> set (jb_dependents k0)" using c(1) deps False by blast
        then show ?thesis using wk(10) [OF _ c0(1)] by (simp add: c0(2) link_job_def)
      qed
      show "unat (jb_remaining_deps k') = length (filter (\<lambda>d. \<not> completed_in js2 d) (jb_depends_on k'))"
        if "\<not> is_terminal (jb_state k')" using wk(11) that by (simp add: same comp)
      show "k \<in> set (jb_dependents jd)" if d: "\<not> is_terminal (jb_state k')" "d \<in> set (jb_depends_on k')"
        "map_of js2 d = Some jd" "\<not> is_terminal (jb_state jd)" for d jd
      proof -
        have "d < k" using wk(7) d(2) same by simp
        then have "d \<noteq> nid" using wk(2) by auto
        then obtain d0 where d0: "map_of js d = Some d0" "jd = link_job nid (set ds) d d0" using old [OF d(3)] by blast
        have "k \<in> set (jb_dependents d0)" using wk(12) [OF _ _ d0(1)] d same by (simp add: d0(2))
        then show ?thesis by (simp add: d0(2) link_job_def)
      qed
      show "completed_in js2 d" if "is_leased (jb_state k') \<or> is_completed (jb_state k')"
        "d \<in> set (jb_depends_on k')" for d
        using wk(13) [of d] that by (simp add: same comp)
    qed (use wk same in simp_all)
  qed
qed

section \<open>The state after an insertion\<close>

lemma finish_state [simp]: "q_state (snd (finish env io v q s)) = s"
  by (cases "en_save env") (simp_all add: finish_def save_def)

lemma collect_leaf:
  assumes "look s i = Some j" "\<not> is_terminal (jb_state j)" "jb_dependents j = []"
  shows "cascade_collect i s = [i]"
  using assms by (simp add: cascade_collect_def)

lemma validate_dependencies_spec:
  assumes "validate_dependencies ds ns s = Inr u"
  shows "distinct ds" "d \<in> set ds \<Longrightarrow> look s d \<noteq> None"
  using assms validate_each_spec [of "{}" ds ns s "()"]
  by (cases "validate_each {} ds ns s"; force simp: validate_dependencies_def)+

lemma priority_new_bounds: "priority_new v = Some p \<Longrightarrow> 1 \<le> p \<and> p \<le> 10"
  by (simp add: priority_new_def MIN_PRIORITY_def MAX_PRIORITY_def split: if_splits)

lemma insert_queue_wf:
  assumes wf: "queue_wf s" and nst: "map_of (qs_namespaces s) ns \<noteq> None"
    and fields: "next_id s' = next_id s + 1" "next_seq s' = next_seq s + 1"
      "map fst (qs_namespaces s') = map fst (qs_namespaces s)" "rings s' = rings s"
    and jobs: "jobs_wf (next_id s + 1) (next_seq s + 1) (qs_jobs s')"
    and max: "next_id s \<noteq> u64_max"
    and old: "\<And>k k'. look s' k = Some k' \<Longrightarrow> k \<noteq> next_id s \<Longrightarrow>
      \<exists>k0. look s k = Some k0 \<and> jb_namespace k' = jb_namespace k0 \<and> jb_state k' = jb_state k0"
    and new: "\<And>j. look s' (next_id s) = Some j \<Longrightarrow> jb_namespace j = ns"
  shows "queue_wf s'"
proof (rule queue_wfI)
  show "jobs_wf (next_id s') (next_seq s') (qs_jobs s')" using jobs by (simp add: fields)
  show "distinct_keys (qs_namespaces s')" using wf unfolding fields queue_wf_def by blast
  note keys = map_of_None_same_keys [OF fields(3)]
  show "map_of (qs_namespaces s') (jb_namespace j) \<noteq> None" if l: "look s' i = Some j" for i j
  proof (cases "i = next_id s")
    case True
    with l new nst show ?thesis unfolding keys by blast
  next
    case False
    from old [OF l this] queue_wfD(3) [OF wf] show ?thesis unfolding keys by metis
  qed
  show "i < next_id s'" if "rings s' name = Some (c, ring)" "i \<in> set ring" for name c ring i
    using queue_wf_ringD(1) [OF wf _ that(2)] that(1) less_succ(2) [OF max] by (simp add: fields)
  show "is_dead (jb_state j)"
    if r: "rings s' name = Some (c, ring)" "i \<in> set ring" and l: "look s' i = Some j" for name c ring i j
  proof -
    have r': "rings s name = Some (c, ring)" using r(1) by (simp add: fields)
    have "i \<noteq> next_id s" using queue_wf_ringD(1) [OF wf r' r(2)] by auto
    from old [OF l this] queue_wf_ringD(2) [OF wf r' r(2)] show ?thesis by metis
  qed
qed

lemma frameD:
  assumes "frame s s'"
  shows "next_id s' = next_id s" "next_seq s' = next_seq s"
    "map fst (qs_namespaces s') = map fst (qs_namespaces s)" "rings s' = rings s"
  using assms unfolding frame_def by blast+

text \<open>The state after \<^const>\<open>enqueue\<close> has stored the job, whether or not the job is cancelled at once.\<close>

lemma enqueue_insert_wf:
  assumes wf: "queue_wf s" and nst: "map_of (qs_namespaces s) (jb_namespace j) \<noteq> None"
    and max: "next_id s \<noteq> u64_max" "next_seq s \<noteq> u64_max"
    and val: "validate_dependencies (jb_depends_on j) ns s = Inr u"
    and link: "link_deps (next_id s) (jb_depends_on j) 0 None (qs_jobs s) = Some (jb_remaining_deps j, cascade, js)"
    and new: "jb_id j = next_id s" "jb_seq j = next_seq s" "jb_dependents j = []"
      "1 \<le> jb_priority j" "jb_priority j \<le> 10" "is_waiting (jb_state j)"
    and ins: "frame (s\<lparr>next_id := next_id s + 1, next_seq := next_seq s + 1\<rparr>) s1"
      "qs_jobs s1 = AList.update (next_id s) j js"
    and casc: "(case cascade of None \<Rightarrow> Some s1
      | Some reason \<Rightarrow> map_option snd (cascade_cancel cfg (next_id s) reason now s1)) = Some s'"
  shows "queue_wf s'"
proof -
  note V = validate_dependencies_spec [OF val]
  note L = link_deps_spec [OF link V(1)]
  have jobs: "jobs_wf (next_id s) (next_seq s) (qs_jobs s)" using wf unfolding queue_wf_def by blast
  have nw: "\<not> is_leased (jb_state j)" "\<not> is_completed (jb_state j)" "\<not> is_terminal (jb_state j)"
    using new(6) by (cases "jb_state j"; simp)+
  have look1: "look s1 = (map_of js)(next_id s \<mapsto> j)" by (rule ext) (simp add: ins(2) AList.update_conv')
  have key: "distinct_keys js" using L jobs_wfD(1) [OF jobs] by simp
  then have key1: "distinct_keys (qs_jobs s1)" unfolding ins(2) by (rule AList.distinct_update)
  have F: "next_id s1 = next_id s + 1" "next_seq s1 = next_seq s + 1"
    "map fst (qs_namespaces s1) = map fst (qs_namespaces s)" "rings s1 = rings s"
    using frameD [OF ins(1)] by (simp_all add: rings_def fun_eq_iff)
  have stored: "queue_wf s2"
    if fr: "frame s1 s2" and keys2: "distinct_keys (qs_jobs s2)"
      and look2: "look s2 = (map_of js)(next_id s \<mapsto> j\<lparr>jb_state := st\<rparr>)"
      and st: "\<not> is_leased st" "\<not> is_completed st" "\<not> is_terminal st \<Longrightarrow> cascade = None" for s2 st
  proof (rule insert_queue_wf [OF wf nst])
    show "next_id s2 = next_id s + 1" "next_seq s2 = next_seq s + 1" "rings s2 = rings s"
      "map fst (qs_namespaces s2) = map fst (qs_namespaces s)"
      using frameD [OF fr] F by simp_all
    show "jobs_wf (next_id s + 1) (next_seq s + 1) (qs_jobs s2)"
      by (rule insert_jobs_wf [OF jobs max link V _ _ _ _ _ _ _ _ _ _ keys2 look2]) (use new st in simp_all)
    show "next_id s \<noteq> u64_max" by (rule max(1))
    show "\<exists>k0. look s k = Some k0 \<and> jb_namespace k' = jb_namespace k0 \<and> jb_state k' = jb_state k0"
      if "look s2 k = Some k'" "k \<noteq> next_id s" for k k'
      using that L by (auto simp: look2 link_job_def)
    show "jb_namespace j' = jb_namespace j" if "look s2 (next_id s) = Some j'" for j'
      using that by (auto simp: look2)
  qed
  show ?thesis
  proof (cases cascade)
    case None
    then have "s' = s1" using casc by simp
    have same: "j\<lparr>jb_state := jb_state j\<rparr> = j" by simp
    have "queue_wf s1"
      by (rule stored [of s1 "jb_state j"]) (simp_all only: same look1 frame_refl key1 nw None simp_thms)
    with \<open>s' = s1\<close> show ?thesis by simp
  next
    case (Some reason)
    then obtain n where "cascade_cancel cfg (next_id s) reason now s1 = Some (n, s')" using casc by auto
    note C = cancelsD [OF cascade_cancel_spec(2) [OF this]]
    have leaf: "cascade_collect (next_id s) s1 = [next_id s]"
      by (rule collect_leaf [of _ _ j]) (simp_all add: look1 nw new)
    obtain r where r: "look s' (next_id s) = Some (j\<lparr>jb_state := Cancelled r now\<rparr>)"
      using C(3) [of "next_id s" j] by (auto simp: leaf look1)
    have l2: "look s' = (map_of js)(next_id s \<mapsto> j\<lparr>jb_state := Cancelled r now\<rparr>)"
    proof
      fix k show "look s' k = ((map_of js)(next_id s \<mapsto> j\<lparr>jb_state := Cancelled r now\<rparr>)) k"
        using C(2) [of k] r by (cases "k = next_id s") (simp_all add: leaf look1)
    qed
    have fr: "frame s1 s'" using C(1) by (simp add: quiet_iff_frame)
    have k2: "distinct_keys (qs_jobs s')" using key1 C(1) by (simp add: quiet_def restates_def)
    show ?thesis by (rule stored [OF fr k2 l2]) simp_all
  qed
qed

end
