(* ===== verification/Job_Operations.thy ===== *)
theory Job_Operations
  imports Job_Enqueue
begin

text \<open>
  The operations of the job queue: a case rule for each, one case per way out of the code, and the
  proof that each keeps the invariant, so that every state a queue can reach from an empty one is
  well formed.
\<close>

section \<open>Case analysis of the operations\<close>

lemma request_priority_bounds: "request_priority req = Inr p \<Longrightarrow> 1 \<le> p \<and> p \<le> 10"
  by (auto simp: request_priority_def DEFAULT_PRIORITY_def split: option.splits dest: priority_new_bounds)

definition request_namespace :: "enqueue_request \<Rightarrow> string" where
  "request_namespace req = (case rq_namespace req of None \<Rightarrow> DEFAULT_NAMESPACE | Some n \<Rightarrow> n)"

definition enqueue_state :: "config \<Rightarrow> env \<Rightarrow> enqueue_request \<Rightarrow> queue \<Rightarrow> queue_state" where
  "enqueue_state cfg env req q = namespace_mut (request_namespace req)
     (namespace_config_of cfg (request_namespace req)) (tick (en_now env) (q_state q))"

lemma enqueue_cases:
  assumes "enqueue cfg env req q = Some (r, q')"
  defines "s \<equiv> enqueue_state cfg env req q" and "ns \<equiv> request_namespace req"
  obtains (invalid) e where "r = Inl e" "q' = q" "request_priority req = Inl e"
  | (rejected) e where "r = Inl e" "q' = q\<lparr>q_state := s\<rparr>"
  | (stored) priority rem cascade js s1 s2 s3 where "request_priority req = Inr priority"
      "validate_dependencies (rq_depends_on req) ns s = Inr ()" "next_id s \<noteq> u64_max" "next_seq s \<noteq> u64_max"
      "link_deps (next_id s) (rq_depends_on req) 0 None (qs_jobs s) = Some (rem, cascade, js)"
      "bump_expect (\<lambda>c. c\<lparr>enqueued_total := enqueued_total c + 1\<rparr>) ns
         (s\<lparr>next_id := next_id s + 1, next_seq := next_seq s + 1, qs_jobs := AList.update (next_id s)
           (new_job (next_id s) (next_seq s) priority ns rem (en_now env) req) js\<rparr>) = Some s1"
      "audit_push cfg (en_now env) EvEnqueued (Some (next_id s)) None
         (''ns='' @ ns @ '' priority='' @ dec_nat (unat priority)) s1 = Some s2"
      "(case cascade of None \<Rightarrow> Some s2
        | Some reason \<Rightarrow> map_option snd (cascade_cancel cfg (next_id s) reason (en_now env) s2)) = Some s3"
      "(r, q') = finish env EnqIo (next_id s) q s3"
proof (cases "request_priority req")
  case (Inl e)
  with assms(1) have "r = Inl e" "q' = q" by (simp_all add: enqueue_def)
  then show ?thesis using Inl by (rule invalid)
next
  case (Inr priority)
  have res: "(do { nst \<leftarrow> map_of (qs_namespaces s) ns;
      if nc_active_capacity (ns_config nst) \<le> active_count_ns ns s then Some (Inl QueueFull, q\<lparr>q_state := s\<rparr>)
      else case validate_dependencies (rq_depends_on req) ns s of
        Inl e \<Rightarrow> Some (Inl (InvalidDependency e), q\<lparr>q_state := s\<rparr>)
      | Inr _ \<Rightarrow> if next_id s = u64_max \<or> next_seq s = u64_max then None else do {
          (rem, cascade, js) \<leftarrow> link_deps (next_id s) (rq_depends_on req) 0 None (qs_jobs s);
          s1 \<leftarrow> bump_expect (\<lambda>c. c\<lparr>enqueued_total := enqueued_total c + 1\<rparr>) ns
            (s\<lparr>next_id := next_id s + 1, next_seq := next_seq s + 1, qs_jobs := AList.update (next_id s)
              (new_job (next_id s) (next_seq s) priority ns rem (en_now env) req) js\<rparr>);
          s2 \<leftarrow> audit_push cfg (en_now env) EvEnqueued (Some (next_id s)) None
            (''ns='' @ ns @ '' priority='' @ dec_nat (unat priority)) s1;
          s3 \<leftarrow> (case cascade of None \<Rightarrow> Some s2
            | Some reason \<Rightarrow> map_option snd (cascade_cancel cfg (next_id s) reason (en_now env) s2));
          Some (finish env EnqIo (next_id s) q s3) } }) = Some (r, q')"
    using assms(1)
    unfolding enqueue_def Inr sum.case Let_def s_def ns_def enqueue_state_def request_namespace_def .
  then show ?thesis
    using rejected stored [OF Inr]
    by (auto simp: Option.bind_eq_Some_conv case_prod_unfold split: if_splits sum.splits)
qed

lemma new_job_fields [simp]:
  "jb_id (new_job i sq p ns rem now req) = i" "jb_seq (new_job i sq p ns rem now req) = sq"
  "jb_priority (new_job i sq p ns rem now req) = p" "jb_namespace (new_job i sq p ns rem now req) = ns"
  "jb_depends_on (new_job i sq p ns rem now req) = rq_depends_on req"
  "jb_dependents (new_job i sq p ns rem now req) = []"
  "jb_remaining_deps (new_job i sq p ns rem now req) = rem"
  "jb_payload (new_job i sq p ns rem now req) = rq_payload req"
  by (simp_all add: new_job_def)

lemma new_job_waiting: "is_waiting (jb_state (new_job i sq p ns rem now req))"
  by (simp add: new_job_def Let_def split: option.split)

lemma new_job_live: "\<not> is_terminal (jb_state (new_job i sq p ns rem now req))"
  using new_job_waiting [of i sq p ns rem now req] by (cases "jb_state (new_job i sq p ns rem now req)") auto

lemma enqueue_state_wf: "queue_wf (q_state q) \<Longrightarrow> queue_wf (enqueue_state cfg env req q)"
  unfolding enqueue_state_def by (intro namespace_mut_wf tick_wf)

lemma enqueue_wf:
  assumes wf: "queue_wf (q_state q)" and res: "enqueue cfg env req q = Some (r, q')"
  shows "queue_wf (q_state q')"
  using res
proof (cases rule: enqueue_cases)
  case (stored priority rem cascade js s1 s2 s3)
  let ?s = "enqueue_state cfg env req q"
  let ?j = "new_job (next_id ?s) (next_seq ?s) priority (request_namespace req) rem (en_now env) req"
  note f1 = bump_expect_frame [OF stored(6)] and f2 = audit_push_frame [OF stored(7)]
  have q': "q_state q' = s3" using stored(9) by (metis finish_state snd_conv)
  have p: "1 \<le> priority \<and> priority \<le> 10" by (rule request_priority_bounds [OF stored(1)])
  have fr: "frame (?s\<lparr>next_id := next_id ?s + 1, next_seq := next_seq ?s + 1\<rparr>) s2"
    using frame_trans [OF f1 [THEN conjunct1] f2 [THEN conjunct1]] unfolding frame_def rings_def by simp
  show ?thesis unfolding q'
    by (rule enqueue_insert_wf [OF enqueue_state_wf [OF wf] _ stored(3,4) _ _ _ _ _ _ _ _ fr _ stored(8), of ?j])
      (use stored(2,5) f1 f2 p in \<open>simp_all add: new_job_waiting enqueue_state_def del: map_of_eq_None_iff\<close>)
qed (use wf enqueue_state_wf in simp_all)

section \<open>Every operation keeps the invariant\<close>

lemma is_lease_holderD:
  assumes "is_lease_holder s wid jid"
  obtains j e where "look s jid = Some j" "jb_state j = Leased wid e"
  using assms by (auto simp: is_lease_holder_def split: option.splits job_state.splits)

lemma complete_cases:
  assumes "complete cfg env wid jid q = Some (r, q')"
  defines "s \<equiv> tick (en_now env) (q_state q)"
  obtains (refused) "r = Inl AckNotLeaseHolder" "q' = q\<lparr>q_state := s\<rparr>" "\<not> is_lease_holder s wid jid"
  | (finished) j e s1 s2 where "look s jid = Some j" "jb_state j = Leased wid e"
      "bump_expect (\<lambda>c. c\<lparr>completed_total := completed_total c + 1\<rparr>) (jb_namespace j)
         (s\<lparr>qs_jobs := complete_jobs (en_now env) jid j (qs_jobs s)\<rparr>) = Some s1"
      "audit_push cfg (en_now env) EvCompleted (Some jid) (Some wid) [] s1 = Some s2"
      "(r, q') = finish env AckIo () q s2"
proof (cases "is_lease_holder s wid jid")
  case True
  then obtain j e where j: "look s jid = Some j" "jb_state j = Leased wid e" by (rule is_lease_holderD)
  have jobs: "(set_job_state jid (Completed now) s)\<lparr>qs_jobs := fold (\<lambda>c. modify_entry c dec_remaining) (jb_dependents j)
      (qs_jobs (set_job_state jid (Completed now) s))\<rparr> = s\<lparr>qs_jobs := complete_jobs now jid j (qs_jobs s)\<rparr>" for now
    by (simp add: set_job_state_def complete_jobs_def)
  show ?thesis
    using assms(1) True that(2) [OF j] unfolding complete_def s_def [symmetric] Let_def
    by (auto simp: j jobs Option.bind_eq_Some_conv)
next
  case False
  then show ?thesis using assms(1) that(1) by (auto simp: complete_def s_def)
qed

lemma quiet_commit:
  assumes "quiet s s0" "bump_expect f n s0 = Some s1" "audit_push cfg now kind i w p s1 = Some s2"
  shows "quiet s s2"
  by (rule quiet_trans [OF quiet_trans [OF assms(1) quiet_bump_expect [OF assms(2)]] quiet_audit_push [OF assms(3)]])

lemma finish_Pair_state: "(r, q') = finish env io v q s \<Longrightarrow> q_state q' = s"
  by (metis finish_state snd_conv)

lemma complete_wf:
  assumes wf: "queue_wf (q_state q)" and res: "complete cfg env wid jid q = Some (r, q')"
  shows "queue_wf (q_state q')"
  using res
proof (cases rule: complete_cases)
  case refused
  then show ?thesis using tick_wf [OF wf] by simp
next
  case (finished j e s1 s2)
  let ?s = "tick (en_now env) (q_state q)" and ?now = "en_now env"
  let ?s' = "?s\<lparr>qs_jobs := complete_jobs ?now jid j (qs_jobs ?s)\<rparr>"
  note wfs = tick_wf [OF wf, of ?now]
  have jobs: "jobs_wf (next_id ?s) (next_seq ?s) (qs_jobs ?s)" using wfs unfolding queue_wf_def by blast
  have leased: "is_leased (jb_state j)" using finished(2) by simp
  note wj = job_wfD [OF queue_wfD(1) [OF wfs finished(1)]]
  have "jid \<notin> set (jb_dependents j)" using wj(10) [OF _ finished(1)] wj(7) by blast
  note look' = complete_jobs_look [OF wj(8) this, of ?now "qs_jobs ?s"]
  have "queue_wf ?s'"
  proof (rule wf_frame_jobs [OF frame_jobs_update(1) wfs])
    show "jobs_wf (next_id ?s) (next_seq ?s) (qs_jobs ?s')"
      using complete_jobs_wf [OF jobs finished(1) leased] by simp
    show "\<exists>k. look ?s i = Some k \<and> jb_namespace k' = jb_namespace k \<and> (is_dead (jb_state k) \<longrightarrow> is_dead (jb_state k'))"
      if "look ?s' i = Some k'" for i k'
      using that finished(1,2) by (auto simp: look' split: if_splits)
  qed
  then have "queue_wf s2"
    by (rule quiet_wf [OF quiet_trans [OF quiet_bump_expect [OF finished(3)] quiet_audit_push [OF finished(4)]]])
  then show ?thesis using finish_Pair_state [OF finished(5)] by simp
qed

lemma lease_quiet:
  assumes "look s i = Some j" "\<not> is_terminal (jb_state j)" "jb_remaining_deps j = 0 \<or> is_leased (jb_state j)"
  shows "quiet s (set_job_state i (Leased w e) s)"
  by (rule quiet_set_job_state) (use assms in \<open>auto simp: live_def\<close>)

lemma fold_min_in: "fold (\<lambda>x best. if acquire_before x best then x else best) js j \<in> set (j # js)"
proof (induction js arbitrary: j)
  case (Cons x js)
  show ?case using Cons.IH [of "if acquire_before x j then x else j"] by (auto split: if_splits)
qed simp

lemma min_by_key_in: "min_by_key js = Some j \<Longrightarrow> j \<in> set js"
  using fold_min_in by (cases js) (auto simp del: fold.simps)

lemma next_acquirable_look:
  assumes wf: "queue_wf s" and n: "next_acquirable caps s = Some i"
  obtains j where "look s i = Some j" "is_acquirable caps j"
    "min_by_key (filter (is_acquirable caps) (map snd (qs_jobs s))) = Some j"
proof -
  obtain j where m: "min_by_key (filter (is_acquirable caps) (map snd (qs_jobs s))) = Some j" "jb_id j = i"
    using n by (auto simp: next_acquirable_def)
  then obtain k where "(k, j) \<in> set (qs_jobs s)" "is_acquirable caps j" using min_by_key_in [OF m(1)] by auto
  then have k: "look s k = Some j" using look_in_jobs [OF wf] by blast
  moreover have "k = i" using queue_wfD(2) [OF wf k] m(2) by simp
  ultimately show ?thesis using that m \<open>is_acquirable caps j\<close> by simp
qed

lemma acquire_cases:
  assumes wf: "queue_wf (q_state q)" and res: "acquire cfg env wid d q = Some (r, q')"
  defines "s \<equiv> tick (en_now env) (q_state q)"
  obtains (unknown) "r = Inl (UnknownWorker wid)" "q' = q\<lparr>q_state := s\<rparr>" "\<not> registry_contains wid (qs_workers s)"
  | (nothing) "r = Inr None" "q' = q\<lparr>q_state := s\<rparr>" "next_acquirable (resolve_worker_caps s wid) s = None"
  | (leased) jid j s1 s2 where "next_acquirable (resolve_worker_caps s wid) s = Some jid" "look s jid = Some j"
      "is_acquirable (resolve_worker_caps s wid) j"
      "bump_expect (\<lambda>c. c\<lparr>acquired_total := acquired_total c + 1\<rparr>) (jb_namespace j)
         (set_job_state jid (Leased wid (instant_add (en_now env) d)) s) = Some s1"
      "audit_push cfg (en_now env) EvAcquired (Some jid) (Some wid)
         (''attempt='' @ dec_nat (unat (jb_failures j + 1))) s1 = Some s2"
      "(r, q') = finish env AcqIo (Some \<lparr>aj_id = jid, aj_payload = jb_payload j, aj_attempt = jb_failures j + 1,
         aj_priority = jb_priority j, aj_scheduled_at = jb_scheduled_at j, aj_namespace = jb_namespace j,
         aj_required_capabilities = jb_required_capabilities j\<rparr>) q s2"
proof (cases "next_acquirable (resolve_worker_caps s wid) s")
  case None
  with res that(1,2) show ?thesis
    unfolding acquire_def s_def [symmetric] Let_def by (auto split: if_splits)
next
  case (Some jid)
  have wfs: "queue_wf s" unfolding s_def by (rule tick_wf [OF wf])
  obtain j where j: "look s jid = Some j" "is_acquirable (resolve_worker_caps s wid) j"
    using next_acquirable_look [OF wfs Some] by metis
  show ?thesis
  proof (cases "cf_require_worker_registration cfg \<and> \<not> registry_contains wid (qs_workers s)")
    case True
    with res that(1) show ?thesis unfolding acquire_def s_def [symmetric] Let_def by auto
  next
    case False
    with res that(3) [OF Some j] show ?thesis
      unfolding acquire_def s_def [symmetric] Let_def by (auto simp: Some j Option.bind_eq_Some_conv)
  qed
qed

lemma acquire_quiet:
  assumes wf: "queue_wf (q_state q)" and res: "acquire cfg env wid d q = Some (r, q')"
  shows "quiet (q_state q) (q_state q')"
  using wf res
proof (cases rule: acquire_cases)
  case (leased jid j s1 s2)
  let ?s = "tick (en_now env) (q_state q)"
  have "quiet ?s (set_job_state jid (Leased wid (instant_add (en_now env) d)) ?s)"
    by (rule lease_quiet [OF leased(2)]) (use leased(3) in \<open>simp_all add: is_acquirable_def\<close>)
  then have "quiet ?s s2" by (rule quiet_commit [OF _ leased(4,5)])
  then show ?thesis using quiet_trans [OF tick_quiet [OF wf]] finish_Pair_state [OF leased(6)] by simp
qed (use tick_quiet [OF wf] in simp_all)

lemma heartbeat_cases:
  assumes res: "heartbeat cfg env wid jid d q = Some (r, q')"
  defines "s \<equiv> tick (en_now env) (q_state q)"
  obtains (refused) e where "r = Inl e" "q' = q\<lparr>q_state := s\<rparr>" "\<not> is_lease_holder s wid jid" "e \<noteq> HbIo"
  | (extended) j e s1 where "look s jid = Some j" "jb_state j = Leased wid e"
      "audit_push cfg (en_now env) EvHeartbeatExtended (Some jid) (Some wid) []
         (set_job_state jid (Leased wid (instant_add (en_now env) d)) s) = Some s1"
      "(r, q') = finish env HbIo () q s1"
proof (cases "is_lease_holder s wid jid")
  case True
  then obtain j e where j: "look s jid = Some j" "jb_state j = Leased wid e" by (rule is_lease_holderD)
  show ?thesis
    using res that(2) [OF j] unfolding heartbeat_def s_def [symmetric] Let_def
    by (auto simp: j Option.bind_eq_Some_conv)
next
  case False
  then have "\<exists>e. r = Inl e \<and> e \<noteq> HbIo \<and> q' = q\<lparr>q_state := s\<rparr>"
    using res unfolding heartbeat_def s_def [symmetric] Let_def is_lease_holder_def
    by (auto split: option.splits job_state.splits if_splits)
  then show ?thesis using that(1) False by blast
qed

lemma heartbeat_quiet:
  assumes wf: "queue_wf (q_state q)" and res: "heartbeat cfg env wid jid d q = Some (r, q')"
  shows "quiet (q_state q) (q_state q')"
  using res
proof (cases rule: heartbeat_cases)
  case (extended j e s1)
  have "quiet (tick (en_now env) (q_state q)) s1"
    using quiet_trans [OF lease_quiet [OF extended(1)] quiet_audit_push [OF extended(3)]] extended(2) by simp
  then show ?thesis using quiet_trans [OF tick_quiet [OF wf]] finish_Pair_state [OF extended(4)] by simp
qed (use tick_quiet [OF wf] in simp)

definition record_failure :: "job_id \<Rightarrow> job \<Rightarrow> queue_state \<Rightarrow> queue_state" where
  "record_failure jid j s =
     s\<lparr>qs_jobs := modify_entry jid (\<lambda>k. k\<lparr>jb_failures := jb_failures j + 1\<rparr>) (qs_jobs s)\<rparr>"

definition retry_at :: "config \<Rightarrow> env \<Rightarrow> job \<Rightarrow> instant" where
  "retry_at cfg env j =
     (let ready = instant_add (en_now env)
        (compute_backoff env (cf_backoff_base cfg) (cf_backoff_cap cfg) (jb_failures j + 1))
      in case jb_scheduled_at j of Some t \<Rightarrow> max ready t | None \<Rightarrow> ready)"

lemma fail_cases:
  assumes res: "fail cfg env wid jid reason q = Some (r, q')"
  defines "s \<equiv> tick (en_now env) (q_state q)"
  obtains (refused) "r = Inl AckNotLeaseHolder" "q' = q\<lparr>q_state := s\<rparr>" "\<not> is_lease_holder s wid jid"
  | (buried) j e nst s1 s2 s3 s4 where "look s jid = Some j" "jb_state j = Leased wid e"
      "map_of (qs_namespaces s) (jb_namespace j) = Some nst"
      "bump_expect (\<lambda>c. c\<lparr>failed_total := failed_total c + 1\<rparr>) (jb_namespace j) (record_failure jid j s) = Some s1"
      "audit_push cfg (en_now env) EvFailed (Some jid) (Some wid)
         (''attempt='' @ dec_nat (unat (jb_failures j + 1)) @ '' reason='' @ reason) s1 = Some s2"
      "nc_max_attempts (ns_config nst) \<le> jb_failures j + 1"
      "terminal_dead_letter cfg jid reason (en_now env) s2 = Some s3"
      "cascade_children cfg (case look s3 jid of Some j \<Rightarrow> jb_dependents j | None \<Rightarrow> [])
         (''parent '' @ dec64 jid @ '' dead-lettered'') (en_now env) s3 = Some s4"
      "(r, q') = finish env AckIo () q s4"
  | (retry) j e nst s1 s2 s3 s4 where "look s jid = Some j" "jb_state j = Leased wid e"
      "map_of (qs_namespaces s) (jb_namespace j) = Some nst"
      "bump_expect (\<lambda>c. c\<lparr>failed_total := failed_total c + 1\<rparr>) (jb_namespace j) (record_failure jid j s) = Some s1"
      "audit_push cfg (en_now env) EvFailed (Some jid) (Some wid)
         (''attempt='' @ dec_nat (unat (jb_failures j + 1)) @ '' reason='' @ reason) s1 = Some s2"
      "\<not> nc_max_attempts (ns_config nst) \<le> jb_failures j + 1"
      "bump_expect (\<lambda>c. c\<lparr>retry_scheduled_total := retry_scheduled_total c + 1\<rparr>) (jb_namespace j)
         (set_job_state jid (RetryPending (retry_at cfg env j)) s2) = Some s3"
      "audit_push cfg (en_now env) EvRetryScheduled (Some jid) None
         (''ready_at_nanos='' @ dec64 (retry_at cfg env j)) s3 = Some s4"
      "(r, q') = finish env AckIo () q s4"
proof (cases "is_lease_holder s wid jid")
  case False
  then show ?thesis using res that(1) by (auto simp: fail_def s_def)
next
  case True
  then obtain j e where j: "look s jid = Some j" "jb_state j = Leased wid e" by (rule is_lease_holderD)
  obtain nst where ns: "map_of (qs_namespaces s) (jb_namespace j) = Some nst"
    using res True by (cases "map_of (qs_namespaces s) (jb_namespace j)") (simp_all add: fail_def s_def [symmetric] j Let_def)
  have res': "(do {
      s1 \<leftarrow> bump_expect (\<lambda>c. c\<lparr>failed_total := failed_total c + 1\<rparr>) (jb_namespace j) (record_failure jid j s);
      s2 \<leftarrow> audit_push cfg (en_now env) EvFailed (Some jid) (Some wid)
        (''attempt='' @ dec_nat (unat (jb_failures j + 1)) @ '' reason='' @ reason) s1;
      s4 \<leftarrow> (if nc_max_attempts (ns_config nst) \<le> jb_failures j + 1
        then do {
          s3 \<leftarrow> terminal_dead_letter cfg jid reason (en_now env) s2;
          cascade_children cfg (case look s3 jid of Some j \<Rightarrow> jb_dependents j | None \<Rightarrow> [])
            (''parent '' @ dec64 jid @ '' dead-lettered'') (en_now env) s3 }
        else do {
          s3 \<leftarrow> bump_expect (\<lambda>c. c\<lparr>retry_scheduled_total := retry_scheduled_total c + 1\<rparr>) (jb_namespace j)
            (set_job_state jid (RetryPending (retry_at cfg env j)) s2);
          audit_push cfg (en_now env) EvRetryScheduled (Some jid) None
            (''ready_at_nanos='' @ dec64 (retry_at cfg env j)) s3 });
      Some (finish env AckIo () q s4) }) = Some (r, q')"
    using res True unfolding fail_def s_def [symmetric] Let_def record_failure_def retry_at_def
    by (simp only: j ns Option.bind.simps not_True_eq_False if_False)
  show ?thesis
  proof (cases "nc_max_attempts (ns_config nst) \<le> jb_failures j + 1")
    case le: True
    with res' that(2) [OF j ns _ _ le] show ?thesis by (auto simp: Option.bind_eq_Some_conv)
  next
    case le: False
    with res' that(3) [OF j ns _ _ le] show ?thesis by (auto simp: Option.bind_eq_Some_conv)
  qed
qed

lemma quiet_modify_jobs:
  assumes "\<And>j. look s i = Some j \<Longrightarrow> job_step j (f j)"
  shows "quiet s (s\<lparr>qs_jobs := modify_entry i f (qs_jobs s)\<rparr>)"
  unfolding quiet_iff_frame using restates_modify [OF assms] by simp

lemma record_failure_quiet: "quiet s (record_failure jid j s)"
  unfolding record_failure_def by (rule quiet_modify_jobs) (simp add: job_step_def)

lemma fail_prefix_quiet:
  assumes "bump_expect f n (record_failure jid j s) = Some s1" "audit_push cfg now kind i w p s1 = Some s2"
  shows "quiet s s2"
  by (rule quiet_commit [OF record_failure_quiet assms])

lemma quiet_prefix_live:
  assumes "look s jid = Some j" "\<not> is_terminal (jb_state j)"
    "bump_expect f n (record_failure jid j s) = Some s1" "audit_push cfg now kind i w p s1 = Some s2"
  shows "live s2 jid"
  using assms(1,2) bump_expect_frame [OF assms(3)] audit_push_frame [OF assms(4)]
  by (auto simp: live_def record_failure_def)

lemma fail_wf:
  assumes wf: "queue_wf (q_state q)" and res: "fail cfg env wid jid reason q = Some (r, q')"
  shows "queue_wf (q_state q')"
  using res
proof (cases rule: fail_cases)
  case refused
  then show ?thesis using tick_wf [OF wf] by simp
next
  case (buried j e nst s1 s2 s3 s4)
  have "queue_wf s2" by (rule quiet_wf [OF fail_prefix_quiet [OF buried(4,5)] tick_wf [OF wf]])
  moreover have "live s2 jid" by (rule quiet_prefix_live [OF buried(1) _ buried(4,5)]) (simp add: buried(2))
  ultimately have "queue_wf s3" using buried(7) by (rule terminal_dead_letter_wf)
  then have "queue_wf s4" by (rule quiet_wf [OF cascade_children_quiet [OF buried(8)]])
  then show ?thesis using finish_Pair_state [OF buried(9)] by simp
next
  case (retry j e nst s1 s2 s3 s4)
  have "queue_wf s2" by (rule quiet_wf [OF fail_prefix_quiet [OF retry(4,5)] tick_wf [OF wf]])
  moreover have "live s2 jid" by (rule quiet_prefix_live [OF retry(1) _ retry(4,5)]) (simp add: retry(2))
  then have "quiet s2 (set_job_state jid (RetryPending (retry_at cfg env j)) s2)"
    by (rule quiet_set_job_state) simp_all
  then have "quiet s2 s4" by (rule quiet_commit [OF _ retry(7,8)])
  ultimately have "queue_wf s4" using quiet_wf by blast
  then show ?thesis using finish_Pair_state [OF retry(9)] by simp
qed

lemma cancel_quiet:
  assumes wf: "queue_wf (q_state q)" and res: "cancel cfg env jid reason q = Some (r, q')"
  shows "quiet (q_state q) (q_state q')"
proof -
  obtain n s where c: "cascade_cancel cfg jid reason (en_now env) (tick (en_now env) (q_state q)) = Some (n, s)"
    and f: "(r, q') = finish env () n q s"
    using res by (auto simp: cancel_def Option.bind_eq_Some_conv Let_def)
  have "quiet (q_state q) s" by (rule quiet_trans [OF tick_quiet [OF wf] cancelsD(1) [OF cascade_cancel_spec(2) [OF c]]])
  then show ?thesis using finish_Pair_state [OF f] by simp
qed

lemma promote_cases:
  assumes res: "promote cfg env jid p q = Some (r, q')"
  defines "s \<equiv> tick (en_now env) (q_state q)"
  obtains (invalid) "r = Inl (ProInvalidPriority p)" "q' = q" "priority_new p = None"
  | (refused) e where "r = Inl e" "q' = q\<lparr>q_state := s\<rparr>" "e \<noteq> ProIo"
  | (raised) j s1 s2 where "priority_new p = Some p" "look s jid = Some j" "is_waiting (jb_state j)"
      "jb_priority j < p"
      "bump_expect (\<lambda>c. c\<lparr>promoted_total := promoted_total c + 1\<rparr>) (jb_namespace j)
         (s\<lparr>qs_jobs := modify_entry jid (\<lambda>j. j\<lparr>jb_priority := p\<rparr>) (qs_jobs s)\<rparr>) = Some s1"
      "audit_push cfg (en_now env) EvPromoted (Some jid) None
         (dec_nat (unat (jb_priority j)) @ '' -> '' @ dec_nat (unat p)) s1 = Some s2"
      "(r, q') = finish env ProIo () q s2"
proof (cases "priority_new p")
  case None
  then show ?thesis using res that(1) by (auto simp: promote_def)
next
  case (Some v)
  then have v: "v = p" by (simp add: priority_new_def split: if_splits)
  note Some' = Some [unfolded v]
  have res': "(case look s jid of None \<Rightarrow> Some (Inl (UnknownJob jid), q\<lparr>q_state := s\<rparr>)
     | Some j \<Rightarrow> if \<not> (case jb_state j of Pending _ \<Rightarrow> True | Scheduled _ \<Rightarrow> True | _ \<Rightarrow> False)
         then Some (Inl (NotPending jid), q\<lparr>q_state := s\<rparr>)
         else if p \<le> jb_priority j
         then Some (Inl (PriorityNotIncreased (jb_priority j) p), q\<lparr>q_state := s\<rparr>)
         else do {
           s1 \<leftarrow> bump_expect (\<lambda>c. c\<lparr>promoted_total := promoted_total c + 1\<rparr>) (jb_namespace j)
             (s\<lparr>qs_jobs := modify_entry jid (\<lambda>j. j\<lparr>jb_priority := p\<rparr>) (qs_jobs s)\<rparr>);
           s2 \<leftarrow> audit_push cfg (en_now env) EvPromoted (Some jid) None
             (dec_nat (unat (jb_priority j)) @ '' -> '' @ dec_nat (unat p)) s1;
           Some (finish env ProIo () q s2) }) = Some (r, q')"
    using res unfolding promote_def s_def [symmetric] Let_def by (simp only: Some' option.case)
  show ?thesis
  proof (cases "look s jid")
    case None
    then show ?thesis using res' that(2) by auto
  next
    case (Some j)
    show ?thesis
    proof (cases "\<exists>e. r = Inl e \<and> e \<noteq> ProIo \<and> q' = q\<lparr>q_state := s\<rparr>")
      case True
      then show ?thesis using that(2) by blast
    next
      case False
      then have w: "is_waiting (jb_state j)" and lt: "jb_priority j < p"
        using res' Some by (auto split: if_splits job_state.splits)
      show ?thesis
        using res' Some False that(3) [OF Some' Some w lt]
        by (auto simp: Option.bind_eq_Some_conv split: if_splits)
    qed
  qed
qed

lemma promote_quiet:
  assumes wf: "queue_wf (q_state q)" and res: "promote cfg env jid p q = Some (r, q')"
  shows "quiet (q_state q) (q_state q')"
  using res
proof (cases rule: promote_cases)
  case (raised j s1 s2)
  let ?s = "tick (en_now env) (q_state q)"
  have "quiet ?s (?s\<lparr>qs_jobs := modify_entry jid (\<lambda>j. j\<lparr>jb_priority := p\<rparr>) (qs_jobs ?s)\<rparr>)"
    by (rule quiet_modify_jobs) (use priority_new_bounds [OF raised(1)] in \<open>simp add: job_step_def\<close>)
  then have "quiet ?s s2" by (rule quiet_commit [OF _ raised(5,6)])
  then show ?thesis using quiet_trans [OF tick_quiet [OF wf]] finish_Pair_state [OF raised(7)] by simp
qed (use tick_quiet [OF wf] in simp_all)

lemma quiet_workers [simp]: "quiet s (s\<lparr>qs_workers := ws\<rparr>)"
  by (simp add: quiet_iff_frame)

lemma register_worker_quiet:
  assumes wf: "queue_wf (q_state q)" and res: "register_worker cfg env wid caps q = Some (r, q')"
  shows "quiet (q_state q) (q_state q')"
proof -
  let ?s = "tick (en_now env) (q_state q)"
  obtain s where p: "audit_push cfg (en_now env) EvWorkerRegistered None (Some wid) (''caps='' @ join_caps caps)
      (?s\<lparr>qs_workers := register_worker_entry wid caps (qs_workers ?s)\<rparr>) = Some s"
    and f: "(r, q') = finish env () () q s"
    using res by (auto simp: register_worker_def Option.bind_eq_Some_conv Let_def)
  have "quiet (q_state q) s"
    by (rule quiet_trans [OF tick_quiet [OF wf] quiet_trans [OF quiet_workers quiet_audit_push [OF p]]])
  then show ?thesis using finish_Pair_state [OF f] by simp
qed

lemma expire_held_quiet:
  "expire_held cfg wid now held s = Some s' \<Longrightarrow> \<forall>x \<in> set held. live s (fst x) \<Longrightarrow> quiet s s'"
proof (induction held arbitrary: s)
  case (Cons x held)
  obtain i ns where x: "x = (i, ns)" by (cases x)
  let ?s = "bump inc_lease_expired ns (set_job_state i (Pending (Some wid)) s)"
  obtain s1 where p: "audit_push cfg now EvLeaseExpired (Some i) (Some wid) ''worker deregistered'' ?s = Some s1"
    and rest: "expire_held cfg wid now held s1 = Some s'"
    using Cons.prems(1) by (auto simp: x Option.bind_eq_Some_conv Let_def)
  have "quiet s (set_job_state i (Pending (Some wid)) s)"
    using Cons.prems(2) x by (intro quiet_set_job_state) simp_all
  then have "quiet s s1" by (rule quiet_trans [OF quiet_trans [OF _ quiet_bump] quiet_audit_push [OF p]])
  moreover have "\<forall>x \<in> set held. live s1 (fst x)"
  proof
    fix y assume "y \<in> set held"
    then have "live (set_job_state i (Pending (Some wid)) s) (fst y)"
      using Cons.prems(2) by (intro live_set_waiting) simp_all
    then show "live s1 (fst y)" using audit_push_frame [OF p] by (simp add: live_def)
  qed
  ultimately show ?case using Cons.IH [OF rest] quiet_trans by blast
qed simp

lemma deregister_worker_cases:
  assumes res: "deregister_worker cfg env wid q = Some (r, q')"
  defines "s \<equiv> tick (en_now env) (q_state q)"
  obtains held s1 s2 where
    "held = concat (map (\<lambda>(_, j). case jb_state j of
       Leased w _ \<Rightarrow> if w = wid then [(jb_id j, jb_namespace j)] else [] | _ \<Rightarrow> []) (qs_jobs s))"
    "expire_held cfg wid (en_now env) held s = Some s1"
    "(if map_of (qs_workers s1) wid \<noteq> None
      then audit_push cfg (en_now env) EvWorkerDeregistered None (Some wid) []
        (s1\<lparr>qs_workers := AList.delete wid (qs_workers s1)\<rparr>)
      else Some (s1\<lparr>qs_workers := AList.delete wid (qs_workers s1)\<rparr>)) = Some s2"
    "(r, q') = finish env () (length held) q s2"
  using res that [OF refl] unfolding deregister_worker_def Let_def deregister_worker_entry_def prod.case s_def
  by (auto simp: Option.bind_eq_Some_conv simp del: map_of_eq_None_iff)

lemma deregister_worker_quiet:
  assumes wf: "queue_wf (q_state q)" and res: "deregister_worker cfg env wid q = Some (r, q')"
  shows "quiet (q_state q) (q_state q')"
proof -
  let ?s = "tick (en_now env) (q_state q)"
  let ?g = "\<lambda>j. case jb_state j of Leased w _ \<Rightarrow> if w = wid then [(jb_id j, jb_namespace j)] else [] | _ \<Rightarrow> []"
  obtain held s1 s2 where held: "held = concat (map (\<lambda>(_, j). ?g j) (qs_jobs ?s))"
    and e: "expire_held cfg wid (en_now env) held ?s = Some s1"
    and p: "(if map_of (qs_workers s1) wid \<noteq> None
      then audit_push cfg (en_now env) EvWorkerDeregistered None (Some wid) []
        (s1\<lparr>qs_workers := AList.delete wid (qs_workers s1)\<rparr>)
      else Some (s1\<lparr>qs_workers := AList.delete wid (qs_workers s1)\<rparr>)) = Some s2"
    and f: "(r, q') = finish env () (length held) q s2" by (rule deregister_worker_cases [OF res])
  have sel: "fst x = jb_id j \<and> \<not> is_terminal (jb_state j)" if "x \<in> set (?g j)" for x j
    using that by (cases "jb_state j") (auto split: if_splits)
  have "\<forall>x \<in> set held. live ?s (fst x)"
  proof
    fix x assume "x \<in> set held"
    then obtain i j where j: "look ?s i = Some j" "x \<in> set (?g j)"
      unfolding held in_select [OF tick_wf [OF wf]] by blast
    have "fst x = i" using sel [OF j(2)] queue_wfD(2) [OF tick_wf [OF wf] j(1)] by simp
    then show "live ?s (fst x)" using sel [OF j(2)] j(1) by (simp add: live_def)
  qed
  with e have "quiet ?s s1" by (rule expire_held_quiet)
  moreover have "quiet s1 s2"
    using p quiet_trans [OF quiet_workers quiet_audit_push] by (auto split: if_splits)
  ultimately have "quiet ?s s2" by (rule quiet_trans)
  then show ?thesis using quiet_trans [OF tick_quiet [OF wf]] finish_Pair_state [OF f] by simp
qed

lemma register_namespace_wf:
  assumes wf: "queue_wf (q_state q)" and res: "register_namespace env name ncfg q = Some (r, q')"
  shows "queue_wf (q_state q')"
proof -
  let ?s = "namespace_mut name ncfg (q_state q)"
  let ?s' = "?s\<lparr>qs_namespaces := modify_entry name (\<lambda>ns. ns\<lparr>ns_config := ncfg\<rparr>) (qs_namespaces ?s)\<rparr>"
  have f: "(r, q') = finish env () () q ?s'" using res by (simp add: register_namespace_def Let_def)
  note wfs = namespace_mut_wf [OF wf, of name ncfg]
  have ring: "\<exists>c'. rings ?s n = Some (c', ring)" if "rings ?s' n = Some (c, ring)" for n c ring
    using that by (auto simp: rings_def split: if_splits)
  have "queue_wf ?s'"
  proof (rule queue_wfI)
    show "jobs_wf (next_id ?s') (next_seq ?s') (qs_jobs ?s')" using wfs by (simp add: queue_wf_def)
    show "distinct_keys (qs_namespaces ?s')" using wfs by (simp add: queue_wf_def)
    show "map_of (qs_namespaces ?s') (jb_namespace j) \<noteq> None" if "look ?s' i = Some j" for i j
      using queue_wfD(3) [OF wfs, of i j] that by auto
    show "i < next_id ?s'" if r: "rings ?s' n = Some (c, ring)" "i \<in> set ring" for n c ring i
      using ring [OF r(1)] queue_wf_ringD(1) [OF wfs _ r(2)] by auto
    show "is_dead (jb_state j)" if r: "rings ?s' n = Some (c, ring)" "i \<in> set ring" "look ?s' i = Some j" for n c ring i j
      using ring [OF r(1)] queue_wf_ringD(2) [OF wfs _ r(2)] r(3) by auto
  qed
  then show ?thesis using finish_Pair_state [OF f] by simp
qed

lemmas quiet_ops = acquire_quiet heartbeat_quiet cancel_quiet promote_quiet register_worker_quiet
  deregister_worker_quiet

lemma map_snd_Some: "map_option snd x = Some q' \<longleftrightarrow> (\<exists>r. x = Some (r, q'))"
  by (cases x) auto

lemma exec_wf:
  assumes wf: "queue_wf (q_state q)" and res: "exec cfg env op q = Some q'"
  shows "queue_wf (q_state q')"
proof (cases op)
  case OpObserve
  then show ?thesis using res tick_wf [OF wf] by (auto simp: metrics_def Let_def)
qed (use res in \<open>auto simp: map_snd_Some dest: enqueue_wf [OF wf] complete_wf [OF wf] fail_wf [OF wf]
    register_namespace_wf [OF wf] quiet_ops [OF wf, THEN quiet_wf [OF _ wf]]\<close>)

lemma fresh_queue_wf: "queue_wf (q_state fresh_queue)"
  by (simp add: fresh_queue_def state_empty_def queue_wf_def jobs_wf_def)

lemma run_ops_wf: "queue_wf (q_state q) \<Longrightarrow> run_ops cfg ops q = Some q' \<Longrightarrow> queue_wf (q_state q')"
proof (induction ops arbitrary: q)
  case (Cons x ops)
  obtain env op where x: "x = (env, op)" by (cases x)
  obtain q1 where q1: "exec cfg env op q = Some q1" "run_ops cfg ops q1 = Some q'"
    using Cons.prems(2) by (auto simp: x Option.bind_eq_Some_conv)
  show ?case by (rule Cons.IH [OF exec_wf [OF Cons.prems(1) q1(1)] q1(2)])
qed simp

definition reachable :: "config \<Rightarrow> queue \<Rightarrow> bool" where
  "reachable cfg q \<longleftrightarrow> (\<exists>ops. run_ops cfg ops fresh_queue = Some q)"

lemma reachable_wf: "reachable cfg q \<Longrightarrow> queue_wf (q_state q)"
  unfolding reachable_def using run_ops_wf [OF fresh_queue_wf] by blast

text \<open>C6: The invariant. Every state that any interleaving of operations, at any clock readings and with any
  outcome of the file operations, can reach from an empty queue is well formed: identifiers and
  sequence numbers are unique and below their counters, dependencies point to older jobs and
  dependents back, the dependency counter of a live job is the number of its dependencies that have
  not completed, a job that is leased or completed has no open dependency, every job's namespace
  exists, and the dead-letter rings hold dead jobs only.\<close>

theorem every_reachable_state_wf:
  assumes "run_ops cfg ops fresh_queue = Some q"
  shows "queue_wf (q_state q)"
  by (rule run_ops_wf [OF fresh_queue_wf assms])

section \<open>A concrete run\<close>

definition demo_env :: "u64 \<Rightarrow> env" where
  "demo_env now = \<lparr>en_now = now, en_max_jitter = (\<lambda>_. 0), en_pick = (\<lambda>_. 0), en_save = SaveOk,
     en_to_vec = (\<lambda>_. [1])\<rparr>"

definition demo_config :: "nat \<Rightarrow> config" where
  "demo_config letters = \<lparr>cf_active_capacity = 4, cf_dead_letter_capacity = letters, cf_max_attempts = 1,
     cf_backoff_base = 8, cf_backoff_cap = 64, cf_audit_retention = 6, cf_require_worker_registration = False,
     cf_namespace_configs = []\<rparr>"

definition demo_request :: "job_id list \<Rightarrow> u8 \<Rightarrow> enqueue_request" where
  "demo_request deps p = \<lparr>rq_payload = [7], rq_priority = Some p, rq_scheduled_at = None, rq_depends_on = deps,
     rq_required_capabilities = [], rq_namespace = None\<rparr>"

definition demo_ops :: "(env \<times> op) list" where
  "demo_ops = [(demo_env 1, OpEnqueue (demo_request [] 5)), (demo_env 2, OpEnqueue (demo_request [1] 9)),
     (demo_env 3, OpEnqueue (demo_request [] 7))]"

definition demo_queue :: queue where
  "demo_queue = the (run_ops (demo_config 2) demo_ops fresh_queue)"

lemma demo_run: "run_ops (demo_config 2) demo_ops fresh_queue = Some demo_queue"
proof -
  have "run_ops (demo_config 2) demo_ops fresh_queue \<noteq> None" by code_simp
  then show ?thesis by (auto simp: demo_queue_def)
qed

theorem every_reachable_state_wf_witness: "queue_wf (q_state demo_queue) \<and> length (qs_jobs (q_state demo_queue)) = 3"
proof -
  have "length (qs_jobs (q_state demo_queue)) = 3" by code_simp
  then show ?thesis using every_reachable_state_wf [OF demo_run] by blast
qed

lemma demo_reachable: "reachable (demo_config 2) demo_queue"
  unfolding reachable_def using demo_run by blast

lemma run_ops_append: "run_ops cfg (ops @ ops') q = Option.bind (run_ops cfg ops q) (run_ops cfg ops')"
proof (induction ops arbitrary: q)
  case (Cons x ops)
  obtain env op where x: "x = (env, op)" by (cases x)
  show ?case by (cases "exec cfg env op q") (simp_all add: x Cons.IH)
qed simp

end
