(* ===== verification/Job_Scheduling.thy ===== *)
theory Job_Scheduling
  imports Job_Operations
begin

text \<open>
  What the operations of the job queue do to the schedule, in every state a queue can reach:
  acquisition takes the best job, the dependency graph has no cycle, a cascade cancels exactly the
  jobs that wait for the cancelled one, and a lease is exclusive.
\<close>

section \<open>Acquisition takes the best job\<close>

lemma before_neg_trans: "\<not> acquire_before a b \<Longrightarrow> \<not> acquire_before b c \<Longrightarrow> \<not> acquire_before a c"
  by (auto simp: acquire_before_def)

lemma fold_min_least:
  "x \<in> set (j # js) \<Longrightarrow> \<not> acquire_before x (fold (\<lambda>x best. if acquire_before x best then x else best) js j)"
proof (induction js arbitrary: j x)
  case (Cons y js)
  let ?b = "if acquire_before y j then y else j"
  have b: "\<not> acquire_before ?b (fold (\<lambda>x best. if acquire_before x best then x else best) js ?b)"
    by (rule Cons.IH) simp
  have "\<not> acquire_before j ?b" "\<not> acquire_before y ?b" by (auto simp: acquire_before_def)
  then show ?case using Cons.prems Cons.IH [of x ?b] before_neg_trans [OF _ b] by auto
qed (simp add: acquire_before_def)

lemma min_by_key_least: "min_by_key js = Some m \<Longrightarrow> x \<in> set js \<Longrightarrow> \<not> acquire_before x m"
  using fold_min_least by (cases js) (auto simp del: fold.simps)

lemma remaining_zero_iff:
  assumes "queue_wf s" "look s i = Some j" "\<not> is_terminal (jb_state j)"
  shows "jb_remaining_deps j = 0 \<longleftrightarrow> (\<forall>d \<in> set (jb_depends_on j). completed_in (qs_jobs s) d)"
proof -
  have "unat (jb_remaining_deps j) = length (filter (\<lambda>d. \<not> completed_in (qs_jobs s) d) (jb_depends_on j))"
    by (rule job_wfD(11) [OF queue_wfD(1) [OF assms(1,2)] assms(3)])
  then have "jb_remaining_deps j = 0 \<longleftrightarrow> filter (\<lambda>d. \<not> completed_in (qs_jobs s) d) (jb_depends_on j) = []"
    by (metis length_0_conv unat_eq_zero)
  then show ?thesis by (simp add: filter_empty_conv)
qed

lemma next_acquirable_best:
  assumes wf: "queue_wf s" and n: "next_acquirable caps s = Some i" "look s i = Some j"
    and k: "look s k = Some m" "is_acquirable caps m" "k \<noteq> i"
  shows "jb_priority m < jb_priority j \<or> jb_priority m = jb_priority j \<and> jb_seq j < jb_seq m"
proof -
  have best: "min_by_key (filter (is_acquirable caps) (map snd (qs_jobs s))) = Some j"
    using next_acquirable_look [OF wf n(1)] n(2) by (metis option.inject)
  have "(k, m) \<in> set (qs_jobs s)" using look_in_jobs [OF wf] k(1) by blast
  then have "m \<in> set (filter (is_acquirable caps) (map snd (qs_jobs s)))" using k(2) by force
  from min_by_key_least [OF best this] have "\<not> acquire_before m j" .
  moreover have "jb_seq m \<noteq> jb_seq j"
    using wf k(1,3) n(2) jobs_wfD(3) [of "next_id s" "next_seq s" "qs_jobs s"] unfolding queue_wf_def by blast
  ultimately show ?thesis by (auto simp: acquire_before_def)
qed

lemma next_acquirable_None:
  assumes wf: "queue_wf s" and n: "next_acquirable caps s = None" and k: "look s k = Some m"
  shows "\<not> is_acquirable caps m"
proof
  assume "is_acquirable caps m"
  moreover have "(k, m) \<in> set (qs_jobs s)" using look_in_jobs [OF wf] k by blast
  ultimately have "m \<in> set (filter (is_acquirable caps) (map snd (qs_jobs s)))" by force
  then show False using n by (cases "filter (is_acquirable caps) (map snd (qs_jobs s))") (auto simp: next_acquirable_def)
qed

lemma finish_result: "(Inr v, q') = finish env io v' q s \<Longrightarrow> v = v' \<and> en_save env = SaveOk \<and>
    q' = q\<lparr>q_state := s, q_file := Some (en_to_vec env s)\<rparr>"
  by (cases "en_save env") (auto simp: finish_def save_def)

lemma acquired_spec:
  assumes wf: "queue_wf (q_state q)" and res: "acquire cfg env wid d q = Some (Inr (Some a), q')"
  defines "s \<equiv> tick (en_now env) (q_state q)"
  obtains j where "next_acquirable (resolve_worker_caps s wid) s = Some (aj_id a)" "look s (aj_id a) = Some j"
    "is_acquirable (resolve_worker_caps s wid) j" "aj_payload a = jb_payload j"
    "qs_jobs (q_state q') = modify_entry (aj_id a) (\<lambda>j. j\<lparr>jb_state := Leased wid (instant_add (en_now env) d)\<rparr>) (qs_jobs s)"
  using wf res
proof (cases rule: acquire_cases)
  case (leased jid j s1 s2)
  have jobs: "qs_jobs s2 = qs_jobs (set_job_state jid (Leased wid (instant_add (en_now env) d)) s)"
    using bump_expect_frame [OF leased(4)] audit_push_frame [OF leased(5)] by (simp add: s_def)
  have "aj_id a = jid" "aj_payload a = jb_payload j" "q_state q' = s2" using finish_result [OF leased(6)] by auto
  then show ?thesis using that [of j] leased(1-3) jobs by (simp add: s_def set_job_state_def)
qed simp_all

text \<open>C8: Acquisition. In every reachable queue, a job handed to a worker is pending, every job it depends on
  has completed, the worker has the capabilities it requires, and it comes strictly before every
  other acquirable job: it has a higher priority, or the same priority and an earlier sequence
  number. It is leased to the worker until the lease duration has passed, and no other job changes.\<close>

theorem acquire_exact:
  assumes "reachable cfg q" "acquire cfg env wid d q = Some (Inr (Some a), q')"
  shows "let s = tick (en_now env) (q_state q); caps = resolve_worker_caps s wid
    in \<exists>j. look s (aj_id a) = Some j \<and> aj_payload a = jb_payload j \<and> is_pending (jb_state j) \<and>
      (\<forall>p \<in> set (jb_depends_on j). completed_in (qs_jobs s) p) \<and>
      set (jb_required_capabilities j) \<subseteq> caps \<and>
      (\<forall>k m. look s k = Some m \<and> k \<noteq> aj_id a \<and> is_acquirable caps m \<longrightarrow>
         jb_priority m < jb_priority j \<or> jb_priority m = jb_priority j \<and> jb_seq j < jb_seq m) \<and>
      look (q_state q') (aj_id a) = Some (j\<lparr>jb_state := Leased wid (instant_add (en_now env) d)\<rparr>) \<and>
      (\<forall>k. k \<noteq> aj_id a \<longrightarrow> look (q_state q') k = look s k)"
proof -
  let ?s = "tick (en_now env) (q_state q)"
  note wf = reachable_wf [OF assms(1)] and wfs = tick_wf [OF reachable_wf [OF assms(1)], of "en_now env"]
  obtain j where j: "next_acquirable (resolve_worker_caps ?s wid) ?s = Some (aj_id a)" "look ?s (aj_id a) = Some j"
    "is_acquirable (resolve_worker_caps ?s wid) j" "aj_payload a = jb_payload j"
    and jobs: "qs_jobs (q_state q') =
      modify_entry (aj_id a) (\<lambda>j. j\<lparr>jb_state := Leased wid (instant_add (en_now env) d)\<rparr>) (qs_jobs ?s)"
    by (rule acquired_spec [OF wf assms(2)])
  have p: "is_pending (jb_state j)" "jb_remaining_deps j = 0"
    "set (jb_required_capabilities j) \<subseteq> resolve_worker_caps ?s wid"
    using j(3) by (auto simp: is_acquirable_def caps_satisfy_def list_all_iff)
  have deps: "\<forall>p \<in> set (jb_depends_on j). completed_in (qs_jobs ?s) p"
    using remaining_zero_iff [OF wfs j(2)] p(1,2) by simp
  show ?thesis
    unfolding Let_def
    using j(2,4) p(1,3) deps next_acquirable_best [OF wfs j(1,2)] by (intro exI [of _ j]) (auto simp: jobs)
qed

definition demo_leased :: queue where
  "demo_leased = snd (the (acquire (demo_config 2) (demo_env 4) ''w'' 100 demo_queue))"

lemma demo_acquire: "\<exists>a. acquire (demo_config 2) (demo_env 4) ''w'' 100 demo_queue = Some (Inr (Some a), demo_leased) \<and> aj_id a = 3"
proof -
  have "case acquire (demo_config 2) (demo_env 4) ''w'' 100 demo_queue of Some (Inr (Some a), q') \<Rightarrow> aj_id a = 3 | _ \<Rightarrow> False"
    by code_simp
  then show ?thesis by (auto simp: demo_leased_def split: option.splits sum.splits)
qed

lemma demo_leased_reachable: "reachable (demo_config 2) demo_leased"
  unfolding reachable_def
  using demo_acquire by (intro exI [of _ "demo_ops @ [(demo_env 4, OpAcquire ''w'' 100)]"]) (auto simp: run_ops_append demo_run)

theorem acquire_exact_witness:
  "\<exists>a q'. acquire (demo_config 2) (demo_env 4) ''w'' 100 demo_queue = Some (Inr (Some a), q') \<and> aj_id a = 3 \<and>
     (\<exists>j. look (tick 4 (q_state demo_queue)) 3 = Some j \<and> is_pending (jb_state j) \<and>
       look (q_state q') 3 = Some (j\<lparr>jb_state := Leased ''w'' (instant_add 4 100)\<rparr>))"
proof -
  obtain a where a: "acquire (demo_config 2) (demo_env 4) ''w'' 100 demo_queue = Some (Inr (Some a), demo_leased)" "aj_id a = 3"
    using demo_acquire by blast
  show ?thesis
    using acquire_exact [OF demo_reachable a(1)] a by (auto simp: Let_def demo_env_def)
qed

section \<open>Dependencies never form a cycle\<close>

lemma visit_no_cycle:
  assumes "\<forall>i j. map_of js i = Some j \<longrightarrow> (\<forall>d \<in> set (jb_depends_on j). d < i)"
  shows "\<forall>x \<in> on_stack. i < x \<Longrightarrow> \<exists>v. visit js on_stack visited i = Inr v"
    and "\<forall>x \<in> on_stack. \<forall>i \<in> set is. i < x \<Longrightarrow> \<exists>v. visit_all js on_stack visited is = Inr v"
  using assms
proof (induction js on_stack visited i and js on_stack visited "is" rule: visit_visit_all.induct)
  case (1 js on_stack visited i)
  have "i \<notin> on_stack" using "1.prems"(1) by auto
  show ?case
  proof (cases "i \<in> visited")
    case True
    with \<open>i \<notin> on_stack\<close> show ?thesis by simp
  next
    case False
    show ?thesis
    proof (cases "map_of js i")
      case None
      with \<open>i \<notin> on_stack\<close> False show ?thesis by simp
    next
      case (Some j)
      have "\<forall>x \<in> insert i on_stack. \<forall>d \<in> set (jb_depends_on j). d < x"
      proof (intro ballI)
        fix x d assume x: "x \<in> insert i on_stack" and d: "d \<in> set (jb_depends_on j)"
        have "d < i" using "1.prems"(2) Some d by blast
        then show "d < x" using x "1.prems"(1) by (auto intro: order.strict_trans)
      qed
      then have "\<exists>v. visit_all js (insert i on_stack) visited (jb_depends_on j) = Inr v"
        by (rule "1.IH" [OF \<open>i \<notin> on_stack\<close> False Some _ "1.prems"(2)])
      with \<open>i \<notin> on_stack\<close> False Some show ?thesis by auto
    qed
  qed
next
  case (3 js on_stack visited i "is")
  have "\<exists>v. visit js on_stack visited i = Inr v" by (rule "3.IH"(1) [OF _ "3.prems"(2)]) (use "3.prems"(1) in auto)
  then obtain v where v: "visit js on_stack visited i = Inr v" ..
  have "\<exists>v'. visit_all js on_stack v is = Inr v'" by (rule "3.IH"(2) [OF v _ "3.prems"(2)]) (use "3.prems"(1) in auto)
  with v show ?case by (simp del: visit.simps)
qed simp

text \<open>C37: The depth-first cycle check of \<^verbatim>\<open>validate_dependencies\<close> never reports a cycle in a reachable
  queue: dependencies always point to older jobs. Validation is therefore the per-dependency check
  of duplicates, existence and namespace alone.\<close>

theorem validate_dependencies_acyclic:
  assumes "reachable cfg q"
  shows "check_no_cycle deps (q_state q) = Inr () \<and>
    validate_dependencies deps ns (q_state q) = validate_each {} deps ns (q_state q)"
proof -
  note wf = reachable_wf [OF assms]
  have "\<forall>i j. look (q_state q) i = Some j \<longrightarrow> (\<forall>d \<in> set (jb_depends_on j). d < i)"
    using job_wfD(7) [OF queue_wfD(1) [OF wf]] by blast
  then have "\<exists>v. visit_all (qs_jobs (q_state q)) {} {} deps = Inr v" by (rule visit_no_cycle(2)) simp
  then have "check_no_cycle deps (q_state q) = Inr ()" by (auto simp: check_no_cycle_def)
  then show ?thesis by (simp add: validate_dependencies_def split: sum.split)
qed

theorem validate_dependencies_acyclic_witness:
  "check_no_cycle [2, 3] (q_state demo_queue) = Inr () \<and>
   validate_dependencies [2, 3] ''default'' (q_state demo_queue) = Inr ()"
proof -
  have "validate_each {} [2, 3] ''default'' (q_state demo_queue) = Inr ()" by code_simp
  then show ?thesis
    using validate_dependencies_acyclic [OF demo_reachable, of "[2, 3]" "''default''"] by simp
qed

section \<open>What a cascade collects\<close>

definition follows :: "jobs \<Rightarrow> (job_id \<times> job_id) set" where
  "follows js = {(a, b). \<exists>j. map_of js a = Some j \<and> \<not> is_terminal (jb_state j) \<and> b \<in> set (jb_dependents j)}"

lemma cascade_loop_sound:
  "set order \<subseteq> R \<Longrightarrow> set queue \<subseteq> R \<Longrightarrow> follows js `` R \<subseteq> R \<Longrightarrow> set (cascade_loop js visited order queue) \<subseteq> R"
proof (induction js visited order queue rule: cascade_loop.induct)
  case (2 js visited order i queue)
  consider "i \<in> visited" | "i \<notin> visited" "map_of js i = None"
    | j where "i \<notin> visited" "map_of js i = Some j" "is_terminal (jb_state j)"
    | j where "i \<notin> visited" "map_of js i = Some j" "\<not> is_terminal (jb_state j)"
    by (cases "map_of js i") blast+
  then show ?case
  proof cases
    case 1
    then show ?thesis using "2.IH"(1) "2.prems" by simp
  next
    case c: 2
    then show ?thesis using "2.IH"(2) "2.prems" by simp
  next
    case c: 3
    then show ?thesis using "2.IH"(3) "2.prems" by simp
  next
    case c: 4
    then have "set (jb_dependents j) \<subseteq> R" using "2.prems"(2,3) by (auto simp: follows_def)
    with c show ?thesis using "2.IH"(4) [OF c(1,2,3)] "2.prems" by simp
  qed
qed simp

lemma cascade_loop_complete:
  "set order = {i \<in> visited. alive js i} \<Longrightarrow> follows js `` visited \<subseteq> visited \<union> set queue \<Longrightarrow>
     \<exists>V. visited \<union> set queue \<subseteq> V \<and> set (cascade_loop js visited order queue) = {i \<in> V. alive js i} \<and> follows js `` V \<subseteq> V"
proof (induction js visited order queue rule: cascade_loop.induct)
  case (1 js visited order)
  then show ?case by (intro exI [of _ visited]) simp
next
  case (2 js visited order i queue)
  note inv = "2.prems"
  consider "i \<in> visited" | "i \<notin> visited" "map_of js i = None"
    | j where "i \<notin> visited" "map_of js i = Some j" "is_terminal (jb_state j)"
    | j where "i \<notin> visited" "map_of js i = Some j" "\<not> is_terminal (jb_state j)"
    by (cases "map_of js i") blast+
  then show ?case
  proof cases
    case c: 1
    have eq: "cascade_loop js visited order (i # queue) = cascade_loop js visited order queue" using c by simp
    have "follows js `` visited \<subseteq> visited \<union> set queue" using inv(2) c by auto
    moreover have "visited \<union> set (i # queue) = visited \<union> set queue" using c by auto
    ultimately show ?thesis unfolding eq using "2.IH"(1) [OF c inv(1)] by presburger
  next
    case c: 2
    have eq: "cascade_loop js visited order (i # queue) = cascade_loop js (insert i visited) order queue"
      using c by simp
    have dead: "\<not> alive js i" "follows js `` {i} = {}" using c by (auto simp: alive_def follows_def)
    have "set order = {k \<in> insert i visited. alive js k}" unfolding inv(1) using dead(1) by blast
    moreover have "follows js `` insert i visited \<subseteq> insert i visited \<union> set queue"
      using inv(2) dead(2) by auto
    ultimately show ?thesis unfolding eq using "2.IH"(2) [OF c] by simp
  next
    case c: 3
    have eq: "cascade_loop js visited order (i # queue) = cascade_loop js (insert i visited) order queue"
      using c by simp
    have dead: "\<not> alive js i" "follows js `` {i} = {}" using c by (auto simp: alive_def follows_def)
    have "set order = {k \<in> insert i visited. alive js k}" unfolding inv(1) using dead(1) by blast
    moreover have "follows js `` insert i visited \<subseteq> insert i visited \<union> set queue"
      using inv(2) dead(2) by auto
    ultimately show ?thesis unfolding eq using "2.IH"(3) [OF c] by simp
  next
    case c: 4
    have eq: "cascade_loop js visited order (i # queue) =
        cascade_loop js (insert i visited) (order @ [i]) (queue @ jb_dependents j)" using c by simp
    have al: "alive js i" "follows js `` {i} = set (jb_dependents j)" using c by (auto simp: alive_def follows_def)
    have o: "set (order @ [i]) = {k \<in> insert i visited. alive js k}"
      unfolding set_append inv(1) using al(1) by auto
    have f: "follows js `` insert i visited \<subseteq> insert i visited \<union> set (queue @ jb_dependents j)"
      using inv(2) al(2) by auto
    obtain V where V: "insert i visited \<union> set (queue @ jb_dependents j) \<subseteq> V"
      "set (cascade_loop js (insert i visited) (order @ [i]) (queue @ jb_dependents j)) = {i \<in> V. alive js i}"
      "follows js `` V \<subseteq> V" using "2.IH"(4) [OF c o f] by blast
    from V(1) have "visited \<union> set (i # queue) \<subseteq> V" by auto
    with V(2,3) show ?thesis unfolding eq by blast
  qed
qed

lemma cascade_collect_exact:
  "set (cascade_collect root s) = {k. (root, k) \<in> (follows (qs_jobs s))\<^sup>* \<and> alive (qs_jobs s) k}"
proof
  let ?F = "follows (qs_jobs s)"
  have "set (cascade_loop (qs_jobs s) {} [] [root]) \<subseteq> ?F\<^sup>* `` {root}"
    by (rule cascade_loop_sound) (auto intro: rtrancl.rtrancl_into_rtrancl)
  then show "set (cascade_collect root s) \<subseteq> {k. (root, k) \<in> ?F\<^sup>* \<and> alive (qs_jobs s) k}"
    using cascade_collect_alive(2) by (auto simp: cascade_collect_def)
  obtain V where V: "root \<in> V" "set (cascade_collect root s) = {i \<in> V. alive (qs_jobs s) i}" "?F `` V \<subseteq> V"
    using cascade_loop_complete [of "[]" "{}" "qs_jobs s" "[root]"] by (auto simp: cascade_collect_def)
  have "k \<in> V" if "(root, k) \<in> ?F\<^sup>*" for k
    using that V(1,3) by (induction rule: rtrancl_induct) auto
  then show "{k. (root, k) \<in> ?F\<^sup>* \<and> alive (qs_jobs s) k} \<subseteq> set (cascade_collect root s)"
    using V(2) by auto
qed

text \<open>The reference notion: \<open>b\<close> is live and waits for the live job \<open>a\<close>.\<close>

definition waits_for :: "jobs \<Rightarrow> (job_id \<times> job_id) set" where
  "waits_for js = {(a, b). alive js a \<and> (\<exists>j. map_of js b = Some j \<and> \<not> is_terminal (jb_state j) \<and> a \<in> set (jb_depends_on j))}"

lemma waits_for_follows:
  assumes wf: "queue_wf s"
  shows "(a, b) \<in> waits_for (qs_jobs s) \<longleftrightarrow> (a, b) \<in> follows (qs_jobs s) \<and> alive (qs_jobs s) b"
proof
  assume "(a, b) \<in> waits_for (qs_jobs s)"
  then obtain ja jb where j: "look s a = Some ja" "\<not> is_terminal (jb_state ja)" "look s b = Some jb"
    "\<not> is_terminal (jb_state jb)" "a \<in> set (jb_depends_on jb)" by (auto simp: waits_for_def alive_def)
  have "b \<in> set (jb_dependents ja)" by (rule job_wfD(12) [OF queue_wfD(1) [OF wf j(3)] j(4,5,1,2)])
  then show "(a, b) \<in> follows (qs_jobs s) \<and> alive (qs_jobs s) b" using j by (auto simp: follows_def alive_def)
next
  assume "(a, b) \<in> follows (qs_jobs s) \<and> alive (qs_jobs s) b"
  then obtain ja jb where j: "look s a = Some ja" "\<not> is_terminal (jb_state ja)" "b \<in> set (jb_dependents ja)"
    "look s b = Some jb" "\<not> is_terminal (jb_state jb)" by (auto simp: follows_def alive_def)
  have "a \<in> set (jb_depends_on jb)" by (rule job_wfD(10) [OF queue_wfD(1) [OF wf j(1)] j(3,4)])
  then show "(a, b) \<in> waits_for (qs_jobs s)" using j by (auto simp: waits_for_def alive_def)
qed

lemma follows_alive: "(a, b) \<in> follows js \<Longrightarrow> alive js a"
  by (auto simp: follows_def alive_def)

lemma cascade_collect_waits:
  assumes wf: "queue_wf s"
  shows "set (cascade_collect root s) = {k. (root, k) \<in> (waits_for (qs_jobs s))\<^sup>* \<and> alive (qs_jobs s) k}"
proof -
  let ?F = "follows (qs_jobs s)" and ?W = "waits_for (qs_jobs s)"
  have "(root, k) \<in> ?W\<^sup>*" if "(root, k) \<in> ?F\<^sup>*" "alive (qs_jobs s) k" for k
    using that
  proof (induction rule: rtrancl_induct)
    case (step y z)
    then have "(y, z) \<in> ?W" using waits_for_follows [OF wf] by blast
    with step follows_alive show ?case by (meson rtrancl.rtrancl_into_rtrancl)
  qed simp
  moreover have "?W\<^sup>* \<subseteq> ?F\<^sup>*" using waits_for_follows [OF wf] by (intro rtrancl_mono) auto
  ultimately show ?thesis unfolding cascade_collect_exact by blast
qed

text \<open>C10: Cancellation. In every reachable queue, cancelling a job cancels exactly the live jobs that wait for
  it, directly or through other live jobs, itself included if it is live; every other job is
  untouched, and the reported count is the number of jobs cancelled.\<close>

theorem cancel_exact:
  assumes "reachable cfg q" "cancel cfg env jid reason q = Some (r, q')"
  shows "let s = tick (en_now env) (q_state q);
      hit = {k. (jid, k) \<in> (waits_for (qs_jobs s))\<^sup>* \<and> alive (qs_jobs s) k}
    in (\<forall>k j. k \<in> hit \<and> look s k = Some j \<longrightarrow>
          (\<exists>why. look (q_state q') k = Some (j\<lparr>jb_state := Cancelled why (en_now env)\<rparr>))) \<and>
       (\<forall>k. k \<notin> hit \<longrightarrow> look (q_state q') k = look s k) \<and>
       (en_save env = SaveOk \<longrightarrow> r = Inr (card hit))"
proof -
  let ?s = "tick (en_now env) (q_state q)"
  obtain n s where c: "cascade_cancel cfg jid reason (en_now env) ?s = Some (n, s)"
    and f: "(r, q') = finish env () n q s"
    using assms(2) by (auto simp: cancel_def Option.bind_eq_Some_conv Let_def)
  note wfs = tick_wf [OF reachable_wf [OF assms(1)], of "en_now env"]
  note hit = cascade_collect_waits [OF wfs, of jid, symmetric]
  note C = cancelsD [OF cascade_cancel_spec(2) [OF c]]
  have q': "q_state q' = s" by (rule finish_Pair_state [OF f])
  have "n = card (set (cascade_collect jid ?s))"
    using cascade_cancel_spec(1) [OF c] distinct_card [OF cascade_collect_alive(1)] by metis
  then have "en_save env = SaveOk \<longrightarrow> r = Inr (card (set (cascade_collect jid ?s)))"
    using f by (auto simp: finish_def save_def)
  then show ?thesis unfolding Let_def hit q' using C(2,3) by blast
qed

theorem cancel_exact_witness:
  "\<exists>q'. cancel (demo_config 2) (demo_env 5) 1 ''stop'' demo_queue = Some (Inr 2, q') \<and>
     card {k. (1, k) \<in> (waits_for (qs_jobs (tick 5 (q_state demo_queue))))\<^sup>* \<and> alive (qs_jobs (tick 5 (q_state demo_queue))) k} = 2"
proof -
  have "case cancel (demo_config 2) (demo_env 5) 1 ''stop'' demo_queue of Some (r, q') \<Rightarrow> r = Inr 2 | None \<Rightarrow> False"
    by code_simp
  then obtain q' where c: "cancel (demo_config 2) (demo_env 5) 1 ''stop'' demo_queue = Some (Inr 2, q')"
    by (auto split: option.splits)
  show ?thesis using cancel_exact [OF demo_reachable c] c by (auto simp: Let_def demo_env_def)
qed

section \<open>Leases are exclusive\<close>

definition leased_to :: "queue_state \<Rightarrow> job_id \<Rightarrow> worker_id \<Rightarrow> instant \<Rightarrow> bool" where
  "leased_to s i w e \<longleftrightarrow> (\<exists>j. look s i = Some j \<and> jb_state j = Leased w e)"

text \<open>The operations that may end the lease of worker \<open>w\<close> on job \<open>i\<close>.\<close>

fun touches :: "worker_id \<Rightarrow> job_id \<Rightarrow> op \<Rightarrow> bool" where
  "touches w i (OpHeartbeat w' i' _) \<longleftrightarrow> w' = w \<and> i' = i"
| "touches w i (OpComplete w' i') \<longleftrightarrow> w' = w \<and> i' = i"
| "touches w i (OpFail w' i' _) \<longleftrightarrow> w' = w \<and> i' = i"
| "touches w i (OpCancel i' _) \<longleftrightarrow> i' = i"
| "touches w i (OpDeregisterWorker w') \<longleftrightarrow> w' = w"
| "touches w i _ \<longleftrightarrow> False"

lemma leased_look: "look s' i = look s i \<Longrightarrow> leased_to s i w e \<Longrightarrow> leased_to s' i w e"
  by (simp add: leased_to_def)

lemma tick_leased:
  assumes "queue_wf s" "leased_to s i w e" "now < e"
  shows "leased_to (tick now s) i w e"
  using assms(2,3) unfolding leased_to_def look_tick [OF assms(1)]
  by (auto simp: restate_def tick_state_def)

lemma leased_root:
  assumes wf: "queue_wf s" and l: "leased_to s i w e" and W: "(root, i) \<in> (waits_for (qs_jobs s))\<^sup>*"
  shows "root = i"
  using W
proof (cases rule: rtranclE)
  case (step a)
  then obtain j where a: "alive (qs_jobs s) a" and j: "look s i = Some j" "a \<in> set (jb_depends_on j)"
    by (auto simp: waits_for_def)
  have "is_leased (jb_state j)" using l j(1) by (auto simp: leased_to_def)
  then have "completed_in (qs_jobs s) a" using job_wfD(13) [OF queue_wfD(1) [OF wf j(1)] _ j(2)] by blast
  then show ?thesis using a by (auto simp: alive_def completed_in_def)
qed simp

lemma cascade_cancel_leased:
  assumes wf: "queue_wf s" and l: "leased_to s i w e" and "root \<noteq> i"
    and c: "cascade_cancel cfg root reason now s = Some (n, s')"
  shows "leased_to s' i w e"
proof (rule leased_look [OF _ l])
  have "i \<notin> set (cascade_collect root s)"
    using leased_root [OF wf l] \<open>root \<noteq> i\<close> unfolding cascade_collect_waits [OF wf] by blast
  then show "look s' i = look s i" by (rule cancelsD(2) [OF cascade_cancel_spec(2) [OF c]])
qed

lemma cascade_children_leased:
  "queue_wf s \<Longrightarrow> leased_to s i w e \<Longrightarrow> i \<notin> set cs \<Longrightarrow> cascade_children cfg cs reason now s = Some s' \<Longrightarrow>
     leased_to s' i w e"
proof (induction cs arbitrary: s)
  case (Cons c cs)
  obtain n s1 where c: "cascade_cancel cfg c reason now s = Some (n, s1)"
    and rest: "cascade_children cfg cs reason now s1 = Some s'"
    using Cons.prems(4) by (auto simp: Option.bind_eq_Some_conv)
  have "queue_wf s1" by (rule quiet_wf [OF cancelsD(1) [OF cascade_cancel_spec(2) [OF c]] Cons.prems(1)])
  moreover have "leased_to s1 i w e" by (rule cascade_cancel_leased [OF Cons.prems(1,2) _ c]) (use Cons.prems(3) in auto)
  ultimately show ?case using Cons.IH [OF _ _ _ rest] Cons.prems(3) by simp
qed simp

lemma enqueue_leased:
  assumes wf: "queue_wf (q_state q)" and l: "leased_to (q_state q) i w e" "en_now env < e"
    and res: "enqueue cfg env req q = Some (r, q')"
  shows "leased_to (q_state q') i w e"
proof -
  let ?s = "enqueue_state cfg env req q"
  have ls: "leased_to ?s i w e" unfolding enqueue_state_def
    using tick_leased [OF wf l] by (simp add: leased_to_def)
  note wfs = enqueue_state_wf [OF wf, of cfg env req]
  show ?thesis
    using res
  proof (cases rule: enqueue_cases)
    case (stored priority rem cascade js s1 s2 s3)
    let ?j = "new_job (next_id ?s) (next_seq ?s) priority (request_namespace req) rem (en_now env) req"
    have jobs: "qs_jobs s2 = AList.update (next_id ?s) ?j js"
      using bump_expect_frame [OF stored(6)] audit_push_frame [OF stored(7)] by simp
    obtain j where j: "look ?s i = Some j" "jb_state j = Leased w e" using ls by (auto simp: leased_to_def)
    have ne: "i \<noteq> next_id ?s" using job_wfD(2) [OF queue_wfD(1) [OF wfs j(1)]] by auto
    have "map_of js i = Some (link_job (next_id ?s) (set (rq_depends_on req)) i j)"
      using link_deps_spec [OF stored(5) validate_dependencies_spec(1) [OF stored(2)]] j(1) by simp
    then have l2: "leased_to s2 i w e" using ne j(2) by (simp add: leased_to_def jobs AList.update_conv')
    have "leased_to s3 i w e"
    proof (cases cascade)
      case None
      then show ?thesis using stored(8) l2 by simp
    next
      case (Some reason)
      then obtain n where c: "cascade_cancel cfg (next_id ?s) reason (en_now env) s2 = Some (n, s3)"
        using stored(8) by auto
      have "cascade_collect (next_id ?s) s2 = [next_id ?s]"
        by (rule collect_leaf [of _ _ ?j])
          (simp_all add: jobs AList.update_conv' new_job_live)
      then have "i \<notin> set (cascade_collect (next_id ?s) s2)" using ne by simp
      then show ?thesis by (intro leased_look [OF cancelsD(2) [OF cascade_cancel_spec(2) [OF c]] l2])
    qed
    then show ?thesis using finish_Pair_state [OF stored(9)] by simp
  qed (use ls l in simp_all)
qed

lemma complete_leased:
  assumes wf: "queue_wf (q_state q)" and l: "leased_to (q_state q) i w e" "en_now env < e"
    and res: "complete cfg env w' i' q = Some (r, q')" and ne: "\<not> (w' = w \<and> i' = i)"
  shows "leased_to (q_state q') i w e"
proof -
  let ?s = "tick (en_now env) (q_state q)"
  note ls = tick_leased [OF wf l] and wfs = tick_wf [OF wf, of "en_now env"]
  show ?thesis
    using res
  proof (cases rule: complete_cases)
    case (finished j e' s1 s2)
    have "i' \<noteq> i" using ls finished(1,2) ne by (auto simp: leased_to_def)
    note wj = job_wfD [OF queue_wfD(1) [OF wfs finished(1)]]
    have "i' \<notin> set (jb_dependents j)" using wj(10) [OF _ finished(1)] wj(7) by blast
    note look' = complete_jobs_look [OF wj(8) this]
    have "qs_jobs s2 = complete_jobs (en_now env) i' j (qs_jobs ?s)"
      using bump_expect_frame [OF finished(3)] audit_push_frame [OF finished(4)] by simp
    then have "leased_to s2 i w e" using ls \<open>i' \<noteq> i\<close> by (auto simp: leased_to_def look')
    then show ?thesis using finish_Pair_state [OF finished(5)] by simp
  qed (use ls in simp)
qed

lemma fail_leased:
  assumes wf: "queue_wf (q_state q)" and l: "leased_to (q_state q) i w e" "en_now env < e"
    and res: "fail cfg env w' i' reason q = Some (r, q')" and ne: "\<not> (w' = w \<and> i' = i)"
  shows "leased_to (q_state q') i w e"
proof -
  let ?s = "tick (en_now env) (q_state q)"
  note ls = tick_leased [OF wf l] and wfs = tick_wf [OF wf, of "en_now env"]
  have pre: "leased_to s2 i w e" if "i' \<noteq> i" "bump_expect f n (record_failure i' j ?s) = Some s1"
    "audit_push cfg now kind a b p s1 = Some s2" for f n j s1 now kind a b p s2
    using bump_expect_frame [OF that(2)] audit_push_frame [OF that(3)] ls that(1)
    by (simp add: leased_to_def record_failure_def)
  show ?thesis
    using res
  proof (cases rule: fail_cases)
    case refused
    then show ?thesis using ls by simp
  next
    case (buried j e' nst s1 s2 s3 s4)
    have i': "i' \<noteq> i" using ls buried(1,2) ne by (auto simp: leased_to_def)
    note l2 = pre [OF i' buried(4,5)]
    have wf2: "queue_wf s2" by (rule quiet_wf [OF fail_prefix_quiet [OF buried(4,5)] wfs])
    have live: "live s2 i'" by (rule quiet_prefix_live [OF buried(1) _ buried(4,5)]) (simp add: buried(2))
    have wf3: "queue_wf s3" by (rule terminal_dead_letter_wf [OF wf2 live buried(7)])
    obtain k dropped where k: "look s2 i' = Some k"
      and look3: "\<And>m. look s3 m = (if m \<in> dropped then None else look (set_job_state i' (DeadLetter reason (en_now env)) s2) m)"
      and old: "\<And>m k. m \<in> dropped \<Longrightarrow> m \<noteq> i' \<Longrightarrow> look s2 m = Some k \<Longrightarrow> is_dead (jb_state k)"
      using terminal_dead_letter_look [OF wf2 live buried(7)] by blast
    have "i \<notin> dropped" using old [of i] l2 i' by (auto simp: leased_to_def)
    then have l3: "leased_to s3 i w e" using l2 i' by (simp add: leased_to_def look3 look_set_job_state)
    then obtain m where m: "look s3 i = Some m" "jb_state m = Leased w e" by (auto simp: leased_to_def)
    have "\<not> completed_in (qs_jobs s3) i'" by (simp add: completed_in_def look3 look_set_job_state k)
    then have nd: "i' \<notin> set (jb_depends_on m)" using job_wfD(13) [OF queue_wfD(1) [OF wf3 m(1)], of i'] m(2) by auto
    have "i \<notin> set (jb_dependents k)" if "look s3 i' = Some k" for k
      using job_wfD(10) [OF queue_wfD(1) [OF wf3 that] _ m(1)] nd by blast
    then have "i \<notin> set (case look s3 i' of Some j \<Rightarrow> jb_dependents j | None \<Rightarrow> [])" by (auto split: option.split)
    then have "leased_to s4 i w e" by (rule cascade_children_leased [OF wf3 l3 _ buried(8)])
    then show ?thesis using finish_Pair_state [OF buried(9)] by simp
  next
    case (retry j e' nst s1 s2 s3 s4)
    have i': "i' \<noteq> i" using ls retry(1,2) ne by (auto simp: leased_to_def)
    have "leased_to s4 i w e"
      using pre [OF i' retry(4,5)] i' bump_expect_frame [OF retry(7)] audit_push_frame [OF retry(8)]
      by (simp add: leased_to_def look_set_job_state)
    then show ?thesis using finish_Pair_state [OF retry(9)] by simp
  qed
qed

lemma expire_held_leased:
  "expire_held cfg w' now held s = Some s' \<Longrightarrow> i \<notin> fst ` set held \<Longrightarrow> leased_to s i w e \<Longrightarrow> leased_to s' i w e"
proof (induction held arbitrary: s)
  case (Cons x held)
  obtain k ns where x: "x = (k, ns)" by (cases x)
  obtain s1 where p: "audit_push cfg now EvLeaseExpired (Some k) (Some w') ''worker deregistered''
      (bump inc_lease_expired ns (set_job_state k (Pending (Some w')) s)) = Some s1"
    and rest: "expire_held cfg w' now held s1 = Some s'"
    using Cons.prems(1) by (auto simp: x Option.bind_eq_Some_conv Let_def)
  have "leased_to s1 i w e" using audit_push_frame [OF p] Cons.prems(2,3) x by (auto simp: leased_to_def look_set_job_state)
  then show ?case using Cons.IH [OF rest] Cons.prems(2) by simp
qed simp

lemma deregister_worker_leased:
  assumes wf: "queue_wf (q_state q)" and l: "leased_to (q_state q) i w e" "en_now env < e"
    and res: "deregister_worker cfg env w' q = Some (r, q')" and ne: "w' \<noteq> w"
  shows "leased_to (q_state q') i w e"
proof -
  let ?s = "tick (en_now env) (q_state q)"
  let ?g = "\<lambda>j. case jb_state j of Leased w _ \<Rightarrow> if w = w' then [(jb_id j, jb_namespace j)] else [] | _ \<Rightarrow> []"
  note ls = tick_leased [OF wf l] and wfs = tick_wf [OF wf, of "en_now env"]
  obtain held s1 s2 where held: "held = concat (map (\<lambda>(_, j). ?g j) (qs_jobs ?s))"
    and ex: "expire_held cfg w' (en_now env) held ?s = Some s1"
    and p: "(if map_of (qs_workers s1) w' \<noteq> None
      then audit_push cfg (en_now env) EvWorkerDeregistered None (Some w') []
        (s1\<lparr>qs_workers := AList.delete w' (qs_workers s1)\<rparr>)
      else Some (s1\<lparr>qs_workers := AList.delete w' (qs_workers s1)\<rparr>)) = Some s2"
    and f: "(r, q') = finish env () (length held) q s2" by (rule deregister_worker_cases [OF res])
  have sel: "fst x = jb_id j \<and> (\<exists>e. jb_state j = Leased w' e)" if "x \<in> set (?g j)" for x j
    using that by (cases "jb_state j") (auto split: if_splits)
  have "i \<notin> fst ` set held"
  proof
    assume "i \<in> fst ` set held"
    then obtain x where x: "x \<in> set held" "fst x = i" by blast
    then obtain k j where j: "look ?s k = Some j" "x \<in> set (?g j)" unfolding held in_select [OF wfs] by blast
    have "k = i" using sel [OF j(2)] queue_wfD(2) [OF wfs j(1)] x(2) by simp
    then show False using sel [OF j(2)] j(1) ls ne by (auto simp: leased_to_def)
  qed
  then have "leased_to s1 i w e" using ls by (rule expire_held_leased [OF ex])
  moreover have "qs_jobs s2 = qs_jobs s1" using p audit_push_frame by (fastforce split: if_splits)
  ultimately show ?thesis using finish_Pair_state [OF f] by (simp add: leased_to_def look_set_job_state)
qed

lemma exec_leased:
  assumes wf: "queue_wf (q_state q)" and l: "leased_to (q_state q) i w e" "en_now env < e"
    and res: "exec cfg env op q = Some q'" and ne: "\<not> touches w i op"
  shows "leased_to (q_state q') i w e"
proof -
  let ?s = "tick (en_now env) (q_state q)"
  note ls = tick_leased [OF wf l] and wfs = tick_wf [OF wf, of "en_now env"]
  show ?thesis
  proof (cases op)
    case (OpAcquire w' d)
    then obtain r where a: "acquire cfg env w' d q = Some (r, q')" using res by (auto simp: map_snd_Some)
    show ?thesis
      using wf a
    proof (cases rule: acquire_cases)
      case (leased jid j s1 s2)
      have "jid \<noteq> i" using leased(2,3) ls by (auto simp: leased_to_def is_acquirable_def)
      then have "leased_to s2 i w e"
        using bump_expect_frame [OF leased(4)] audit_push_frame [OF leased(5)] ls by (simp add: leased_to_def look_set_job_state)
      then show ?thesis using finish_Pair_state [OF leased(6)] by simp
    qed (use ls in simp_all)
  next
    case (OpHeartbeat w' i' d)
    then obtain r where h: "heartbeat cfg env w' i' d q = Some (r, q')" using res by (auto simp: map_snd_Some)
    show ?thesis
      using h
    proof (cases rule: heartbeat_cases)
      case (extended j e' s1)
      have "i' \<noteq> i" using extended(1,2) ls ne OpHeartbeat by (auto simp: leased_to_def)
      then have "leased_to s1 i w e" using audit_push_frame [OF extended(3)] ls by (simp add: leased_to_def look_set_job_state)
      then show ?thesis using finish_Pair_state [OF extended(4)] by simp
    qed (use ls in simp)
  next
    case (OpCancel i' reason)
    then obtain n s r where c: "cascade_cancel cfg i' reason (en_now env) ?s = Some (n, s)"
      and f: "(r, q') = finish env () n q s"
      using res by (auto simp: map_snd_Some cancel_def Option.bind_eq_Some_conv Let_def)
    have "leased_to s i w e" by (rule cascade_cancel_leased [OF wfs ls _ c]) (use ne OpCancel in simp)
    then show ?thesis using finish_Pair_state [OF f] by simp
  next
    case (OpPromote i' p)
    then obtain r where p: "promote cfg env i' p q = Some (r, q')" using res by (auto simp: map_snd_Some)
    show ?thesis
      using p
    proof (cases rule: promote_cases)
      case (raised j s1 s2)
      have "leased_to s2 i w e"
        using bump_expect_frame [OF raised(5)] audit_push_frame [OF raised(6)] ls by (auto simp: leased_to_def)
      then show ?thesis using finish_Pair_state [OF raised(7)] by simp
    qed (use l ls in simp_all)
  next
    case (OpRegisterWorker w' cs)
    then obtain s r where p: "audit_push cfg (en_now env) EvWorkerRegistered None (Some w') (''caps='' @ join_caps cs)
        (?s\<lparr>qs_workers := register_worker_entry w' cs (qs_workers ?s)\<rparr>) = Some s"
      and f: "(r, q') = finish env () () q s"
      using res by (auto simp: map_snd_Some register_worker_def Option.bind_eq_Some_conv Let_def)
    have "leased_to s i w e" using audit_push_frame [OF p] ls by (simp add: leased_to_def look_set_job_state)
    then show ?thesis using finish_Pair_state [OF f] by simp
  next
    case (OpRegisterNamespace n c)
    then have "q_state q' = (namespace_mut n c (q_state q))\<lparr>qs_namespaces :=
        modify_entry n (\<lambda>ns. ns\<lparr>ns_config := c\<rparr>) (qs_namespaces (namespace_mut n c (q_state q)))\<rparr>"
      using res by (auto simp: register_namespace_def Let_def)
    then show ?thesis using l(1) by (simp add: leased_to_def)
  next
    case OpObserve
    then show ?thesis using res ls by (auto simp: metrics_def Let_def)
  qed (use res ne in \<open>auto simp: map_snd_Some dest: enqueue_leased [OF wf l] complete_leased [OF wf l]
      fail_leased [OF wf l] deregister_worker_leased [OF wf l]\<close>)
qed


lemma demo_leased_holder: "leased_to (q_state demo_leased) 3 ''w'' 104"
proof -
  have "case look (q_state demo_leased) 3 of Some j \<Rightarrow> jb_state j = Leased ''w'' 104 | None \<Rightarrow> False" by code_simp
  then show ?thesis by (auto simp: leased_to_def split: option.splits)
qed


end
