(* ===== verification/Job_Liveness.thy ===== *)
theory Job_Liveness
  imports Job_Scheduling
begin

text \<open>
  Liveness of the job queue. A live job never waits for a job that can no longer complete, provided
  that every namespace keeps at least one dead letter; hence the oldest live job is always ready,
  and workers that acquire and complete jobs drain the queue.
\<close>

section \<open>No job waits for a dead one\<close>

definition settled :: "jobs \<Rightarrow> job_id \<Rightarrow> bool" where
  "settled js d \<longleftrightarrow> alive js d \<or> completed_in js d"

definition unblocked_but :: "job_id set \<Rightarrow> queue_state \<Rightarrow> bool" where
  "unblocked_but D s \<longleftrightarrow> (\<forall>i j. look s i = Some j \<longrightarrow> \<not> is_terminal (jb_state j) \<longrightarrow>
     (\<forall>d \<in> set (jb_depends_on j). d \<in> D \<or> settled (qs_jobs s) d))"

definition spares :: "queue_state \<Rightarrow> queue_state \<Rightarrow> bool" where
  "spares s s' \<longleftrightarrow> (\<forall>k. alive (qs_jobs s) k \<longrightarrow> alive (qs_jobs s') k)"

lemma unblockedD:
  "unblocked_but D s \<Longrightarrow> look s i = Some j \<Longrightarrow> \<not> is_terminal (jb_state j) \<Longrightarrow> d \<in> set (jb_depends_on j) \<Longrightarrow>
     d \<in> D \<or> settled (qs_jobs s) d"
  unfolding unblocked_but_def by blast

lemma unblockedI:
  "(\<And>i j d. look s i = Some j \<Longrightarrow> \<not> is_terminal (jb_state j) \<Longrightarrow> d \<in> set (jb_depends_on j) \<Longrightarrow>
     d \<in> D \<or> settled (qs_jobs s) d) \<Longrightarrow> unblocked_but D s"
  unfolding unblocked_but_def by blast

lemma quiet_back:
  assumes "quiet s s'" "look s' i = Some j'" "\<not> is_terminal (jb_state j')"
  obtains j where "look s i = Some j" "\<not> is_terminal (jb_state j)" "jb_depends_on j' = jb_depends_on j"
proof -
  obtain j where j: "look s i = Some j" "job_step j j'" by (rule restates_back [OF quietD(3) [OF assms(1)] assms(2)])
  have "\<not> is_terminal (jb_state j)" using job_stepD(8) [OF j(2)] assms(3) by auto
  then show ?thesis using that j(1) job_stepD(4) [OF j(2)] by blast
qed

lemma quiet_unblocked:
  assumes q: "quiet s s'" and ub: "unblocked_but D s"
    and keep: "\<And>i j d. look s' i = Some j \<Longrightarrow> \<not> is_terminal (jb_state j) \<Longrightarrow> d \<in> set (jb_depends_on j) \<Longrightarrow>
      alive (qs_jobs s) d \<Longrightarrow> alive (qs_jobs s') d"
  shows "unblocked_but D s'"
proof (rule unblockedI)
  fix i j' d assume *: "look s' i = Some j'" "\<not> is_terminal (jb_state j')" "d \<in> set (jb_depends_on j')"
  obtain j where j: "look s i = Some j" "\<not> is_terminal (jb_state j)" "jb_depends_on j' = jb_depends_on j"
    by (rule quiet_back [OF q *(1,2)])
  have "d \<in> D \<or> settled (qs_jobs s) d" using unblockedD [OF ub j(1,2)] *(3) j(3) by simp
  then show "d \<in> D \<or> settled (qs_jobs s') d"
    using keep [OF *] restates_completed [OF quietD(3) [OF q]] unfolding settled_def by blast
qed

lemma quiet_spares_unblocked: "quiet s s' \<Longrightarrow> spares s s' \<Longrightarrow> unblocked_but D s \<Longrightarrow> unblocked_but D s'"
  by (erule quiet_unblocked) (auto simp: spares_def)

lemma spares_refl [simp]: "spares s s"
  by (simp add: spares_def)

lemma spares_trans: "spares a b \<Longrightarrow> spares b c \<Longrightarrow> spares a c"
  by (simp add: spares_def)

lemma spares_jobs: "qs_jobs s' = qs_jobs s \<Longrightarrow> spares s s'"
  by (simp add: spares_def)

lemma spares_set: "\<not> is_terminal st \<Longrightarrow> spares s (set_job_state i st s)"
  by (auto simp: spares_def alive_def look_set_job_state)

lemma spares_look:
  assumes "\<And>k j. look s k = Some j \<Longrightarrow> \<not> is_terminal (jb_state j) \<Longrightarrow> \<exists>j'. look s' k = Some j' \<and> \<not> is_terminal (jb_state j')"
  shows "spares s s'"
  using assms unfolding spares_def alive_def by blast

lemma spares_audit: "audit_push cfg now kind i w p s = Some s' \<Longrightarrow> spares s s'"
  using audit_push_frame by (intro spares_jobs) blast

lemma spares_bump_expect: "bump_expect f n s = Some s' \<Longrightarrow> spares s s'"
  using bump_expect_frame by (intro spares_jobs) blast

lemma spares_commit:
  assumes "spares s s0" "bump_expect f n s0 = Some s1" "audit_push cfg now kind i w p s1 = Some s2"
  shows "spares s s2"
  by (rule spares_trans [OF spares_trans [OF assms(1) spares_bump_expect [OF assms(2)]] spares_audit [OF assms(3)]])

lemma tick_state_terminal: "\<not> is_terminal st \<Longrightarrow> \<not> is_terminal (tick_state now st)"
  by (cases st) (simp_all add: tick_state_def)

lemma tick_spares: "queue_wf s \<Longrightarrow> spares s (tick now s)"
  by (rule spares_look) (simp add: look_tick restate_def tick_state_terminal)

lemma tick_unblocked: "queue_wf s \<Longrightarrow> unblocked_but D s \<Longrightarrow> unblocked_but D (tick now s)"
  by (rule quiet_spares_unblocked [OF tick_quiet tick_spares])

lemma cascade_cancel_unblocked:
  assumes wf: "queue_wf s" and ub: "unblocked_but D s" and c: "cascade_cancel cfg root reason now s = Some (n, s')"
  shows "unblocked_but D s'"
proof (rule quiet_unblocked [OF _ ub])
  note C = cancelsD [OF cascade_cancel_spec(2) [OF c]]
  show q: "quiet s s'" by (rule C(1))
  fix i j d assume i: "look s' i = Some j" "\<not> is_terminal (jb_state j)" and d: "d \<in> set (jb_depends_on j)" "alive (qs_jobs s) d"
  obtain j0 where j0: "look s i = Some j0" "\<not> is_terminal (jb_state j0)" "jb_depends_on j = jb_depends_on j0"
    by (rule quiet_back [OF q i])
  then have edge: "(d, i) \<in> waits_for (qs_jobs s)" using d by (auto simp: waits_for_def)
  have "d \<notin> set (cascade_collect root s)"
  proof
    assume "d \<in> set (cascade_collect root s)"
    then have "(root, i) \<in> (waits_for (qs_jobs s))\<^sup>*" using edge unfolding cascade_collect_waits [OF wf] by auto
    then have "i \<in> set (cascade_collect root s)"
      using j0 unfolding cascade_collect_waits [OF wf] by (auto simp: alive_def)
    then show False using C(3) [OF _ j0(1)] i by auto
  qed
  then show "alive (qs_jobs s') d" using C(2) d(2) by (simp add: alive_def)
qed

lemma quiet_dead:
  assumes q: "quiet s s'" and "\<not> alive (qs_jobs s) k"
  shows "\<not> alive (qs_jobs s') k"
proof
  assume "alive (qs_jobs s') k"
  then obtain j' where j': "look s' k = Some j'" "\<not> is_terminal (jb_state j')" by (auto simp: alive_def)
  obtain j where "look s k = Some j" "\<not> is_terminal (jb_state j)" "jb_depends_on j' = jb_depends_on j"
    by (rule quiet_back [OF q j'])
  with assms(2) show False by (simp add: alive_def)
qed

lemma cascade_children_unblocked:
  "queue_wf s \<Longrightarrow> unblocked_but D s \<Longrightarrow> cascade_children cfg cs reason now s = Some s' \<Longrightarrow>
     unblocked_but D s' \<and> (\<forall>c \<in> set cs. \<not> alive (qs_jobs s') c)"
proof (induction cs arbitrary: s)
  case (Cons c cs)
  obtain n s1 where c: "cascade_cancel cfg c reason now s = Some (n, s1)"
    and rest: "cascade_children cfg cs reason now s1 = Some s'"
    using Cons.prems(3) by (auto simp: Option.bind_eq_Some_conv)
  note C = cancelsD [OF cascade_cancel_spec(2) [OF c]]
  have "\<not> alive (qs_jobs s1) c"
  proof (cases "alive (qs_jobs s) c")
    case True
    then obtain j where j: "look s c = Some j" by (auto simp: alive_def)
    have "c \<in> set (cascade_collect c s)" using True by (simp add: cascade_collect_exact)
    then show ?thesis using C(3) [OF _ j] by (auto simp: alive_def)
  next
    case False
    then show ?thesis by (rule quiet_dead [OF C(1)])
  qed
  then have "\<not> alive (qs_jobs s') c" by (rule quiet_dead [OF cascade_children_quiet [OF rest]])
  moreover have "unblocked_but D s' \<and> (\<forall>c \<in> set cs. \<not> alive (qs_jobs s') c)"
    by (rule Cons.IH [OF quiet_wf [OF C(1) Cons.prems(1)] cascade_cancel_unblocked [OF Cons.prems(1,2) c] rest])
  ultimately show ?case by simp
qed simp

section \<open>The operations keep it\<close>

text \<open>A namespace that keeps at least one dead letter: the job that fails for the last time is still
  there when its dependents are cancelled.\<close>

definition keeps_letters :: "queue_state \<Rightarrow> bool" where
  "keeps_letters s \<longleftrightarrow> (\<forall>n c ring. rings s n = Some (c, ring) \<longrightarrow> nc_dead_letter_capacity c \<noteq> 0)"

definition live_queue :: "queue_state \<Rightarrow> bool" where
  "live_queue s \<longleftrightarrow> queue_wf s \<and> keeps_letters s \<and> unblocked_but {} s"

lemma keeps_frame: "frame s s' \<Longrightarrow> keeps_letters s \<Longrightarrow> keeps_letters s'"
  by (simp add: keeps_letters_def frame_def)

lemma quiet_live: "quiet s s' \<Longrightarrow> spares s s' \<Longrightarrow> live_queue s \<Longrightarrow> live_queue s'"
  unfolding live_queue_def using quiet_wf keeps_frame quiet_spares_unblocked quiet_iff_frame by blast

lemma tick_live: "live_queue s \<Longrightarrow> live_queue (tick now s)"
  using quiet_live tick_quiet tick_spares unfolding live_queue_def by blast

lemma acquire_spares:
  assumes wf: "queue_wf (q_state q)" and res: "acquire cfg env wid d q = Some (r, q')"
  shows "spares (q_state q) (q_state q')"
  using wf res
proof (cases rule: acquire_cases)
  case (leased jid j s1 s2)
  have "spares (tick (en_now env) (q_state q)) s2" by (rule spares_commit [OF spares_set leased(4,5)]) simp
  then show ?thesis using spares_trans [OF tick_spares [OF wf]] finish_Pair_state [OF leased(6)] by simp
qed (use tick_spares [OF wf] in simp_all)

lemma heartbeat_spares:
  assumes wf: "queue_wf (q_state q)" and res: "heartbeat cfg env wid jid d q = Some (r, q')"
  shows "spares (q_state q) (q_state q')"
  using res
proof (cases rule: heartbeat_cases)
  case (extended j e s1)
  have "spares (tick (en_now env) (q_state q)) s1" by (rule spares_trans [OF spares_set spares_audit [OF extended(3)]]) simp
  then show ?thesis using spares_trans [OF tick_spares [OF wf]] finish_Pair_state [OF extended(4)] by simp
qed (use tick_spares [OF wf] in simp)

lemma promote_spares:
  assumes wf: "queue_wf (q_state q)" and res: "promote cfg env jid p q = Some (r, q')"
  shows "spares (q_state q) (q_state q')"
  using res
proof (cases rule: promote_cases)
  case (raised j s1 s2)
  let ?s = "tick (en_now env) (q_state q)"
  have "spares ?s (?s\<lparr>qs_jobs := modify_entry jid (\<lambda>j. j\<lparr>jb_priority := p\<rparr>) (qs_jobs ?s)\<rparr>)"
    by (rule spares_look) auto
  then have "spares ?s s2" by (rule spares_commit [OF _ raised(5,6)])
  then show ?thesis using spares_trans [OF tick_spares [OF wf]] finish_Pair_state [OF raised(7)] by simp
qed (use tick_spares [OF wf] in simp_all)

lemma register_worker_spares:
  assumes wf: "queue_wf (q_state q)" and res: "register_worker cfg env wid caps q = Some (r, q')"
  shows "spares (q_state q) (q_state q')"
proof -
  let ?s = "tick (en_now env) (q_state q)"
  obtain s where p: "audit_push cfg (en_now env) EvWorkerRegistered None (Some wid) (''caps='' @ join_caps caps)
      (?s\<lparr>qs_workers := register_worker_entry wid caps (qs_workers ?s)\<rparr>) = Some s"
    and f: "(r, q') = finish env () () q s"
    using res by (auto simp: register_worker_def Option.bind_eq_Some_conv Let_def)
  have "spares ?s s" by (rule spares_jobs) (use audit_push_frame [OF p] in simp)
  then show ?thesis using spares_trans [OF tick_spares [OF wf]] finish_Pair_state [OF f] by simp
qed

lemma expire_held_spares: "expire_held cfg wid now held s = Some s' \<Longrightarrow> spares s s'"
proof (induction held arbitrary: s)
  case (Cons x held)
  obtain i ns where x: "x = (i, ns)" by (cases x)
  let ?s = "bump inc_lease_expired ns (set_job_state i (Pending (Some wid)) s)"
  obtain s1 where p: "audit_push cfg now EvLeaseExpired (Some i) (Some wid) ''worker deregistered'' ?s = Some s1"
    and rest: "expire_held cfg wid now held s1 = Some s'"
    using Cons.prems(1) by (auto simp: x Option.bind_eq_Some_conv Let_def)
  have "spares s ?s" by (rule spares_trans [OF spares_set spares_jobs]) simp_all
  then have "spares s s1" by (rule spares_trans [OF _ spares_audit [OF p]])
  then show ?case using Cons.IH [OF rest] spares_trans by blast
qed simp

lemma deregister_worker_spares:
  assumes wf: "queue_wf (q_state q)" and res: "deregister_worker cfg env wid q = Some (r, q')"
  shows "spares (q_state q) (q_state q')"
  using res
proof (rule deregister_worker_cases)
  fix held s1 s2
  assume e: "expire_held cfg wid (en_now env) held (tick (en_now env) (q_state q)) = Some s1"
    and p: "(if map_of (qs_workers s1) wid \<noteq> None
      then audit_push cfg (en_now env) EvWorkerDeregistered None (Some wid) []
        (s1\<lparr>qs_workers := AList.delete wid (qs_workers s1)\<rparr>)
      else Some (s1\<lparr>qs_workers := AList.delete wid (qs_workers s1)\<rparr>)) = Some s2"
    and f: "(r, q') = finish env () (length held) q s2"
  have "qs_jobs s2 = qs_jobs s1" using p audit_push_frame by (fastforce split: if_splits)
  then have "spares s1 s2" by (rule spares_jobs)
  then show ?thesis
    using spares_trans [OF tick_spares [OF wf] spares_trans [OF expire_held_spares [OF e]]] finish_Pair_state [OF f] by simp
qed

lemma cancel_live:
  assumes live: "live_queue (q_state q)" and res: "cancel cfg env jid reason q = Some (r, q')"
  shows "live_queue (q_state q')"
proof -
  let ?s = "tick (en_now env) (q_state q)"
  obtain n s where c: "cascade_cancel cfg jid reason (en_now env) ?s = Some (n, s)"
    and f: "(r, q') = finish env () n q s"
    using res by (auto simp: cancel_def Option.bind_eq_Some_conv Let_def)
  have ls: "live_queue ?s" by (rule tick_live [OF live])
  have "quiet ?s s" by (rule cancelsD(1) [OF cascade_cancel_spec(2) [OF c]])
  then have "live_queue s"
    using ls quiet_wf keeps_frame quiet_iff_frame cascade_cancel_unblocked [OF _ _ c] unfolding live_queue_def by blast
  then show ?thesis using finish_Pair_state [OF f] by simp
qed

lemma complete_live:
  assumes live: "live_queue (q_state q)" and res: "complete cfg env wid jid q = Some (r, q')"
  shows "live_queue (q_state q')"
proof -
  let ?s = "tick (en_now env) (q_state q)"
  have ls: "live_queue ?s" by (rule tick_live [OF live])
  then have wfs: "queue_wf ?s" and ub: "unblocked_but {} ?s" and kl: "keeps_letters ?s" by (simp_all add: live_queue_def)
  show ?thesis
    using res
  proof (cases rule: complete_cases)
    case (finished j e s1 s2)
    note wj = job_wfD [OF queue_wfD(1) [OF wfs finished(1)]]
    have "jid \<notin> set (jb_dependents j)" using wj(10) [OF _ finished(1)] wj(7) by blast
    note look' = complete_jobs_look [OF wj(8) this, of "en_now env" "qs_jobs ?s"]
    have jobs: "qs_jobs s2 = complete_jobs (en_now env) jid j (qs_jobs ?s)"
      using bump_expect_frame [OF finished(3)] audit_push_frame [OF finished(4)] by simp
    have "unblocked_but {} s2"
    proof (rule unblockedI)
      fix i k d assume *: "look s2 i = Some k" "\<not> is_terminal (jb_state k)" "d \<in> set (jb_depends_on k)"
      obtain k0 where k0: "look ?s i = Some k0" "\<not> is_terminal (jb_state k0)" "jb_depends_on k = jb_depends_on k0"
        using *(1,2) unfolding jobs look' by (auto split: if_splits)
      have "settled (qs_jobs ?s) d" using unblockedD [OF ub k0(1,2)] *(3) k0(3) by simp
      then have "settled (qs_jobs s2) d"
        using finished(1,2) unfolding settled_def alive_def completed_in_def jobs look' by (auto split: option.splits)
      then show "d \<in> {} \<or> settled (qs_jobs s2) d" by simp
    qed
    moreover have "keeps_letters s2"
      using keeps_frame [OF frame_trans [OF frame_jobs_update(1) frame_trans [OF bump_expect_frame [OF finished(3), THEN conjunct1]
        audit_push_frame [OF finished(4), THEN conjunct1]]] kl] .
    moreover have "queue_wf s2" using complete_wf [OF _ res] live finish_Pair_state [OF finished(5)] by (simp add: live_queue_def)
    ultimately show ?thesis using finish_Pair_state [OF finished(5)] by (simp add: live_queue_def)
  qed (use ls in simp)
qed

text \<open>What \<^const>\<open>enqueue\<close> leaves behind when it stores a job.\<close>

lemma enqueue_stored_look:
  fixes cfg env req q
  defines "s \<equiv> enqueue_state cfg env req q"
  defines "j \<equiv> \<lambda>priority rem. new_job (next_id s) (next_seq s) priority (request_namespace req) rem (en_now env) req"
  assumes val: "validate_dependencies (rq_depends_on req) ns s = Inr ()"
    and link: "link_deps (next_id s) (rq_depends_on req) 0 None (qs_jobs s) = Some (rem, cascade, js)"
    and s1: "bump_expect f n (s\<lparr>next_id := next_id s + 1, next_seq := next_seq s + 1,
      qs_jobs := AList.update (next_id s) (j priority rem) js\<rparr>) = Some s1"
    and s2: "audit_push cfg (en_now env) EvEnqueued (Some (next_id s)) None p s1 = Some s2"
    and s3: "(case cascade of None \<Rightarrow> Some s2
        | Some reason \<Rightarrow> map_option snd (cascade_cancel cfg (next_id s) reason (en_now env) s2)) = Some s3"
  shows "\<exists>st. look s3 (next_id s) = Some ((j priority rem)\<lparr>jb_state := st\<rparr>) \<and>
      (if cascade = None then st = jb_state (j priority rem) else (\<exists>why. st = Cancelled why (en_now env))) \<and>
      (\<forall>k. k \<noteq> next_id s \<longrightarrow> look s3 k = map_option (link_job (next_id s) (set (rq_depends_on req)) k) (look s k)) \<and>
      rings s3 = rings s"
proof -
  note L = link_deps_spec [OF link validate_dependencies_spec(1) [OF val]]
  have jobs: "qs_jobs s2 = AList.update (next_id s) (j priority rem) js"
    using bump_expect_frame [OF s1] audit_push_frame [OF s2] by simp
  have "frame (s\<lparr>next_id := next_id s + 1, next_seq := next_seq s + 1,
      qs_jobs := AList.update (next_id s) (j priority rem) js\<rparr>) s2"
    by (rule frame_trans [OF bump_expect_frame [OF s1, THEN conjunct1] audit_push_frame [OF s2, THEN conjunct1]])
  then have r2: "rings s2 = rings s" unfolding frame_def rings_def by simp
  have look2: "look s2 k = (if k = next_id s then Some (j priority rem)
      else map_option (link_job (next_id s) (set (rq_depends_on req)) k) (look s k))" for k
    using L by (simp add: jobs AList.update_conv')
  show ?thesis
  proof (cases cascade)
    case None
    then have "s3 = s2" using s3 by simp
    then show ?thesis using None r2 by (intro exI [of _ "jb_state (j priority rem)"]) (simp add: look2)
  next
    case (Some reason)
    then obtain m where c: "cascade_cancel cfg (next_id s) reason (en_now env) s2 = Some (m, s3)" using s3 by auto
    note C = cancelsD [OF cascade_cancel_spec(2) [OF c]]
    have leaf: "cascade_collect (next_id s) s2 = [next_id s]"
      by (rule collect_leaf [of _ _ "j priority rem"]) (simp_all add: look2 j_def new_job_live)
    obtain why where why: "look s3 (next_id s) = Some ((j priority rem)\<lparr>jb_state := Cancelled why (en_now env)\<rparr>)"
      using C(3) [of "next_id s" "j priority rem"] by (auto simp: leaf look2)
    have "look s3 k = map_option (link_job (next_id s) (set (rq_depends_on req)) k) (look s k)" if "k \<noteq> next_id s" for k
      using C(2) [of k] that by (simp add: leaf look2)
    moreover have "rings s3 = rings s" using quietD(5) [OF C(1)] r2 by simp
    ultimately show ?thesis using why Some by (intro exI [of _ "Cancelled why (en_now env)"]) simp
  qed
qed

definition keeps_config :: "config \<Rightarrow> bool" where
  "keeps_config cfg \<longleftrightarrow> cf_dead_letter_capacity cfg \<noteq> 0 \<and>
     list_all (\<lambda>(_, c). nc_dead_letter_capacity c \<noteq> 0) (cf_namespace_configs cfg)"

lemma keeps_config_of: "keeps_config cfg \<Longrightarrow> nc_dead_letter_capacity (namespace_config_of cfg n) \<noteq> 0"
  by (auto simp: keeps_config_def namespace_config_of_def list_all_iff split: option.split dest: map_of_SomeD)

lemma namespace_mut_keeps:
  "nc_dead_letter_capacity c \<noteq> 0 \<Longrightarrow> keeps_letters s \<Longrightarrow> keeps_letters (namespace_mut n c s)"
  by (auto simp: keeps_letters_def namespace_mut_rings split: if_splits)

lemma enqueue_state_live:
  assumes "keeps_config cfg" "live_queue (q_state q)"
  shows "live_queue (enqueue_state cfg env req q)"
proof -
  have t: "live_queue (tick (en_now env) (q_state q))" by (rule tick_live [OF assms(2)])
  then show ?thesis
    unfolding live_queue_def enqueue_state_def
    using namespace_mut_wf namespace_mut_keeps [OF keeps_config_of [OF assms(1)]] by (simp add: unblocked_but_def)
qed

lemma enqueue_live:
  assumes cfg: "keeps_config cfg" and live: "live_queue (q_state q)" and res: "enqueue cfg env req q = Some (r, q')"
  shows "live_queue (q_state q')"
proof -
  let ?s = "enqueue_state cfg env req q"
  have ls: "live_queue ?s" by (rule enqueue_state_live [OF cfg live])
  then have wfs: "queue_wf ?s" and ub: "unblocked_but {} ?s" and kl: "keeps_letters ?s" by (simp_all add: live_queue_def)
  show ?thesis
    using res
  proof (cases rule: enqueue_cases)
    case (stored priority rem cascade js s1 s2 s3)
    let ?j = "new_job (next_id ?s) (next_seq ?s) priority (request_namespace req) rem (en_now env) req"
    obtain st where new: "look s3 (next_id ?s) = Some (?j\<lparr>jb_state := st\<rparr>)"
      and st: "if cascade = None then st = jb_state ?j else (\<exists>why. st = Cancelled why (en_now env))"
      and old: "\<forall>k. k \<noteq> next_id ?s \<longrightarrow> look s3 k = map_option (link_job (next_id ?s) (set (rq_depends_on req)) k) (look ?s k)"
      and rings: "rings s3 = rings ?s"
      using enqueue_stored_look [OF stored(2,5,6,7,8)] by blast
    have keep: "settled (qs_jobs s3) d" if d: "settled (qs_jobs ?s) d" for d
    proof -
      obtain k where k: "look ?s d = Some k" using d by (auto simp: settled_def alive_def completed_in_def split: option.splits)
      then have "d \<noteq> next_id ?s" using job_wfD(2) [OF queue_wfD(1) [OF wfs k]] by auto
      then show ?thesis using old d k by (simp add: settled_def alive_def completed_in_def)
    qed
    have "unblocked_but {} s3"
    proof (rule unblockedI)
      fix i k d assume *: "look s3 i = Some k" "\<not> is_terminal (jb_state k)" "d \<in> set (jb_depends_on k)"
      have "settled (qs_jobs ?s) d"
      proof (cases "i = next_id ?s")
        case True
        then have "k = ?j\<lparr>jb_state := st\<rparr>" using *(1) new by simp
        then have "cascade = None" "d \<in> set (rq_depends_on req)" using *(2,3) st by (auto split: if_splits)
        then show ?thesis
          using link_deps_spec [OF stored(5) validate_dependencies_spec(1) [OF stored(2)]] unfolding settled_def by blast
      next
        case False
        then obtain k0 where k0: "look ?s i = Some k0" "k = link_job (next_id ?s) (set (rq_depends_on req)) i k0"
          using *(1) old by auto
        then have "\<not> is_terminal (jb_state k0)" "d \<in> set (jb_depends_on k0)" using *(2,3) by (auto simp: link_job_def split: if_splits)
        then show ?thesis using unblockedD [OF ub k0(1)] by blast
      qed
      then show "d \<in> {} \<or> settled (qs_jobs s3) d" using keep by blast
    qed
    moreover have "keeps_letters s3" using kl rings by (simp add: keeps_letters_def)
    moreover have "queue_wf s3" using enqueue_wf [OF _ res] live finish_Pair_state [OF stored(9)] by (simp add: live_queue_def)
    ultimately show ?thesis using finish_Pair_state [OF stored(9)] by (simp add: live_queue_def)
  qed (use ls live in simp_all)
qed

lemma settled_not_dead:
  assumes "settled js d"
  shows "\<exists>j. map_of js d = Some j \<and> \<not> is_dead (jb_state j)"
proof -
  obtain j where j: "map_of js d = Some j" "\<not> is_terminal (jb_state j) \<or> is_completed (jb_state j)"
    using assms by (auto simp: settled_def alive_def completed_in_def split: option.splits)
  then have "\<not> is_dead (jb_state j)" by (cases "jb_state j") simp_all
  with j(1) show ?thesis by blast
qed

lemma fail_live:
  assumes live: "live_queue (q_state q)" and res: "fail cfg env wid jid reason q = Some (r, q')"
  shows "live_queue (q_state q')"
proof -
  let ?s = "tick (en_now env) (q_state q)"
  have ls: "live_queue ?s" by (rule tick_live [OF live])
  have pre: "live_queue s2" if "bump_expect f n (record_failure jid j ?s) = Some s1"
    "audit_push cfg now kind a b p s1 = Some s2" for f n j s1 now kind a b p s2
  proof (rule quiet_live [OF fail_prefix_quiet [OF that] _ ls])
    have "spares ?s (record_failure jid j ?s)" by (rule spares_look) (auto simp: record_failure_def)
    then show "spares ?s s2" by (rule spares_commit [OF _ that])
  qed
  show ?thesis
    using res
  proof (cases rule: fail_cases)
    case refused
    then show ?thesis using ls by simp
  next
    case (retry j e nst s1 s2 s3 s4)
    have "live s2 jid" by (rule quiet_prefix_live [OF retry(1) _ retry(4,5)]) (simp add: retry(2))
    then have "quiet s2 (set_job_state jid (RetryPending (retry_at cfg env j)) s2)" by (rule quiet_set_job_state) simp_all
    then have q4: "quiet s2 s4" by (rule quiet_commit [OF _ retry(7,8)])
    have "spares s2 s4" by (rule spares_commit [OF spares_set retry(7,8)]) simp
    with q4 have "live_queue s4" by (rule quiet_live) (rule pre [OF retry(4,5)])
    then show ?thesis using finish_Pair_state [OF retry(9)] by simp
  next
    case (buried j e nst s1 s2 s3 s4)
    have l2: "live_queue s2" by (rule pre [OF buried(4,5)])
    then have wf2: "queue_wf s2" and ub2: "unblocked_but {} s2" and kl2: "keeps_letters s2" by (simp_all add: live_queue_def)
    have live2: "live s2 jid" by (rule quiet_prefix_live [OF buried(1) _ buried(4,5)]) (simp add: buried(2))
    have wf3: "queue_wf s3" by (rule terminal_dead_letter_wf [OF wf2 live2 buried(7)])
    obtain k c ring dropped where k: "look s2 jid = Some k" and c: "rings s2 (jb_namespace k) = Some (c, ring)"
      and look3: "\<And>m. look s3 m = (if m \<in> dropped then None else look (set_job_state jid (DeadLetter reason (en_now env)) s2) m)"
      and old: "\<And>m x. m \<in> dropped \<Longrightarrow> m \<noteq> jid \<Longrightarrow> look s2 m = Some x \<Longrightarrow> is_dead (jb_state x)"
      and cap: "nc_dead_letter_capacity c \<noteq> 0 \<longrightarrow> jid \<notin> dropped"
      and rings3: "\<And>n. map_option fst (rings s3 n) = map_option fst (rings s2 n)"
      using terminal_dead_letter_look [OF wf2 live2 buried(7)] by blast
    have jid3: "look s3 jid = Some (k\<lparr>jb_state := DeadLetter reason (en_now env)\<rparr>)"
      using cap kl2 c unfolding keeps_letters_def by (auto simp: look3 look_set_job_state k)
    have settle: "settled (qs_jobs s3) d" if "settled (qs_jobs s2) d" "d \<noteq> jid" for d
    proof -
      have "d \<notin> dropped" using old [of d] settled_not_dead [OF that(1)] that(2) by blast
      then show ?thesis using that by (simp add: settled_def alive_def completed_in_def look3 look_set_job_state)
    qed
    have prior: "look s2 i = Some m" if "look s3 i = Some m" "\<not> is_terminal (jb_state m)" for i m
      using that by (auto simp: look3 look_set_job_state split: if_splits)
    have "unblocked_but {jid} s3"
    proof (rule unblockedI)
      fix i m d assume *: "look s3 i = Some m" "\<not> is_terminal (jb_state m)" "d \<in> set (jb_depends_on m)"
      have "settled (qs_jobs s2) d" using unblockedD [OF ub2 prior [OF *(1,2)] *(2,3)] by simp
      then show "d \<in> {jid} \<or> settled (qs_jobs s3) d" using settle by blast
    qed
    then have ub4: "unblocked_but {jid} s4" "\<forall>c \<in> set (jb_dependents k). \<not> alive (qs_jobs s4) c"
      using cascade_children_unblocked [OF wf3 _ buried(8)] jid3 by auto
    note q4 = cascade_children_quiet [OF buried(8)]
    have "unblocked_but {} s4"
    proof (rule unblockedI)
      fix i m d assume *: "look s4 i = Some m" "\<not> is_terminal (jb_state m)" "d \<in> set (jb_depends_on m)"
      obtain m3 where m3: "look s3 i = Some m3" "\<not> is_terminal (jb_state m3)" "jb_depends_on m = jb_depends_on m3"
        by (rule quiet_back [OF q4 *(1,2)])
      have "d \<noteq> jid"
      proof
        assume "d = jid"
        then have "jid \<in> set (jb_depends_on m3)" using *(3) m3(3) by simp
        moreover have "\<not> is_terminal (jb_state k)" using live2 k by (simp add: live_def)
        ultimately have "i \<in> set (jb_dependents k)"
          using job_wfD(12) [OF queue_wfD(1) [OF wf2 prior [OF m3(1,2)]] m3(2) _ k] by blast
        then show False using ub4(2) * by (auto simp: alive_def)
      qed
      then show "d \<in> {} \<or> settled (qs_jobs s4) d" using unblockedD [OF ub4(1) *] by simp
    qed
    moreover have "keeps_letters s3"
    proof -
      have "nc_dead_letter_capacity c' \<noteq> 0" if r: "rings s3 n = Some (c', r')" for n c' r'
      proof -
        obtain b where "rings s2 n = Some (c', b)" using rings3 [of n] r by (cases "rings s2 n") auto
        then show ?thesis using kl2 unfolding keeps_letters_def by blast
      qed
      then show ?thesis unfolding keeps_letters_def by blast
    qed
    then have "keeps_letters s4" using keeps_frame q4 quiet_iff_frame by blast
    moreover have "queue_wf s4" by (rule quiet_wf [OF q4 wf3])
    ultimately show ?thesis using finish_Pair_state [OF buried(9)] by (simp add: live_queue_def)
  qed
qed

text \<open>The clients' part of the bargain: no namespace is configured to keep no dead letters.\<close>

fun keeps_op :: "op \<Rightarrow> bool" where
  "keeps_op (OpRegisterNamespace _ c) \<longleftrightarrow> nc_dead_letter_capacity c \<noteq> 0"
| "keeps_op _ \<longleftrightarrow> True"

lemma register_namespace_live:
  assumes cap: "nc_dead_letter_capacity c \<noteq> 0" and live: "live_queue (q_state q)"
    and res: "register_namespace env n c q = Some (r, q')"
  shows "live_queue (q_state q')"
proof -
  let ?s = "namespace_mut n c (q_state q)"
  let ?s' = "?s\<lparr>qs_namespaces := modify_entry n (\<lambda>ns. ns\<lparr>ns_config := c\<rparr>) (qs_namespaces ?s)\<rparr>"
  have f: "(r, q') = finish env () () q ?s'" using res by (simp add: register_namespace_def Let_def)
  have "keeps_letters ?s" using namespace_mut_keeps [OF cap] live by (simp add: live_queue_def)
  then have "keeps_letters ?s'"
    unfolding keeps_letters_def using cap by (auto simp: rings_def split: if_splits)
  moreover have "unblocked_but {} ?s'" using live by (simp add: live_queue_def unblocked_but_def)
  moreover have "queue_wf ?s'"
    using register_namespace_wf [OF _ res] live finish_Pair_state [OF f] by (simp add: live_queue_def)
  ultimately show ?thesis using finish_Pair_state [OF f] by (simp add: live_queue_def)
qed

lemmas spares_ops = acquire_spares heartbeat_spares promote_spares register_worker_spares deregister_worker_spares

lemma exec_live:
  assumes cfg: "keeps_config cfg" and live: "live_queue (q_state q)"
    and op: "keeps_op op" and res: "exec cfg env op q = Some q'"
  shows "live_queue (q_state q')"
proof -
  have wf: "queue_wf (q_state q)" using live by (simp add: live_queue_def)
  have quiet: "live_queue (q_state q')" if "quiet (q_state q) (q_state q')" "spares (q_state q) (q_state q')"
    by (rule quiet_live [OF that live])
  show ?thesis
  proof (cases op)
    case OpObserve
    then show ?thesis using res tick_live [OF live] by (auto simp: metrics_def Let_def)
  next
    case (OpRegisterNamespace n c)
    then obtain r where r: "register_namespace env n c q = Some (r, q')" using res by (auto simp: map_snd_Some)
    show ?thesis by (rule register_namespace_live [OF _ live r]) (use op OpRegisterNamespace in simp)
  qed (use res in \<open>auto simp: map_snd_Some intro: quiet dest: enqueue_live [OF cfg live] complete_live [OF live]
      fail_live [OF live] cancel_live [OF live] quiet_ops [OF wf] spares_ops [OF wf]\<close>)
qed

lemma fresh_queue_live: "live_queue (q_state fresh_queue)"
  unfolding live_queue_def using fresh_queue_wf
  by (simp add: keeps_letters_def unblocked_but_def fresh_queue_def state_empty_def rings_def)

lemma run_ops_live:
  "keeps_config cfg \<Longrightarrow> live_queue (q_state q) \<Longrightarrow> \<forall>(_, op) \<in> set ops. keeps_op op \<Longrightarrow> run_ops cfg ops q = Some q' \<Longrightarrow>
     live_queue (q_state q')"
proof (induction ops arbitrary: q)
  case (Cons x ops)
  obtain env op where x: "x = (env, op)" by (cases x)
  obtain q1 where q1: "exec cfg env op q = Some q1" "run_ops cfg ops q1 = Some q'"
    using Cons.prems(4) by (auto simp: x Option.bind_eq_Some_conv)
  have "live_queue (q_state q1)" by (rule exec_live [OF Cons.prems(1,2) _ q1(1)]) (use Cons.prems(3) x in simp)
  then show ?case using Cons.IH [OF Cons.prems(1) _ _ q1(2)] Cons.prems(3) by simp
qed simp

section \<open>No deadlock\<close>

lemma oldest_ready:
  assumes live: "live_queue s" and a: "alive (qs_jobs s) i"
  shows "\<exists>k j. look s k = Some j \<and> \<not> is_terminal (jb_state j) \<and> jb_remaining_deps j = 0"
  using a
proof (induction i rule: less_induct)
  case (less i)
  obtain j where j: "look s i = Some j" "\<not> is_terminal (jb_state j)" using less.prems by (auto simp: alive_def)
  have wf: "queue_wf s" and ub: "unblocked_but {} s" using live by (simp_all add: live_queue_def)
  show ?case
  proof (cases "\<exists>d \<in> set (jb_depends_on j). alive (qs_jobs s) d")
    case True
    then obtain d where d: "d \<in> set (jb_depends_on j)" "alive (qs_jobs s) d" by blast
    have "d < i" by (rule job_wfD(7) [OF queue_wfD(1) [OF wf j(1)] d(1)])
    then show ?thesis using less.IH d(2) by blast
  next
    case False
    then have "\<forall>d \<in> set (jb_depends_on j). completed_in (qs_jobs s) d"
      using unblockedD [OF ub j] unfolding settled_def by blast
    then have "jb_remaining_deps j = 0" using remaining_zero_iff [OF wf j] by simp
    with j show ?thesis by blast
  qed
qed

section \<open>Workers drain the queue\<close>

text \<open>\<open>n\<close> rounds of a worker that acquires a job and completes it.\<close>

fun drain :: "config \<Rightarrow> env \<Rightarrow> worker_id \<Rightarrow> nat \<Rightarrow> nat \<Rightarrow> queue \<Rightarrow> queue option" where
  "drain cfg env w d 0 q = Some q"
| "drain cfg env w d (Suc n) q =
     (case acquire cfg env w d q of
        Some (Inr (Some a), q1) \<Rightarrow>
          (case complete cfg env w (aj_id a) q1 of
             Some (Inr _, q2) \<Rightarrow> drain cfg env w d n q2
           | _ \<Rightarrow> None)
      | _ \<Rightarrow> None)"

fun due :: "instant \<Rightarrow> job_state \<Rightarrow> bool" where
  "due now (Scheduled t) \<longleftrightarrow> t \<le> now"
| "due now (RetryPending t) \<longleftrightarrow> t \<le> now"
| "due now (Leased _ e) \<longleftrightarrow> e \<le> now"
| "due now _ \<longleftrightarrow> True"

definition workable :: "instant \<Rightarrow> worker_id \<Rightarrow> queue_state \<Rightarrow> bool" where
  "workable now w s \<longleftrightarrow> (\<forall>i j. look s i = Some j \<longrightarrow> \<not> is_terminal (jb_state j) \<longrightarrow>
     due now (jb_state j) \<and> set (jb_required_capabilities j) \<subseteq> resolve_worker_caps s w)"

lemma fold_set_fields [simp]:
  "qs_workers (fold (\<lambda>i. set_job_state i st) ids s) = qs_workers s"
  "qs_audit (fold (\<lambda>i. set_job_state i st) ids s) = qs_audit s"
  by (induction ids arbitrary: s) simp_all

lemma fold_expire_fields [simp]:
  "qs_workers (fold (\<lambda>(i, w, ns) s. bump inc_lease_expired ns (set_job_state i (Pending (Some w)) s)) xs s) = qs_workers s"
  "qs_audit (fold (\<lambda>(i, w, ns) s. bump inc_lease_expired ns (set_job_state i (Pending (Some w)) s)) xs s) = qs_audit s"
  by (induction xs arbitrary: s) (auto simp: case_prod_unfold)

lemma tick_fields [simp]: "qs_workers (tick now s) = qs_workers s" "qs_audit (tick now s) = qs_audit s"
  by (simp_all add: tick_def expire_leases_def promote_retries_def promote_scheduled_def Let_def)

lemma audit_push_Some:
  assumes "next_event_id (qs_audit s) \<noteq> u64_max"
  obtains s' where "audit_push cfg now kind i w p s = Some s'" "qs_workers s' = qs_workers s"
    "next_event_id (qs_audit s') = next_event_id (qs_audit s) + 1"
  using assms by (simp add: audit_push_def push_with_def Let_def)

lemma due_pending: "due now st \<Longrightarrow> \<not> is_terminal st \<Longrightarrow> is_pending (tick_state now st)"
  by (cases st) (simp_all add: tick_state_def)

lemma look_tick_Some:
  assumes "queue_wf s" "look (tick now s) i = Some j"
  obtains j0 where "look s i = Some j0" "j = restate (tick_state now) j0"
  using assms look_tick [OF assms(1)] by auto

lemma terminal_tick: "is_terminal (tick_state now st) \<longleftrightarrow> is_terminal st"
  by (cases st) (simp_all add: tick_state_def)

lemma workable_tick:
  assumes wf: "queue_wf s" and w: "workable now wid s" and j: "look (tick now s) i = Some j" "\<not> is_terminal (jb_state j)"
  shows "is_pending (jb_state j)" "set (jb_required_capabilities j) \<subseteq> resolve_worker_caps (tick now s) wid"
proof -
  obtain j0 where j0: "look s i = Some j0" "j = restate (tick_state now) j0" by (rule look_tick_Some [OF wf j(1)])
  have nt: "\<not> is_terminal (jb_state j0)" using j(2) by (simp add: j0(2) restate_def terminal_tick)
  then have "due now (jb_state j0) \<and> set (jb_required_capabilities j0) \<subseteq> resolve_worker_caps s wid"
    using w j0(1) unfolding workable_def by blast
  then show "is_pending (jb_state j)" "set (jb_required_capabilities j) \<subseteq> resolve_worker_caps (tick now s) wid"
    using due_pending [OF _ nt] by (simp_all add: j0(2) restate_def resolve_worker_caps_def)
qed

lemma acquire_progress:
  assumes live: "live_queue (q_state q)" and a: "alive (qs_jobs (q_state q)) i"
    and w: "workable (en_now env) wid (q_state q)" and save: "en_save env = SaveOk"
    and known: "cf_require_worker_registration cfg \<longrightarrow> registry_contains wid (qs_workers (q_state q))"
    and aud: "next_event_id (qs_audit (q_state q)) \<noteq> u64_max"
  shows "\<exists>a q'. acquire cfg env wid d q = Some (Inr (Some a), q') \<and> qs_workers (q_state q') = qs_workers (q_state q) \<and>
    next_event_id (qs_audit (q_state q')) = next_event_id (qs_audit (q_state q)) + 1"
proof -
  let ?s = "tick (en_now env) (q_state q)" and ?caps = "resolve_worker_caps (tick (en_now env) (q_state q)) wid"
  have wf: "queue_wf (q_state q)" using live by (simp add: live_queue_def)
  note wfs = tick_wf [OF wf, of "en_now env"]
  have "alive (qs_jobs ?s) i" using tick_spares [OF wf] a by (simp add: spares_def)
  then obtain k j where j: "look ?s k = Some j" "\<not> is_terminal (jb_state j)" "jb_remaining_deps j = 0"
    using oldest_ready [OF tick_live [OF live]] by blast
  have "is_acquirable ?caps j"
    using workable_tick [OF wf w j(1,2)] j(3) by (auto simp: is_acquirable_def caps_satisfy_def list_all_iff)
  then obtain jid where n: "next_acquirable ?caps ?s = Some jid"
    using next_acquirable_None [OF wfs _ j(1)] by (cases "next_acquirable ?caps ?s") auto
  obtain j1 where j1: "look ?s jid = Some j1" using next_acquirable_look [OF wfs n] by metis
  let ?s1 = "set_job_state jid (Leased wid (instant_add (en_now env) d)) ?s"
  let ?s2 = "bump (\<lambda>c. c\<lparr>acquired_total := acquired_total c + 1\<rparr>) (jb_namespace j1) ?s1"
  have b: "bump_expect (\<lambda>c. c\<lparr>acquired_total := acquired_total c + 1\<rparr>) (jb_namespace j1) ?s1 = Some ?s2"
    using queue_wfD(3) [OF wfs j1] by (simp add: bump_expect_def)
  obtain s3 where s3: "audit_push cfg (en_now env) EvAcquired (Some jid) (Some wid)
      (''attempt='' @ dec_nat (unat (jb_failures j1 + 1))) ?s2 = Some s3"
    "qs_workers s3 = qs_workers ?s2" "next_event_id (qs_audit s3) = next_event_id (qs_audit ?s2) + 1"
    by (rule audit_push_Some [of ?s2]) (use aud in simp)
  have "\<not> (cf_require_worker_registration cfg \<and> \<not> registry_contains wid (qs_workers ?s))" using known by simp
  then have "\<exists>a. acquire cfg env wid d q = Some (finish env AcqIo (Some a) q s3)"
    unfolding acquire_def Let_def using n j1 b s3(1) by auto
  then show ?thesis using s3(2,3) save by (auto simp: finish_def save_def)
qed

lemma complete_progress:
  assumes wf: "queue_wf (q_state q)" and l: "leased_to (q_state q) i wid e" "en_now env < e"
    and save: "en_save env = SaveOk" and aud: "next_event_id (qs_audit (q_state q)) \<noteq> u64_max"
  shows "\<exists>j q'. look (tick (en_now env) (q_state q)) i = Some j \<and> jb_state j = Leased wid e \<and>
    complete cfg env wid i q = Some (Inr (), q') \<and>
    qs_jobs (q_state q') = complete_jobs (en_now env) i j (qs_jobs (tick (en_now env) (q_state q))) \<and>
    qs_workers (q_state q') = qs_workers (q_state q) \<and>
    next_event_id (qs_audit (q_state q')) = next_event_id (qs_audit (q_state q)) + 1"
proof -
  let ?s = "tick (en_now env) (q_state q)"
  note wfs = tick_wf [OF wf, of "en_now env"]
  obtain j where j: "look ?s i = Some j" "jb_state j = Leased wid e"
    using tick_leased [OF wf l] by (auto simp: leased_to_def)
  let ?s1 = "?s\<lparr>qs_jobs := complete_jobs (en_now env) i j (qs_jobs ?s)\<rparr>"
  let ?s2 = "bump (\<lambda>c. c\<lparr>completed_total := completed_total c + 1\<rparr>) (jb_namespace j) ?s1"
  have jobs: "(set_job_state i (Completed (en_now env)) ?s)\<lparr>qs_jobs := fold (\<lambda>c. modify_entry c dec_remaining) (jb_dependents j)
      (qs_jobs (set_job_state i (Completed (en_now env)) ?s))\<rparr> = ?s1"
    by (simp add: set_job_state_def complete_jobs_def)
  have b: "bump_expect (\<lambda>c. c\<lparr>completed_total := completed_total c + 1\<rparr>) (jb_namespace j) ?s1 = Some ?s2"
    using queue_wfD(3) [OF wfs j(1)] by (simp add: bump_expect_def)
  obtain s3 where s3: "audit_push cfg (en_now env) EvCompleted (Some i) (Some wid) [] ?s2 = Some s3"
    "qs_workers s3 = qs_workers ?s2" "next_event_id (qs_audit s3) = next_event_id (qs_audit ?s2) + 1"
    by (rule audit_push_Some [of ?s2]) (use aud in simp)
  have holder: "is_lease_holder ?s wid i" by (simp add: is_lease_holder_def j)
  have "complete cfg env wid i q = Some (finish env AckIo () q s3)"
    unfolding complete_def Let_def using holder j(1) b s3(1) jobs by simp
  moreover have "qs_jobs s3 = complete_jobs (en_now env) i j (qs_jobs ?s)" using audit_push_frame [OF s3(1)] by simp
  ultimately show ?thesis using j s3(2,3) save by (auto simp: finish_def save_def)
qed

lemma unat_u64_max: "unat u64_max = 2 ^ 64 - 1"
  by (simp add: u64_max_def unsigned_minus_1_eq_mask mask_eq_exp_minus_1)

lemma not_u64_max: "x \<noteq> u64_max \<longleftrightarrow> unat x < 2 ^ 64 - 1"
proof -
  have lt: "unat x < 2 ^ LENGTH(64)" by (rule unsigned_less)
  have "x = u64_max \<longleftrightarrow> unat x = unat u64_max" by (metis unsigned_word_eqI)
  then show ?thesis using lt by (auto simp: unat_u64_max)
qed

lemma uint_nanos64: "uint (nanos64 d) = min (int d) (2 ^ 64 - 1)"
  unfolding nanos64_def by (subst uint_word_of_int_eq) (rule take_bit_int_eq_self, simp_all)

lemma instant_add_later:
  assumes "0 < d" "now \<noteq> u64_max"
  shows "now < instant_add now d"
proof -
  have n: "0 < uint (nanos64 d)" using assms(1) by (simp add: uint_nanos64)
  have m: "unat now < 2 ^ 64 - 1" using assms(2) by (simp only: not_u64_max)
  show ?thesis
  proof (cases "uint now + uint (nanos64 d) < 2 ^ 64")
    case True
    then have "uint (now + nanos64 d) = uint now + uint (nanos64 d)" by (simp add: uint_word_ariths)
    with True n show ?thesis by (simp add: instant_add_def saturating_add64_def word_less_def)
  next
    case False
    then show ?thesis using m by (simp add: instant_add_def saturating_add64_def word_less_nat_alt unat_u64_max)
  qed
qed

definition core :: "job \<Rightarrow> bool \<times> bool \<times> string list" where
  "core j = (is_terminal (jb_state j), is_completed (jb_state j), jb_required_capabilities j)"

lemma core_tick: "core (restate (tick_state now) j) = core j"
  by (cases "jb_state j") (simp_all add: core_def restate_def tick_state_def)

lemma core_dec: "core (dec_remaining j) = core j"
  by (simp add: core_def) (simp add: dec_remaining_def)

lemma core_alive: "map_option core (map_of js' k) = map_option core (map_of js k) \<Longrightarrow>
    (alive js' k \<longleftrightarrow> alive js k) \<and> (completed_in js' k \<longleftrightarrow> completed_in js k)"
  by (cases "map_of js k"; cases "map_of js' k") (auto simp: core_def alive_def completed_in_def)

lemma pending_tick: "is_pending st \<Longrightarrow> tick_state now st = st"
  by (cases st) (simp_all add: tick_state_def)

lemma drain_round:
  assumes live: "live_queue (q_state q)" and al: "alive (qs_jobs (q_state q)) i"
    and w: "workable (en_now env) wid (q_state q)" and save: "en_save env = SaveOk"
    and known: "cf_require_worker_registration cfg \<longrightarrow> registry_contains wid (qs_workers (q_state q))"
    and aud: "unat (next_event_id (qs_audit (q_state q))) + 2 < 2 ^ 64"
    and d: "0 < d" "en_now env \<noteq> u64_max"
  shows "\<exists>a q1 q2. acquire cfg env wid d q = Some (Inr (Some a), q1) \<and>
    complete cfg env wid (aj_id a) q1 = Some (Inr (), q2) \<and> live_queue (q_state q2) \<and>
    workable (en_now env) wid (q_state q2) \<and> qs_workers (q_state q2) = qs_workers (q_state q) \<and>
    unat (next_event_id (qs_audit (q_state q2))) = unat (next_event_id (qs_audit (q_state q))) + 2 \<and>
    alive (qs_jobs (q_state q)) (aj_id a) \<and> completed_in (qs_jobs (q_state q2)) (aj_id a) \<and>
    (\<forall>k. alive (qs_jobs (q_state q2)) k \<longleftrightarrow> alive (qs_jobs (q_state q)) k \<and> k \<noteq> aj_id a) \<and>
    (\<forall>k. completed_in (qs_jobs (q_state q)) k \<longrightarrow> completed_in (qs_jobs (q_state q2)) k)"
proof -
  let ?now = "en_now env" and ?s = "tick (en_now env) (q_state q)"
  have wf: "queue_wf (q_state q)" using live by (simp add: live_queue_def)
  have a0: "next_event_id (qs_audit (q_state q)) \<noteq> u64_max" using aud by (simp add: not_u64_max)
  obtain a q1 where acq: "acquire cfg env wid d q = Some (Inr (Some a), q1)"
    and f1: "qs_workers (q_state q1) = qs_workers (q_state q)"
      "next_event_id (qs_audit (q_state q1)) = next_event_id (qs_audit (q_state q)) + 1"
    using acquire_progress [OF live al w save known a0] by blast
  obtain j where j: "look ?s (aj_id a) = Some j" "is_acquirable (resolve_worker_caps ?s wid) j"
    and jobs1: "qs_jobs (q_state q1) = modify_entry (aj_id a) (\<lambda>j. j\<lparr>jb_state := Leased wid (instant_add ?now d)\<rparr>) (qs_jobs ?s)"
    using acquired_spec [OF wf acq] by metis
  have live1: "live_queue (q_state q1)" by (rule quiet_live [OF acquire_quiet [OF wf acq] acquire_spares [OF wf acq] live])
  then have wf1: "queue_wf (q_state q1)" by (simp add: live_queue_def)
  have l1: "leased_to (q_state q1) (aj_id a) wid (instant_add ?now d)" by (simp add: leased_to_def jobs1 j(1))
  have u1: "unat (next_event_id (qs_audit (q_state q1))) = Suc (unat (next_event_id (qs_audit (q_state q))))"
    using f1(2) u64_succ [OF a0] by simp
  then have a1: "next_event_id (qs_audit (q_state q1)) \<noteq> u64_max" using aud by (simp add: not_u64_max)
  let ?s1 = "tick ?now (q_state q1)"
  obtain m q2 where m: "look ?s1 (aj_id a) = Some m" "jb_state m = Leased wid (instant_add ?now d)"
    and comp: "complete cfg env wid (aj_id a) q1 = Some (Inr (), q2)"
    and jobs2: "qs_jobs (q_state q2) = complete_jobs ?now (aj_id a) m (qs_jobs ?s1)"
    and f2: "qs_workers (q_state q2) = qs_workers (q_state q1)"
      "next_event_id (qs_audit (q_state q2)) = next_event_id (qs_audit (q_state q1)) + 1"
    using complete_progress [OF wf1 l1 instant_add_later [OF d] save a1] by blast
  have live2: "live_queue (q_state q2)" by (rule complete_live [OF live1 comp])
  note wm = job_wfD [OF queue_wfD(1) [OF tick_wf [OF wf1] m(1)]]
  have "aj_id a \<notin> set (jb_dependents m)" using wm(10) [OF _ m(1)] wm(7) by blast
  note look2 = complete_jobs_look [OF wm(8) this, of ?now "qs_jobs ?s1"]
  have look1: "look ?s1 k = map_option (restate (tick_state ?now)) (look ?s k)" if "k \<noteq> aj_id a" for k
    unfolding look_tick [OF wf1] using that by (simp add: jobs1)
  have look0: "look ?s k = map_option (restate (tick_state ?now)) (look (q_state q) k)" for k by (rule look_tick [OF wf])
  have same: "map_option core (look (q_state q2) k) = map_option core (look (q_state q) k)" if "k \<noteq> aj_id a" for k
    using that by (simp add: jobs2 look2 look1 look0 option.map_comp comp_def core_tick core_dec)
  note keep = core_alive [OF same]
  have done2: "completed_in (qs_jobs (q_state q2)) (aj_id a)" "\<not> alive (qs_jobs (q_state q2)) (aj_id a)"
    by (simp_all add: completed_in_def alive_def jobs2 look2 m(1))
  have "is_pending (jb_state j)" using j(2) by (simp add: is_acquirable_def)
  then have "\<not> is_terminal (jb_state j)" by simp
  then have was: "alive (qs_jobs (q_state q)) (aj_id a)"
    using j(1) unfolding look0 by (auto simp: alive_def restate_def terminal_tick)
  have "workable ?now wid (q_state q2)" unfolding workable_def
  proof (intro allI impI)
    fix k x assume x: "look (q_state q2) k = Some x" "\<not> is_terminal (jb_state x)"
    have k: "k \<noteq> aj_id a" using x done2(2) by (auto simp: alive_def)
    obtain y where y: "look ?s k = Some y" "jb_state x = tick_state ?now (jb_state y)"
      "jb_required_capabilities x = jb_required_capabilities y"
      using x(1) k by (auto simp: jobs2 look2 look1 restate_def dec_remaining_def split: if_splits)
    have "\<not> is_terminal (jb_state y)" using x(2) y(2) by (simp add: terminal_tick)
    note yy = workable_tick [OF wf w y(1) this]
    have "is_pending (jb_state x)" using y(2) yy(1) by (simp add: pending_tick)
    then show "due ?now (jb_state x) \<and> set (jb_required_capabilities x) \<subseteq> resolve_worker_caps (q_state q2) wid"
      using yy(2) y(3) f1(1) f2(1) by (cases "jb_state x") (simp_all add: resolve_worker_caps_def)
  qed
  moreover have "unat (next_event_id (qs_audit (q_state q2))) = unat (next_event_id (qs_audit (q_state q))) + 2"
    using f2(2) u64_succ [OF a1] u1 by simp
  moreover have "alive (qs_jobs (q_state q2)) k \<longleftrightarrow> alive (qs_jobs (q_state q)) k \<and> k \<noteq> aj_id a" for k
    using keep [of k] done2(2) by blast
  moreover have "completed_in (qs_jobs (q_state q)) k \<longrightarrow> completed_in (qs_jobs (q_state q2)) k" for k
    using keep [of k] done2(1) by blast
  ultimately show ?thesis using acq comp live2 f1(1) f2(1) was done2(1) by metis
qed

lemma drain_wf: "queue_wf (q_state q) \<Longrightarrow> drain cfg env w d n q = Some q' \<Longrightarrow> queue_wf (q_state q')"
proof (induction n arbitrary: q)
  case (Suc n)
  obtain a q1 q2 u where "acquire cfg env w d q = Some (Inr (Some a), q1)" "complete cfg env w (aj_id a) q1 = Some (Inr u, q2)"
    "drain cfg env w d n q2 = Some q'"
    using Suc.prems(2) by (auto split: option.splits prod.splits sum.splits)
  then show ?case using Suc.IH complete_wf quiet_wf [OF acquire_quiet] Suc.prems(1) by blast
qed simp

lemma drain_all:
  assumes "live_queue (q_state q)" "workable (en_now env) wid (q_state q)" "en_save env = SaveOk"
    and "cf_require_worker_registration cfg \<longrightarrow> registry_contains wid (qs_workers (q_state q))"
    and "unat (next_event_id (qs_audit (q_state q))) + 2 * n < 2 ^ 64"
    and "0 < d" "en_now env \<noteq> u64_max" "card {i. alive (qs_jobs (q_state q)) i} = n"
  shows "\<exists>q'. drain cfg env wid d n q = Some q' \<and> (\<forall>i. \<not> alive (qs_jobs (q_state q')) i) \<and>
    (\<forall>i. alive (qs_jobs (q_state q)) i \<or> completed_in (qs_jobs (q_state q)) i \<longrightarrow> completed_in (qs_jobs (q_state q')) i)"
  using assms
proof (induction n arbitrary: q)
  case 0
  have "finite {i. alive (qs_jobs (q_state q)) i}"
    by (rule finite_subset [OF _ finite_dom_map_of [of "qs_jobs (q_state q)"]]) (auto simp: alive_def)
  then have "{i. alive (qs_jobs (q_state q)) i} = {}" using "0.prems"(8) by (simp only: card_eq_0_iff) blast
  then show ?case by auto
next
  case (Suc n)
  obtain i where i: "alive (qs_jobs (q_state q)) i" using Suc.prems(8) by (metis card.empty empty_Collect_eq nat.distinct(1))
  have aud: "unat (next_event_id (qs_audit (q_state q))) + 2 < 2 ^ 64" using Suc.prems(5) by simp
  obtain a q1 q2 where acq: "acquire cfg env wid d q = Some (Inr (Some a), q1)"
    and comp: "complete cfg env wid (aj_id a) q1 = Some (Inr (), q2)" and live: "live_queue (q_state q2)"
    and w: "workable (en_now env) wid (q_state q2)" and ws: "qs_workers (q_state q2) = qs_workers (q_state q)"
    and au: "unat (next_event_id (qs_audit (q_state q2))) = unat (next_event_id (qs_audit (q_state q))) + 2"
    and al: "alive (qs_jobs (q_state q)) (aj_id a)" "completed_in (qs_jobs (q_state q2)) (aj_id a)"
    and al2: "\<forall>k. alive (qs_jobs (q_state q2)) k \<longleftrightarrow> alive (qs_jobs (q_state q)) k \<and> k \<noteq> aj_id a"
    and co: "\<forall>k. completed_in (qs_jobs (q_state q)) k \<longrightarrow> completed_in (qs_jobs (q_state q2)) k"
    using drain_round [OF Suc.prems(1) i Suc.prems(2,3,4) aud Suc.prems(6,7)] by blast
  have "{k. alive (qs_jobs (q_state q2)) k} = {k. alive (qs_jobs (q_state q)) k} - {aj_id a}" using al2 by blast
  then have "card {k. alive (qs_jobs (q_state q2)) k} = n" using Suc.prems(8) al(1) by simp
  moreover have "unat (next_event_id (qs_audit (q_state q2))) + 2 * n < 2 ^ 64" using Suc.prems(5) au by simp
  moreover have "cf_require_worker_registration cfg \<longrightarrow> registry_contains wid (qs_workers (q_state q2))"
    using Suc.prems(4) ws by simp
  ultimately obtain q' where q': "drain cfg env wid d n q2 = Some q'" "\<forall>i. \<not> alive (qs_jobs (q_state q')) i"
    "\<forall>i. alive (qs_jobs (q_state q2)) i \<or> completed_in (qs_jobs (q_state q2)) i \<longrightarrow> completed_in (qs_jobs (q_state q')) i"
    using Suc.IH [OF live w Suc.prems(3) _ _ Suc.prems(6,7)] by blast
  have "completed_in (qs_jobs (q_state q')) k"
    if "alive (qs_jobs (q_state q)) k \<or> completed_in (qs_jobs (q_state q)) k" for k
    using q'(3) al(2) al2 co that by blast
  moreover have "drain cfg env wid d (Suc n) q = Some q'" using acq comp q'(1) by simp
  ultimately show ?case using q'(2) by blast
qed

definition live_count :: "queue_state \<Rightarrow> nat" where
  "live_count s = length (filter (\<lambda>(_, j). \<not> is_terminal (jb_state j)) (qs_jobs s))"

lemma live_count_card:
  assumes "queue_wf s"
  shows "card {i. alive (qs_jobs s) i} = live_count s"
proof -
  let ?L = "filter (\<lambda>(_, j). \<not> is_terminal (jb_state j)) (qs_jobs s)"
  have "distinct (map fst ?L)" using queue_wf_distinct [OF assms] by (rule distinct_map_filter)
  then have "card (set (map fst ?L)) = length ?L" by (metis distinct_card length_map)
  moreover have "{i. alive (qs_jobs s) i} = set (map fst ?L)"
    using look_in_jobs [OF assms] by (force simp: alive_def)
  ultimately show ?thesis by (simp add: live_count_def)
qed

text \<open>C7: Liveness. Take any queue reached by any operations under a configuration in which every namespace
  keeps at least one dead letter. If nothing is waiting for a later instant, and a worker has the
  capabilities the live jobs ask for, then there is no deadlock: as many rounds of acquire and
  complete as there are live jobs all succeed, after which every one of them has completed and no
  live job is left.\<close>

theorem queue_drains:
  assumes "keeps_config cfg" "run_ops cfg ops fresh_queue = Some q" "\<forall>(_, op) \<in> set ops. keeps_op op"
    and "workable (en_now env) wid (q_state q)" "en_save env = SaveOk" "en_now env \<noteq> u64_max" "0 < d"
    and "cf_require_worker_registration cfg \<longrightarrow> registry_contains wid (qs_workers (q_state q))"
    and "unat (next_event_id (qs_audit (q_state q))) + 2 * live_count (q_state q) < 2 ^ 64"
  shows "\<exists>q'. drain cfg env wid d (live_count (q_state q)) q = Some q' \<and> live_count (q_state q') = 0 \<and>
    (\<forall>i. alive (qs_jobs (q_state q)) i \<longrightarrow> completed_in (qs_jobs (q_state q')) i)"
proof -
  have live: "live_queue (q_state q)" by (rule run_ops_live [OF assms(1) fresh_queue_live assms(3,2)])
  then have "card {i. alive (qs_jobs (q_state q)) i} = live_count (q_state q)"
    by (intro live_count_card) (simp add: live_queue_def)
  from drain_all [OF live assms(4,5,8,9,7,6) this] obtain q' where
    q': "drain cfg env wid d (live_count (q_state q)) q = Some q'" "\<forall>i. \<not> alive (qs_jobs (q_state q')) i"
      "\<forall>i. alive (qs_jobs (q_state q)) i \<longrightarrow> completed_in (qs_jobs (q_state q')) i" by blast
  have "live_count (q_state q') = card {i. alive (qs_jobs (q_state q')) i}"
    using drain_wf [OF _ q'(1)] live live_count_card by (simp add: live_queue_def)
  then have "live_count (q_state q') = 0" using q'(2) by simp
  with q' show ?thesis by blast
qed

lemma workable_list:
  "list_all (\<lambda>(_, j). is_terminal (jb_state j) \<or>
     due now (jb_state j) \<and> set (jb_required_capabilities j) \<subseteq> resolve_worker_caps s w) (qs_jobs s) \<Longrightarrow> workable now w s"
  by (auto simp: workable_def list_all_iff dest!: map_of_SomeD)

theorem queue_drains_witness:
  "\<exists>q'. drain (demo_config 2) (demo_env 10) ''w'' 5 (live_count (q_state demo_queue)) demo_queue = Some q' \<and>
     live_count (q_state q') = 0 \<and> live_count (q_state demo_queue) = 3"
proof -
  have keeps: "keeps_config (demo_config 2)" "\<forall>(_, op) \<in> set demo_ops. keeps_op op"
    by (simp_all add: keeps_config_def demo_config_def demo_ops_def)
  have "list_all (\<lambda>(_, j). is_terminal (jb_state j) \<or> due 10 (jb_state j) \<and>
      set (jb_required_capabilities j) \<subseteq> resolve_worker_caps (q_state demo_queue) ''w'') (qs_jobs (q_state demo_queue))"
    by code_simp
  then have work: "workable (en_now (demo_env 10)) ''w'' (q_state demo_queue)"
    using workable_list by (simp add: demo_env_def)
  have env: "en_save (demo_env 10) = SaveOk" "en_now (demo_env 10) \<noteq> u64_max" "0 < (5 :: nat)"
    by (simp_all add: demo_env_def u64_max_def)
  have reg: "cf_require_worker_registration (demo_config 2) \<longrightarrow> registry_contains ''w'' (qs_workers (q_state demo_queue))"
    by (simp add: demo_config_def)
  have n: "live_count (q_state demo_queue) = 3" by code_simp
  have "next_event_id (qs_audit (q_state demo_queue)) = 3" by code_simp
  then have "unat (next_event_id (qs_audit (q_state demo_queue))) + 2 * live_count (q_state demo_queue) < 2 ^ 64"
    using n by simp
  from queue_drains [OF keeps(1) demo_run keeps(2) work env reg this] n show ?thesis by blast
qed

text \<open>Without a dead letter to keep, the last failure of a job deletes it before its dependents are
  looked up: they stay pending forever.\<close>

theorem zero_letters_strand:
  "case run_ops (demo_config 0) (demo_ops @ [(demo_env 4, OpCancel 3 ''skip''), (demo_env 5, OpAcquire ''w'' 9),
      (demo_env 6, OpFail ''w'' 1 ''broken'')]) fresh_queue of
     Some q \<Rightarrow> look (q_state q) 1 = None \<and> (case look (q_state q) 2 of
       Some j \<Rightarrow> jb_state j = Pending None \<and> jb_depends_on j = [1] \<and> jb_remaining_deps j = 1 | None \<Rightarrow> False)
   | None \<Rightarrow> False"
  by code_simp

end
