(* ===== verification/Job_Guarantees.thy ===== *)
theory Job_Guarantees
  imports Job_Liveness
begin

text \<open>
  No operation of the job queue panics until a counter is exhausted: every arithmetic overflow, index
  and unwrap of the Rust code is a \<^const>\<open>None\<close> branch of the model, and none is taken from a reachable
  state while the event counter has room.
\<close>

section \<open>No operation panics\<close>

text \<open>The event counter can be advanced \<open>n\<close> times.\<close>

definition room :: "nat \<Rightarrow> queue_state \<Rightarrow> bool" where
  "room n s \<longleftrightarrow> unat (next_event_id (qs_audit s)) + n < 2 ^ 64"

lemma room_mono: "room n s \<Longrightarrow> m \<le> n \<Longrightarrow> room m s"
  by (simp add: room_def)

lemma room_fields [simp]:
  "room n (set_job_state i st s) = room n s" "room n (bump f m s) = room n s" "room n (tick now s) = room n s"
  "room n (s\<lparr>qs_jobs := js\<rparr>) = room n s" "room n (s\<lparr>cancelled_order := cs\<rparr>) = room n s"
  "room n (s\<lparr>qs_workers := ws\<rparr>) = room n s" "room n (s\<lparr>qs_namespaces := nss\<rparr>) = room n s"
  "room n (s\<lparr>next_id := a\<rparr>) = room n s" "room n (s\<lparr>next_seq := a\<rparr>) = room n s"
  "room n (namespace_mut m c s) = room n s"
  by (simp_all add: room_def)

lemma audit_push_total:
  assumes "room (Suc n) s"
  shows "\<exists>s'. audit_push cfg now kind i w p s = Some s' \<and> room n s' \<and> qs_jobs s' = qs_jobs s"
proof -
  have ne: "next_event_id (qs_audit s) \<noteq> u64_max" using assms by (simp add: room_def not_u64_max)
  then obtain s' where s': "audit_push cfg now kind i w p s = Some s'" "qs_workers s' = qs_workers s"
    "next_event_id (qs_audit s') = next_event_id (qs_audit s) + 1" by (rule audit_push_Some)
  have "room n s'" using assms s'(3) u64_succ [OF ne] by (simp add: room_def)
  then show ?thesis using s'(1) audit_push_frame [OF s'(1)] by blast
qed

lemma bump_expect_total:
  "map_of (qs_namespaces s) n \<noteq> None \<Longrightarrow> bump_expect f n s = Some (bump f n s)"
  by (simp add: bump_expect_def)

lemma cascade_apply_total:
  "\<forall>i \<in> set ids. look s i \<noteq> None \<Longrightarrow> room (n + 2 * length ids) s \<Longrightarrow>
     \<exists>s'. cascade_apply cfg root reason now idx ids s = Some s' \<and> room n s'"
proof (induction ids arbitrary: s idx)
  case (Cons i ids)
  obtain j where j: "look s i = Some j" using Cons.prems(1) by auto
  let ?payload = "if idx = 0 then reason else ''cascaded from '' @ dec64 root @ '' ('' @ reason @ '')''"
  define pre where "pre = (case jb_state j of Leased worker _ \<Rightarrow>
      audit_push cfg now EvLeaseExpired (Some i) (Some worker) ''cancelled'' (bump inc_lease_expired (jb_namespace j) s)
    | _ \<Rightarrow> Some s)"
  define mid where "mid s0 = bump (\<lambda>c. c\<lparr>cancelled_total := cancelled_total c + 1\<rparr>) (jb_namespace j)
      ((set_job_state i (Cancelled ?payload now) s0)
        \<lparr>cancelled_order := cancelled_order (set_job_state i (Cancelled ?payload now) s0) @ [i]\<rparr>)" for s0
  have r: "room (Suc (Suc (n + 2 * length ids))) s" using Cons.prems(2) by simp
  obtain s0 where s0: "pre = Some s0" "room (Suc (n + 2 * length ids)) s0" "qs_jobs s0 = qs_jobs s"
  proof (cases "\<exists>w e. jb_state j = Leased w e")
    case True
    then obtain w e where st: "jb_state j = Leased w e" by blast
    have "room (Suc (Suc (n + 2 * length ids))) (bump inc_lease_expired (jb_namespace j) s)" using r by simp
    from audit_push_total [OF this] obtain s0 where
      "audit_push cfg now EvLeaseExpired (Some i) (Some w) ''cancelled'' (bump inc_lease_expired (jb_namespace j) s) = Some s0"
      "room (Suc (n + 2 * length ids)) s0" "qs_jobs s0 = qs_jobs (bump inc_lease_expired (jb_namespace j) s)" by blast
    then show ?thesis using that st by (simp add: pre_def)
  next
    case False
    then have "pre = Some s" by (cases "jb_state j") (simp_all add: pre_def)
    then show ?thesis using that r by (simp add: room_def)
  qed
  have "room (Suc (n + 2 * length ids)) (mid s0)" using s0(2) by (simp add: mid_def)
  from audit_push_total [OF this] obtain s1 where
    s1: "audit_push cfg now EvCancelled (Some i) None ?payload (mid s0) = Some s1" "room (n + 2 * length ids) s1"
      "qs_jobs s1 = qs_jobs (mid s0)" by blast
  have "\<forall>k \<in> set ids. look s1 k \<noteq> None"
    using Cons.prems(1) s1(3) s0(3) by (auto simp: mid_def set_job_state_def)
  then obtain s' where s': "cascade_apply cfg root reason now (Suc idx) ids s1 = Some s'" "room n s'"
    using Cons.IH s1(2) by blast
  have "cascade_apply cfg root reason now idx (i # ids) s =
      (do { s0 \<leftarrow> pre; s1 \<leftarrow> audit_push cfg now EvCancelled (Some i) None ?payload (mid s0);
            cascade_apply cfg root reason now (Suc idx) ids s1 })"
    by (simp add: j Let_def pre_def mid_def)
  then show ?case using s0(1) s1(1) s' by simp
qed simp

lemma finite_alive: "finite {i. alive js i}"
  by (rule finite_subset [OF _ finite_dom_map_of [of js]]) (auto simp: alive_def)

lemma live_count_mono:
  assumes "queue_wf s" "queue_wf s'" "\<And>i. alive (qs_jobs s') i \<Longrightarrow> alive (qs_jobs s) i"
  shows "live_count s' \<le> live_count s"
  unfolding live_count_card [OF assms(1), symmetric] live_count_card [OF assms(2), symmetric]
  by (rule card_mono [OF finite_alive]) (use assms(3) in blast)

lemma quiet_live_count:
  assumes "queue_wf s" "quiet s s'"
  shows "live_count s' \<le> live_count s"
  using live_count_mono [OF assms(1) quiet_wf [OF assms(2,1)]] quiet_dead [OF assms(2)] by blast

lemma tick_live_count:
  assumes "queue_wf s"
  shows "live_count (tick now s) = live_count s"
proof -
  have "alive (qs_jobs (tick now s)) i \<longleftrightarrow> alive (qs_jobs s) i" for i
    using quiet_dead [OF tick_quiet [OF assms]] tick_spares [OF assms] unfolding spares_def by blast
  then show ?thesis
    by (simp add: live_count_card [OF assms, symmetric] live_count_card [OF tick_wf [OF assms], symmetric])
qed

lemma collect_length:
  assumes "queue_wf s"
  shows "length (cascade_collect root s) \<le> live_count s"
proof -
  have "card (set (cascade_collect root s)) \<le> card {i. alive (qs_jobs s) i}"
    by (rule card_mono [OF finite_alive]) (use cascade_collect_alive(2) in blast)
  then show ?thesis
    by (simp add: distinct_card [OF cascade_collect_alive(1)] live_count_card [OF assms])
qed

lemma cascade_cancel_total:
  assumes wf: "queue_wf s" and r: "room (n + 2 * live_count s) s"
  shows "\<exists>k s'. cascade_cancel cfg root reason now s = Some (k, s') \<and> room (n + 2 * live_count s') s'"
proof -
  let ?ids = "cascade_collect root s"
  have len: "length ?ids \<le> live_count s" by (rule collect_length [OF wf])
  have "\<forall>i \<in> set ?ids. look s i \<noteq> None"
    by (auto simp: alive_def dest!: cascade_collect_alive(2))
  moreover have "room ((n + 2 * (live_count s - length ?ids)) + 2 * length ?ids) s"
    by (rule room_mono [OF r]) (use len in simp)
  ultimately obtain s' where s': "cascade_apply cfg root reason now 0 ?ids s = Some s'"
    "room (n + 2 * (live_count s - length ?ids)) s'" using cascade_apply_total by blast
  have c: "cascade_cancel cfg root reason now s = Some (length ?ids, s')" using s'(1) by (simp add: cascade_cancel_def)
  note C = cancelsD [OF cascade_cancel_spec(2) [OF c]]
  have "alive (qs_jobs s') i \<longleftrightarrow> alive (qs_jobs s) i \<and> i \<notin> set ?ids" for i
  proof (cases "i \<in> set ?ids")
    case True
    then obtain j where "look s i = Some j" by (auto simp: alive_def dest!: cascade_collect_alive(2))
    from C(3) [OF True this] True show ?thesis by (auto simp: alive_def)
  next
    case False
    then show ?thesis using C(2) by (simp add: alive_def)
  qed
  then have "{i. alive (qs_jobs s') i} = {i. alive (qs_jobs s) i} - set ?ids" by blast
  then have "card {i. alive (qs_jobs s') i} = card {i. alive (qs_jobs s) i} - card (set ?ids)"
    by (simp add: card_Diff_subset cascade_collect_alive(2) subsetI)
  then have "live_count s' = live_count s - length ?ids"
    by (simp add: live_count_card [OF wf] live_count_card [OF quiet_wf [OF C(1) wf]] distinct_card [OF cascade_collect_alive(1)])
  with s'(2) c show ?thesis by simp
qed

lemma cascade_children_total:
  "queue_wf s \<Longrightarrow> room (n + 2 * live_count s) s \<Longrightarrow> \<exists>s'. cascade_children cfg cs reason now s = Some s'"
proof (induction cs arbitrary: s)
  case (Cons c cs)
  obtain k s1 where s1: "cascade_cancel cfg c reason now s = Some (k, s1)" "room (n + 2 * live_count s1) s1"
    using cascade_cancel_total [OF Cons.prems] by blast
  have "queue_wf s1" by (rule quiet_wf [OF cancelsD(1) [OF cascade_cancel_spec(2) [OF s1(1)]] Cons.prems(1)])
  then show ?case using Cons.IH [OF _ s1(2)] s1(1) by simp
qed simp

lemma terminal_dead_letter_total:
  assumes wf: "queue_wf s" and live: "live s jid" and j: "look s jid = Some j" and r: "room (Suc n) s"
  shows "\<exists>s'. terminal_dead_letter cfg jid reason now s = Some s' \<and> room n s' \<and> queue_wf s' \<and> live_count s' \<le> live_count s"
proof -
  obtain ns where ns: "map_of (qs_namespaces s) (jb_namespace j) = Some ns" using queue_wfD(3) [OF wf j] by blast
  obtain s' where s': "terminal_dead_letter cfg jid reason now s = Some s'" "room n s'"
    unfolding terminal_dead_letter_def using j ns
    by (simp add: Let_def case_prod_unfold) (metis audit_push_total [OF room_mono, OF _ order_refl] room_fields r)
  have wf': "queue_wf s'" by (rule terminal_dead_letter_wf [OF wf live s'(1)])
  obtain dropped where look': "\<And>k. look s' k = (if k \<in> dropped then None else look (set_job_state jid (DeadLetter reason now) s) k)"
    using terminal_dead_letter_look [OF wf live s'(1)] by blast
  have "live_count s' \<le> live_count s"
    by (rule live_count_mono [OF wf wf']) (auto simp: alive_def look' look_set_job_state split: if_splits)
  with s' wf' show ?thesis by blast
qed

lemma link_deps_total:
  "\<forall>d \<in> set ds. map_of js d \<noteq> None \<Longrightarrow> unat r + length ds < 2 ^ 32 \<Longrightarrow> \<exists>x. link_deps jid ds r c js = Some x"
proof (induction ds arbitrary: r c js)
  case (Cons d ds)
  obtain j where j: "map_of js d = Some j" using Cons.prems(1) by auto
  have ne: "r \<noteq> - 1"
    using Cons.prems(2) by (auto simp: unsigned_minus_1_eq_mask mask_eq_exp_minus_1)
  let ?js = "modify_entry d (\<lambda>j. j\<lparr>jb_dependents := jb_dependents j @ [jid]\<rparr>) js"
  have "\<forall>d \<in> set ds. map_of ?js d \<noteq> None" using Cons.prems(1) by auto
  then have live: "\<exists>x. link_deps jid ds (r + 1) c' ?js = Some x" for c'
    by (rule Cons.IH) (use Cons.prems(2) u32_succ [OF ne] in simp)
  have dead: "\<exists>x. link_deps jid ds r c' js = Some x" for c'
    by (rule Cons.IH) (use Cons.prems in simp_all)
  show ?case using live dead ne by (cases "jb_state j") (simp_all add: j)
qed simp

lemma expire_held_total:
  "room (n + length held) s \<Longrightarrow> \<exists>s'. expire_held cfg wid now held s = Some s' \<and> room n s'"
proof (induction held arbitrary: s)
  case (Cons x held)
  obtain i ns where x: "x = (i, ns)" by (cases x)
  let ?s = "bump inc_lease_expired ns (set_job_state i (Pending (Some wid)) s)"
  have "room (Suc (n + length held)) ?s" using Cons.prems by simp
  from audit_push_total [OF this] obtain s1 where
    "audit_push cfg now EvLeaseExpired (Some i) (Some wid) ''worker deregistered'' ?s = Some s1" "room (n + length held) s1" by blast
  with Cons.IH show ?case by (auto simp: x Let_def)
qed simp

lemma held_length:
  "length (concat (map (\<lambda>(_, j). case jb_state j of
     Leased w _ \<Rightarrow> if w = wid then [(jb_id j, jb_namespace j)] else [] | _ \<Rightarrow> []) js)) \<le>
   length (filter (\<lambda>(_, j). \<not> is_terminal (jb_state j)) js)"
proof (induction js)
  case (Cons x js)
  then show ?case by (cases x; cases "jb_state (snd x)") auto
qed simp

lemma finish_total: "\<exists>r q'. finish env io v q s = (r, q')"
  by (cases "finish env io v q s") blast

lemma enqueue_total:
  assumes wf: "queue_wf (q_state q)" and r: "room 3 (q_state q)"
    and ids: "next_id (q_state q) \<noteq> u64_max" "next_seq (q_state q) \<noteq> u64_max"
    and len: "length (rq_depends_on req) < 2 ^ 32"
  shows "enqueue cfg env req q \<noteq> None"
proof (cases "request_priority req")
  case (Inl e)
  then show ?thesis by (simp add: enqueue_def)
next
  case (Inr priority)
  let ?ns = "request_namespace req" and ?s = "enqueue_state cfg env req q"
  note wfs = enqueue_state_wf [OF wf, of cfg env req]
  have ns: "map_of (qs_namespaces ?s) ?ns \<noteq> None" unfolding enqueue_state_def by (rule namespace_mut_has)
  then obtain nst where nst: "map_of (qs_namespaces ?s) ?ns = Some nst" by blast
  have q: "next_id ?s \<noteq> u64_max" "next_seq ?s \<noteq> u64_max" "room 3 ?s"
    using ids r quietD(1,2) [OF tick_quiet [OF wf]] by (simp_all add: enqueue_state_def)
  show ?thesis
  proof (cases "validate_dependencies (rq_depends_on req) ?ns ?s")
    case (Inl e)
    then show ?thesis
      using nst Inr unfolding enqueue_def Let_def enqueue_state_def request_namespace_def by simp
  next
    case val: (Inr u)
    have "\<forall>d \<in> set (rq_depends_on req). look ?s d \<noteq> None" using validate_dependencies_spec(2) [OF val] by blast
    then obtain rem cascade js where link: "link_deps (next_id ?s) (rq_depends_on req) 0 None (qs_jobs ?s) = Some (rem, cascade, js)"
      using link_deps_total [of "rq_depends_on req" "qs_jobs ?s" 0] len by fastforce
    let ?j = "new_job (next_id ?s) (next_seq ?s) priority ?ns rem (en_now env) req"
    let ?stored = "?s\<lparr>next_id := next_id ?s + 1, next_seq := next_seq ?s + 1, qs_jobs := AList.update (next_id ?s) ?j js\<rparr>"
    let ?counted = "bump (\<lambda>c. c\<lparr>enqueued_total := enqueued_total c + 1\<rparr>) ?ns ?stored"
    have b: "bump_expect (\<lambda>c. c\<lparr>enqueued_total := enqueued_total c + 1\<rparr>) ?ns ?stored = Some ?counted"
      by (rule bump_expect_total) (use ns in simp)
    have "room (Suc 2) ?counted" using q(3) by (simp add: room_def)
    from audit_push_total [OF this] obtain s2 where s2: "audit_push cfg (en_now env) EvEnqueued (Some (next_id ?s)) None
        (''ns='' @ ?ns @ '' priority='' @ dec_nat (unat priority)) ?counted = Some s2" "room 2 s2" "qs_jobs s2 = qs_jobs ?counted" by blast
    have look2: "look s2 (next_id ?s) = Some ?j" using s2(3) by (simp add: AList.update_conv')
    have leaf: "cascade_collect (next_id ?s) s2 = [next_id ?s]"
      by (rule collect_leaf [OF look2]) (simp_all add: new_job_live)
    have "\<exists>s'. cascade_apply cfg (next_id ?s) reason (en_now env) 0 [next_id ?s] s2 = Some s' \<and> room 0 s'" for reason
      by (rule cascade_apply_total) (use look2 s2(2) in \<open>simp_all add: room_def\<close>)
    then have "\<exists>s3. (case cascade of None \<Rightarrow> Some s2
        | Some reason \<Rightarrow> map_option snd (cascade_cancel cfg (next_id ?s) reason (en_now env) s2)) = Some s3"
      by (cases cascade) (simp_all add: cascade_cancel_def leaf del: cascade_apply.simps, metis option.simps(9))
    then obtain s3 where s3: "(case cascade of None \<Rightarrow> Some s2
        | Some reason \<Rightarrow> map_option snd (cascade_cancel cfg (next_id ?s) reason (en_now env) s2)) = Some s3" by blast
    have "(if nc_active_capacity (ns_config nst) \<le> active_count_ns ?ns ?s then Some (Inl QueueFull, q\<lparr>q_state := ?s\<rparr>)
        else Some (finish env EnqIo (next_id ?s) q s3)) = enqueue cfg env req q"
      unfolding enqueue_def Inr sum.case Let_def request_namespace_def [symmetric] enqueue_state_def [symmetric]
      using nst val q(1,2) link b s2(1) s3 by simp
    then show ?thesis by (metis option.distinct(1))
  qed
qed

lemma acquire_total:
  assumes wf: "queue_wf (q_state q)" and r: "room 1 (q_state q)"
  shows "acquire cfg env wid d q \<noteq> None"
proof -
  let ?s = "tick (en_now env) (q_state q)"
  note wfs = tick_wf [OF wf, of "en_now env"]
  show ?thesis
  proof (cases "next_acquirable (resolve_worker_caps ?s wid) ?s")
    case None
    then show ?thesis by (simp add: acquire_def Let_def)
  next
    case (Some jid)
    obtain j where j: "look ?s jid = Some j" using next_acquirable_look [OF wfs Some] by metis
    let ?leased = "set_job_state jid (Leased wid (instant_add (en_now env) d)) ?s"
    let ?counted = "bump (\<lambda>c. c\<lparr>acquired_total := acquired_total c + 1\<rparr>) (jb_namespace j) ?leased"
    have "bump_expect (\<lambda>c. c\<lparr>acquired_total := acquired_total c + 1\<rparr>) (jb_namespace j) ?leased = Some ?counted"
      by (rule bump_expect_total) (use queue_wfD(3) [OF wfs j] in simp)
    moreover have "room (Suc 0) ?counted" using r by simp
    from audit_push_total [OF this] obtain s2 where "audit_push cfg (en_now env) EvAcquired (Some jid) (Some wid)
        (''attempt='' @ dec_nat (unat (jb_failures j + 1))) ?counted = Some s2" by blast
    ultimately show ?thesis unfolding acquire_def Let_def using Some j by simp
  qed
qed

lemma heartbeat_total:
  assumes "room 1 (q_state q)"
  shows "heartbeat cfg env wid jid d q \<noteq> None"
proof -
  let ?s = "tick (en_now env) (q_state q)"
  have "room (Suc 0) (set_job_state jid (Leased wid (instant_add (en_now env) d)) ?s)" using assms by simp
  from audit_push_total [OF this] obtain s1 where "audit_push cfg (en_now env) EvHeartbeatExtended (Some jid) (Some wid) []
      (set_job_state jid (Leased wid (instant_add (en_now env) d)) ?s) = Some s1" by blast
  then show ?thesis
    unfolding heartbeat_def Let_def by (auto split: option.split job_state.split)
qed

lemma complete_total:
  assumes wf: "queue_wf (q_state q)" and r: "room 1 (q_state q)"
  shows "complete cfg env wid jid q \<noteq> None"
proof -
  let ?s = "tick (en_now env) (q_state q)"
  note wfs = tick_wf [OF wf, of "en_now env"]
  show ?thesis
  proof (cases "is_lease_holder ?s wid jid")
    case True
    then obtain j e where j: "look ?s jid = Some j" "jb_state j = Leased wid e" by (rule is_lease_holderD)
    let ?completed = "set_job_state jid (Completed (en_now env)) ?s"
    let ?freed = "?completed\<lparr>qs_jobs := fold (\<lambda>c. modify_entry c dec_remaining) (jb_dependents j) (qs_jobs ?completed)\<rparr>"
    let ?counted = "bump (\<lambda>c. c\<lparr>completed_total := completed_total c + 1\<rparr>) (jb_namespace j) ?freed"
    have "bump_expect (\<lambda>c. c\<lparr>completed_total := completed_total c + 1\<rparr>) (jb_namespace j) ?freed = Some ?counted"
      by (rule bump_expect_total) (use queue_wfD(3) [OF wfs j(1)] in simp)
    moreover have "room (Suc 0) ?counted" using r by simp
    from audit_push_total [OF this] obtain s2
      where "audit_push cfg (en_now env) EvCompleted (Some jid) (Some wid) [] ?counted = Some s2" by blast
    ultimately show ?thesis unfolding complete_def Let_def using True j(1) by simp
  qed (simp add: complete_def Let_def)
qed

lemma fail_total:
  assumes wf: "queue_wf (q_state q)" and r: "room (2 * live_count (q_state q) + 2) (q_state q)"
  shows "fail cfg env wid jid reason q \<noteq> None"
proof -
  let ?s = "tick (en_now env) (q_state q)"
  note wfs = tick_wf [OF wf, of "en_now env"]
  show ?thesis
  proof (cases "is_lease_holder ?s wid jid")
    case True
    then obtain j e where j: "look ?s jid = Some j" "jb_state j = Leased wid e" by (rule is_lease_holderD)
    obtain nst where ns: "map_of (qs_namespaces ?s) (jb_namespace j) = Some nst" using queue_wfD(3) [OF wfs j(1)] by blast
    let ?failed = "record_failure jid j ?s"
    let ?counted = "bump (\<lambda>c. c\<lparr>failed_total := failed_total c + 1\<rparr>) (jb_namespace j) ?failed"
    have b: "bump_expect (\<lambda>c. c\<lparr>failed_total := failed_total c + 1\<rparr>) (jb_namespace j) ?failed = Some ?counted"
      by (rule bump_expect_total) (use ns in \<open>simp add: record_failure_def\<close>)
    have "room (Suc (2 * live_count (q_state q) + 1)) ?counted" using r by (simp add: record_failure_def)
    from audit_push_total [OF this] obtain s2 where s2: "audit_push cfg (en_now env) EvFailed (Some jid) (Some wid)
        (''attempt='' @ dec_nat (unat (jb_failures j + 1)) @ '' reason='' @ reason) ?counted = Some s2"
        "room (2 * live_count (q_state q) + 1) s2" "qs_jobs s2 = qs_jobs ?counted" by blast
    have q2: "quiet ?s s2" by (rule fail_prefix_quiet [OF b s2(1)])
    note wf2 = quiet_wf [OF q2 wfs]
    have lc2: "live_count s2 \<le> live_count (q_state q)" using quiet_live_count [OF wfs q2] tick_live_count [OF wf] by simp
    have live2: "live s2 jid" by (rule quiet_prefix_live [OF j(1) _ b s2(1)]) (simp add: j(2))
    obtain j2 where j2: "look s2 jid = Some j2" using s2(3) j(1) by (auto simp: record_failure_def)
    have "room (Suc (2 * live_count s2)) s2" by (rule room_mono [OF s2(2)]) (use lc2 in simp)
    from terminal_dead_letter_total [OF wf2 live2 j2 this] obtain s3 where
      s3: "terminal_dead_letter cfg jid reason (en_now env) s2 = Some s3" "room (2 * live_count s2) s3" "queue_wf s3"
        "live_count s3 \<le> live_count s2" by blast
    have "room (0 + 2 * live_count s3) s3" by (rule room_mono [OF s3(2)]) (use s3(4) in simp)
    from cascade_children_total [OF s3(3) this] have bury: "\<exists>s4. cascade_children cfg
        (case look s3 jid of Some j \<Rightarrow> jb_dependents j | None \<Rightarrow> []) (''parent '' @ dec64 jid @ '' dead-lettered'') (en_now env) s3 = Some s4" .
    let ?retry = "set_job_state jid (RetryPending (retry_at cfg env j)) s2"
    let ?rcounted = "bump (\<lambda>c. c\<lparr>retry_scheduled_total := retry_scheduled_total c + 1\<rparr>) (jb_namespace j) ?retry"
    have "map_of (qs_namespaces s2) (jb_namespace j) \<noteq> None"
      using map_of_None_same_keys [OF quietD(4) [OF q2]] ns by simp
    then have rb: "bump_expect (\<lambda>c. c\<lparr>retry_scheduled_total := retry_scheduled_total c + 1\<rparr>) (jb_namespace j) ?retry = Some ?rcounted"
      by (intro bump_expect_total) simp
    have "room (Suc 0) ?rcounted" using room_mono [OF s2(2), of 1] by simp
    from audit_push_total [OF this] obtain s5 where rp: "audit_push cfg (en_now env) EvRetryScheduled (Some jid) None
        (''ready_at_nanos='' @ dec64 (retry_at cfg env j)) ?rcounted = Some s5" by blast
    have eq: "fail cfg env wid jid reason q = (do {
        s4 \<leftarrow> (if nc_max_attempts (ns_config nst) \<le> jb_failures j + 1
          then cascade_children cfg (case look s3 jid of Some j \<Rightarrow> jb_dependents j | None \<Rightarrow> [])
            (''parent '' @ dec64 jid @ '' dead-lettered'') (en_now env) s3
          else Some s5);
        Some (finish env AckIo () q s4) })"
      using True j(1) ns b s2(1) s3(1) rb rp unfolding fail_def record_failure_def retry_at_def Let_def by simp
    show ?thesis unfolding eq using bury by (auto simp: Option.bind_eq_None_conv split: if_splits)
  qed (simp add: fail_def Let_def)
qed

lemma cancel_total:
  assumes wf: "queue_wf (q_state q)" and r: "room (2 * live_count (q_state q)) (q_state q)"
  shows "cancel cfg env jid reason q \<noteq> None"
proof -
  let ?s = "tick (en_now env) (q_state q)"
  have "room (0 + 2 * live_count ?s) ?s" using r tick_live_count [OF wf] by simp
  from cascade_cancel_total [OF tick_wf [OF wf] this] obtain k s' where
    "cascade_cancel cfg jid reason (en_now env) ?s = Some (k, s')" by blast
  then show ?thesis by (simp add: cancel_def Let_def)
qed

lemma promote_total:
  assumes wf: "queue_wf (q_state q)" and r: "room 1 (q_state q)"
  shows "promote cfg env jid p q \<noteq> None"
proof -
  let ?s = "tick (en_now env) (q_state q)"
  note wfs = tick_wf [OF wf, of "en_now env"]
  have commit: "\<exists>s1 s2. bump_expect f (jb_namespace j) (?s\<lparr>qs_jobs := js\<rparr>) = Some s1 \<and>
      audit_push cfg (en_now env) EvPromoted (Some jid) None msg s1 = Some s2" if "look ?s jid = Some j" for j f js msg
  proof -
    have "bump_expect f (jb_namespace j) (?s\<lparr>qs_jobs := js\<rparr>) = Some (bump f (jb_namespace j) (?s\<lparr>qs_jobs := js\<rparr>))"
      by (rule bump_expect_total) (use queue_wfD(3) [OF wfs that] in simp)
    moreover have "room (Suc 0) (bump f (jb_namespace j) (?s\<lparr>qs_jobs := js\<rparr>))" using r by simp
    ultimately show ?thesis using audit_push_total by blast
  qed
  show ?thesis
  proof (cases "look ?s jid")
    case None
    then show ?thesis by (simp add: promote_def Let_def split: option.split)
  next
    case (Some j)
    show ?thesis
    proof (cases "priority_new p")
      case (Some v)
      obtain s1 s2 where "bump_expect (\<lambda>c. c\<lparr>promoted_total := promoted_total c + 1\<rparr>) (jb_namespace j)
          (?s\<lparr>qs_jobs := modify_entry jid (\<lambda>j. j\<lparr>jb_priority := v\<rparr>) (qs_jobs ?s)\<rparr>) = Some s1"
        "audit_push cfg (en_now env) EvPromoted (Some jid) None
          (dec_nat (unat (jb_priority j)) @ '' -> '' @ dec_nat (unat v)) s1 = Some s2"
        using commit [OF \<open>look ?s jid = Some j\<close>] by blast
      then show ?thesis using Some \<open>look ?s jid = Some j\<close> by (simp add: promote_def Let_def)
    qed (simp add: promote_def)
  qed
qed

lemma register_worker_total:
  assumes "room 1 (q_state q)"
  shows "register_worker cfg env wid caps q \<noteq> None"
proof -
  let ?s = "tick (en_now env) (q_state q)"
  have "room (Suc 0) (?s\<lparr>qs_workers := register_worker_entry wid caps (qs_workers ?s)\<rparr>)" using assms by simp
  from audit_push_total [OF this] obtain s' where "audit_push cfg (en_now env) EvWorkerRegistered None (Some wid)
      (''caps='' @ join_caps caps) (?s\<lparr>qs_workers := register_worker_entry wid caps (qs_workers ?s)\<rparr>) = Some s'" by blast
  then show ?thesis by (simp add: register_worker_def Let_def)
qed

lemma deregister_worker_total:
  assumes wf: "queue_wf (q_state q)" and r: "room (2 * live_count (q_state q) + 1) (q_state q)"
  shows "deregister_worker cfg env wid q \<noteq> None"
proof -
  let ?s = "tick (en_now env) (q_state q)"
  define held where "held = concat (map (\<lambda>(_, j). case jb_state j of
    Leased w _ \<Rightarrow> if w = wid then [(jb_id j, jb_namespace j)] else [] | _ \<Rightarrow> []) (qs_jobs ?s))"
  have "length held \<le> live_count ?s" unfolding held_def live_count_def by (rule held_length)
  then have "length held \<le> live_count (q_state q)" using tick_live_count [OF wf] by simp
  then have "room (Suc 0 + length held) ?s" using room_mono [OF r] by simp
  from expire_held_total [OF this] obtain s1 where s1: "expire_held cfg wid (en_now env) held ?s = Some s1" "room (Suc 0) s1" by blast
  then have "room (Suc 0) (s1\<lparr>qs_workers := AList.delete wid (qs_workers s1)\<rparr>)" by simp
  from audit_push_total [OF this] obtain s2 where "audit_push cfg (en_now env) EvWorkerDeregistered None (Some wid) []
      (s1\<lparr>qs_workers := AList.delete wid (qs_workers s1)\<rparr>) = Some s2" by blast
  with s1(1) show ?thesis
    unfolding deregister_worker_def Let_def held_def [symmetric] by (simp add: deregister_worker_entry_def)
qed

text \<open>C13: No panic. The \<^verbatim>\<open>expect\<close>s and \<^verbatim>\<open>unwrap\<close>s of the queue never fire in a reachable queue: every operation
  returns a result, an error included, unless the identifier, sequence or event counter is about to
  run out or a request names \<open>2\<^sup>3\<^sup>2\<close> dependencies.\<close>

theorem operations_never_panic:
  assumes "reachable cfg q" "next_id (q_state q) \<noteq> u64_max" "next_seq (q_state q) \<noteq> u64_max"
    and "unat (next_event_id (qs_audit (q_state q))) + 2 * live_count (q_state q) + 3 < 2 ^ 64"
    and "case op of OpEnqueue req \<Rightarrow> length (rq_depends_on req) < 2 ^ 32 | _ \<Rightarrow> True"
  shows "exec cfg env op q \<noteq> None"
proof -
  note wf = reachable_wf [OF assms(1)]
  have r: "room n (q_state q)" if "n \<le> 2 * live_count (q_state q) + 3" for n
    using assms(4) that by (simp add: room_def)
  note total = enqueue_total [OF wf r assms(2,3)] acquire_total [OF wf r] heartbeat_total [OF r] complete_total [OF wf r]
    fail_total [OF wf r] cancel_total [OF wf r] promote_total [OF wf r] register_worker_total [OF r]
    deregister_worker_total [OF wf r]
  show ?thesis
  proof (cases op)
    case (OpRegisterNamespace n c)
    then show ?thesis by (simp add: register_namespace_def Let_def)
  qed (use assms(5) total in simp_all)
qed

theorem operations_never_panic_witness:
  "exec (demo_config 2) (demo_env 9) (OpEnqueue (demo_request [1, 2] 3)) demo_queue \<noteq> None \<and>
   exec (demo_config 2) (demo_env 9) (OpFail ''nobody'' 77 ''lost'') demo_queue \<noteq> None"
proof -
  have n: "live_count (q_state demo_queue) = 3" "next_event_id (qs_audit (q_state demo_queue)) = 3"
    "next_id (q_state demo_queue) = 4" "next_seq (q_state demo_queue) = 3" by code_simp+
  then have "unat (next_event_id (qs_audit (q_state demo_queue))) + 2 * live_count (q_state demo_queue) + 3 < 2 ^ 64"
    "next_id (q_state demo_queue) \<noteq> u64_max" "next_seq (q_state demo_queue) \<noteq> u64_max"
    by (simp_all add: u64_max_def)
  note P = operations_never_panic [OF demo_reachable this(2,3,1)]
  show ?thesis using P [of "OpEnqueue (demo_request [1, 2] 3)"] P [of "OpFail ''nobody'' 77 ''lost''"]
    by (simp add: demo_request_def)
qed

end
