(* ===== verification/Job_Audit.thy ===== *)
theory Job_Audit
  imports Job_Guarantees
begin

text \<open>
  The audit log as a refinement of the full history: the ring buffer of the code keeps a numbered
  suffix of all events pushed since the queue was opened, and a reader is told when it has missed some.
\<close>

section \<open>The audit log refines the history of events\<close>

type_synonym audit_entry = "instant \<times> audit_event_kind \<times> job_id option \<times> worker_id option \<times> string"

text \<open>The specification: all events ever pushed, numbered from one.\<close>

fun number_from :: "nat \<Rightarrow> audit_entry list \<Rightarrow> audit_event list" where
  "number_from n [] = []"
| "number_from n ((at, kind, job, worker, payload) # h) =
     \<lparr>ev_event_id = of_nat (Suc n), ev_at = at, ev_kind = kind, ev_job_id = job, ev_worker_id = worker,
      ev_payload = payload\<rparr> # number_from (Suc n) h"

fun push_all :: "nat \<Rightarrow> audit_entry list \<Rightarrow> audit_log \<Rightarrow> audit_log option" where
  "push_all r [] log = Some log"
| "push_all r ((at, kind, job, worker, payload) # h) log =
     Option.bind (push_with r at kind job worker payload log) (push_all r h)"

definition log_refines :: "nat \<Rightarrow> audit_entry list \<Rightarrow> audit_log \<Rightarrow> bool" where
  "log_refines r h log \<longleftrightarrow> length h < 2 ^ 64 \<and> next_event_id log = of_nat (length h) \<and>
     al_events log = drop (length h - r) (number_from 0 h)"

lemma prune_drop: "prune r xs = drop (length xs - r) xs"
  by (induction xs) (auto simp: Suc_diff_le)

lemma length_number [simp]: "length (number_from n h) = length h"
  by (induction n h rule: number_from.induct) simp_all

lemma number_append: "number_from n (h @ h') = number_from n h @ number_from (n + length h) h'"
  by (induction n h rule: number_from.induct) simp_all

lemma drop_number: "drop k (number_from n h) = number_from (n + k) (drop k h)"
  by (induction n h arbitrary: k rule: number_from.induct) (auto simp: drop_Cons split: nat.split)

lemma unat_of_nat64: "n < 2 ^ 64 \<Longrightarrow> unat (of_nat n :: u64) = n"
  by (simp add: unat_of_nat take_bit_nat_eq_self)

lemma filter_number:
  "n + length h < 2 ^ 64 \<Longrightarrow> filter (\<lambda>e. after < ev_event_id e) (number_from n h) = drop (unat after - n) (number_from n h)"
proof (induction n h rule: number_from.induct)
  case (2 n at kind job worker payload h)
  have "after < of_nat (Suc n) \<longleftrightarrow> unat after \<le> n"
    using "2.prems" by (simp add: word_less_nat_alt unat_of_nat64 del: of_nat_Suc) (simp add: less_Suc_eq_le)
  moreover have "unat after - n = Suc (unat after - Suc n)" if "\<not> unat after \<le> n" using that by simp
  ultimately show ?case using "2.IH" "2.prems" by (cases "unat after \<le> n") (simp_all del: of_nat_Suc)
qed simp

lemma push_refines:
  assumes "log_refines r h log" "push_with r at kind job worker payload log = Some log'"
  shows "log_refines r (h @ [(at, kind, job, worker, payload)]) log'"
proof -
  have l: "length h < 2 ^ 64" "next_event_id log = of_nat (length h)" "al_events log = drop (length h - r) (number_from 0 h)"
    using assms(1) by (simp_all add: log_refines_def)
  have ne: "next_event_id log \<noteq> u64_max" and log': "next_event_id log' = next_event_id log + 1"
    "al_events log' = prune r (al_events log @ number_from (length h) [(at, kind, job, worker, payload)])"
    using assms(2) l(2) by (auto simp: push_with_def Let_def add.commute split: if_splits)
  have "unat (next_event_id log) < 2 ^ 64 - 1" using ne not_u64_max by blast
  then have small: "length (h @ [(at, kind, job, worker, payload)]) < 2 ^ 64" using l by (simp add: unat_of_nat64)
  have "al_events log' = drop (Suc (length h) - r) (number_from 0 (h @ [(at, kind, job, worker, payload)]))"
    unfolding log'(2) l(3) prune_drop number_append
    by (cases "length h < r") (auto simp: not_less Suc_diff_le drop_append)
  then show ?thesis using small log'(1) l(2) by (simp add: log_refines_def add.commute)
qed

lemma push_all_refines:
  "log_refines r h log \<Longrightarrow> push_all r es log = Some log' \<Longrightarrow> log_refines r (h @ es) log'"
proof (induction r es log arbitrary: h rule: push_all.induct)
  case (2 r at kind job worker payload es log)
  then obtain log1 where "push_with r at kind job worker payload log = Some log1" "push_all r es log1 = Some log'"
    by (auto simp: Option.bind_eq_Some_conv)
  then show ?case using "2.IH" push_refines [OF "2.prems"(1)] by fastforce
qed simp

lemma push_all_append: "push_all r (es @ es') log = Option.bind (push_all r es log) (push_all r es')"
proof (induction r es log rule: push_all.induct)
  case (2 r at kind job worker payload es log)
  then show ?case by (cases "push_with r at kind job worker payload log") simp_all
qed simp

lemma since_refines:
  assumes ref: "log_refines r h log" and "r \<noteq> 0" "after \<noteq> u64_max"
  shows "audit_since after log =
    (if unat after < length h - r then Inl (AuditEventDropped (of_nat (Suc (length h - r))))
     else Inr (drop (unat after) (number_from 0 h)))"
proof -
  let ?k = "length h - r"
  have l: "length h < 2 ^ 64" "al_events log = number_from ?k (drop ?k h)"
    using ref by (simp_all add: log_refines_def drop_number)
  have k: "?k + length (drop ?k h) < 2 ^ 64" using l(1) by simp
  have f: "filter (\<lambda>e. after < ev_event_id e) (al_events log) = drop (max ?k (unat after)) (number_from 0 h)"
  proof -
    have "filter (\<lambda>e. after < ev_event_id e) (al_events log) = drop (unat after - ?k) (number_from ?k (drop ?k h))"
      unfolding l(2) by (rule filter_number [OF k])
    also have "number_from ?k (drop ?k h) = drop ?k (number_from 0 h)" by (simp add: drop_number)
    finally show ?thesis by (simp add: max_def)
  qed
  show ?thesis
  proof (cases "drop ?k h")
    case Nil
    then have "h = []" using assms(2) by (cases h) auto
    then show ?thesis using l(2) by (simp add: audit_since_def)
  next
    case (Cons e es)
    obtain at kind job worker payload where e: "e = (at, kind, job, worker, payload)" by (cases e)
    have "unat (after + 1) = Suc (unat after)" by (rule u64_succ [OF assms(3)])
    moreover have "Suc ?k < 2 ^ 64" using l(1) Cons assms(2) by (cases h) auto
    ultimately have "after + 1 < of_nat (Suc ?k) \<longleftrightarrow> unat after < ?k"
      by (simp add: word_less_nat_alt unat_of_nat64 del: of_nat_Suc)
    then show ?thesis
      using f unfolding audit_since_def l(2) Cons e
      by (cases "unat after < ?k") (simp_all add: max_def del: of_nat_Suc)
  qed
qed

lemma recent_refines:
  assumes "log_refines r h log"
  shows "audit_recent limit log = drop (length h - min limit r) (number_from 0 h)"
  using assms by (auto simp: log_refines_def audit_recent_def min_def intro!: arg_cong [of _ _ "\<lambda>k. drop k _"])

text \<open>Every step of the queue only ever pushes events.\<close>

definition logged :: "config \<Rightarrow> queue_state \<Rightarrow> queue_state \<Rightarrow> bool" where
  "logged cfg s s' \<longleftrightarrow> (\<exists>es. push_all (cf_audit_retention cfg) es (qs_audit s) = Some (qs_audit s'))"

lemma logged_same: "qs_audit s' = qs_audit s \<Longrightarrow> logged cfg s s'"
  unfolding logged_def by (rule exI [of _ "[]"]) simp

lemma logged_trans: "logged cfg a b \<Longrightarrow> logged cfg b c \<Longrightarrow> logged cfg a c"
  unfolding logged_def by (metis push_all_append Option.bind.bind_lunit)

lemma logged_push: "audit_push cfg now kind i w p s = Some s' \<Longrightarrow> logged cfg s s'"
  unfolding logged_def audit_push_def by (rule exI [of _ "[(now, kind, i, w, p)]"]) auto

lemma logged_after_push:
  "qs_audit s1 = qs_audit s \<Longrightarrow> audit_push cfg now kind i w p s1 = Some s' \<Longrightarrow> logged cfg s s'"
  by (rule logged_trans [OF logged_same logged_push])

lemma bump_expect_audit: "bump_expect f n s = Some s' \<Longrightarrow> qs_audit s' = qs_audit s"
  by (auto simp: bump_expect_def split: if_splits)

lemma cascade_apply_logged: "cascade_apply cfg root reason now idx ids s = Some s' \<Longrightarrow> logged cfg s s'"
proof (induction ids arbitrary: s idx)
  case Nil
  then show ?case by (auto intro: logged_same)
next
  case (Cons i ids)
  let ?payload = "if idx = 0 then reason else ''cascaded from '' @ dec64 root @ '' ('' @ reason @ '')''"
  obtain j where j: "look s i = Some j" using Cons.prems by (auto simp: Option.bind_eq_Some_conv)
  obtain s0 s1 where s0: "(case jb_state j of Leased worker _ \<Rightarrow>
      audit_push cfg now EvLeaseExpired (Some i) (Some worker) ''cancelled'' (bump inc_lease_expired (jb_namespace j) s)
    | _ \<Rightarrow> Some s) = Some s0"
    and s1: "audit_push cfg now EvCancelled (Some i) None ?payload
      (bump (\<lambda>c. c\<lparr>cancelled_total := cancelled_total c + 1\<rparr>) (jb_namespace j)
        ((set_job_state i (Cancelled ?payload now) s0)\<lparr>cancelled_order :=
          cancelled_order (set_job_state i (Cancelled ?payload now) s0) @ [i]\<rparr>)) = Some s1"
    and rest: "cascade_apply cfg root reason now (Suc idx) ids s1 = Some s'"
    using Cons.prems by (auto simp: j Option.bind_eq_Some_conv Let_def)
  have "logged cfg s s0"
    using s0 by (cases "jb_state j") (auto intro: logged_same elim: logged_after_push [rotated])
  moreover have "logged cfg s0 s1" by (rule logged_after_push [OF _ s1]) simp
  ultimately show ?case using Cons.IH [OF rest] logged_trans by blast
qed

lemma cascade_cancel_logged: "cascade_cancel cfg root reason now s = Some (n, s') \<Longrightarrow> logged cfg s s'"
  by (auto simp: cascade_cancel_def Let_def intro: cascade_apply_logged)

lemma cascade_children_logged: "cascade_children cfg cs reason now s = Some s' \<Longrightarrow> logged cfg s s'"
proof (induction cs arbitrary: s)
  case (Cons c cs)
  then obtain n s1 where "cascade_cancel cfg c reason now s = Some (n, s1)"
    "cascade_children cfg cs reason now s1 = Some s'" by (auto simp: Option.bind_eq_Some_conv)
  then show ?case using cascade_cancel_logged Cons.IH logged_trans by blast
qed (auto intro: logged_same)

lemma terminal_dead_letter_logged: "terminal_dead_letter cfg jid reason now s = Some s' \<Longrightarrow> logged cfg s s'"
  by (erule terminal_dead_letter_spec) (auto elim: logged_after_push [rotated])

lemma expire_held_logged: "expire_held cfg wid now held s = Some s' \<Longrightarrow> logged cfg s s'"
proof (induction held arbitrary: s)
  case (Cons x held)
  obtain i ns where x: "x = (i, ns)" by (cases x)
  obtain s1 where p: "audit_push cfg now EvLeaseExpired (Some i) (Some wid) ''worker deregistered''
      (bump inc_lease_expired ns (set_job_state i (Pending (Some wid)) s)) = Some s1"
    and rest: "expire_held cfg wid now held s1 = Some s'"
    using Cons.prems by (auto simp: x Option.bind_eq_Some_conv Let_def)
  have "logged cfg s s1" by (rule logged_after_push [OF _ p]) simp
  then show ?case using Cons.IH [OF rest] logged_trans by blast
qed (auto intro: logged_same)

lemma exec_logged:
  assumes wf: "queue_wf (q_state q)" and res: "exec cfg env op q = Some q'"
  shows "logged cfg (q_state q) (q_state q')"
proof -
  let ?s = "tick (en_now env) (q_state q)"
  have t: "logged cfg (q_state q) ?s" by (rule logged_same) simp
  have from_tick: "logged cfg (q_state q) s" if "logged cfg ?s s" for s by (rule logged_trans [OF t that])
  have commit: "logged cfg s s2" if "qs_audit s0 = qs_audit s" "bump_expect f n s0 = Some s1"
    "audit_push cfg now kind i w p s1 = Some s2" for s s0 f n s1 now kind i w p s2
    by (rule logged_after_push [OF _ that(3)]) (use bump_expect_audit [OF that(2)] that(1) in simp)
  show ?thesis
  proof (cases op)
    case (OpEnqueue req)
    then obtain r where r: "enqueue cfg env req q = Some (r, q')" using res by (auto simp: map_snd_Some)
    have es: "qs_audit (enqueue_state cfg env req q) = qs_audit (q_state q)" by (simp add: enqueue_state_def)
    show ?thesis
      using r
    proof (cases rule: enqueue_cases)
      case (stored priority rem cascade js s1 s2 s3)
      have "logged cfg (enqueue_state cfg env req q) s2" by (rule commit [OF _ stored(6,7)]) simp
      moreover have "logged cfg s2 s3" using stored(8) by (cases cascade) (auto intro: cascade_cancel_logged logged_same)
      ultimately have "logged cfg (q_state q) s3" using logged_same [OF es] logged_trans by blast
      then show ?thesis using finish_Pair_state [OF stored(9)] by simp
    qed (auto intro: logged_same simp: es)
  next
    case (OpAcquire w d)
    then obtain r where r: "acquire cfg env w d q = Some (r, q')" using res by (auto simp: map_snd_Some)
    show ?thesis
      using wf r
    proof (cases rule: acquire_cases)
      case (leased jid j s1 s2)
      have "logged cfg ?s s2" by (rule commit [OF _ leased(4,5)]) simp
      then show ?thesis using from_tick finish_Pair_state [OF leased(6)] by simp
    qed (use t in simp_all)
  next
    case (OpHeartbeat w i d)
    then obtain r where r: "heartbeat cfg env w i d q = Some (r, q')" using res by (auto simp: map_snd_Some)
    show ?thesis
      using r
    proof (cases rule: heartbeat_cases)
      case (extended j e s1)
      have "logged cfg ?s s1" by (rule logged_after_push [OF _ extended(3)]) simp
      then show ?thesis using from_tick finish_Pair_state [OF extended(4)] by simp
    qed (use t in simp)
  next
    case (OpComplete w i)
    then obtain r where r: "complete cfg env w i q = Some (r, q')" using res by (auto simp: map_snd_Some)
    show ?thesis
      using r
    proof (cases rule: complete_cases)
      case (finished j e s1 s2)
      have "logged cfg ?s s2" by (rule commit [OF _ finished(3,4)]) simp
      then show ?thesis using from_tick finish_Pair_state [OF finished(5)] by simp
    qed (use t in simp)
  next
    case (OpFail w i reason)
    then obtain r where r: "fail cfg env w i reason q = Some (r, q')" using res by (auto simp: map_snd_Some)
    show ?thesis
      using r
    proof (cases rule: fail_cases)
      case (buried j e nst s1 s2 s3 s4)
      have "logged cfg ?s s2" by (rule commit [OF _ buried(4,5)]) (simp add: record_failure_def)
      then have "logged cfg ?s s4"
        using terminal_dead_letter_logged [OF buried(7)] cascade_children_logged [OF buried(8)] logged_trans by blast
      then show ?thesis using from_tick finish_Pair_state [OF buried(9)] by simp
    next
      case (retry j e nst s1 s2 s3 s4)
      have "logged cfg ?s s2" by (rule commit [OF _ retry(4,5)]) (simp add: record_failure_def)
      moreover have "logged cfg s2 s4" by (rule commit [OF _ retry(7,8)]) simp
      ultimately show ?thesis using from_tick logged_trans finish_Pair_state [OF retry(9)] by blast
    qed (use t in simp)
  next
    case (OpCancel i reason)
    then obtain n s r where c: "cascade_cancel cfg i reason (en_now env) ?s = Some (n, s)"
      and f: "(r, q') = finish env () n q s"
      using res by (auto simp: map_snd_Some cancel_def Option.bind_eq_Some_conv Let_def)
    show ?thesis using from_tick [OF cascade_cancel_logged [OF c]] finish_Pair_state [OF f] by simp
  next
    case (OpPromote i p)
    then obtain r where r: "promote cfg env i p q = Some (r, q')" using res by (auto simp: map_snd_Some)
    show ?thesis
      using r
    proof (cases rule: promote_cases)
      case (raised j s1 s2)
      have "logged cfg ?s s2" by (rule commit [OF _ raised(5,6)]) simp
      then show ?thesis using from_tick finish_Pair_state [OF raised(7)] by simp
    qed (use t in \<open>auto intro: logged_same\<close>)
  next
    case (OpRegisterWorker w cs)
    then obtain s r where p: "audit_push cfg (en_now env) EvWorkerRegistered None (Some w) (''caps='' @ join_caps cs)
        (?s\<lparr>qs_workers := register_worker_entry w cs (qs_workers ?s)\<rparr>) = Some s"
      and f: "(r, q') = finish env () () q s"
      using res by (auto simp: map_snd_Some register_worker_def Option.bind_eq_Some_conv Let_def)
    have "logged cfg ?s s" by (rule logged_after_push [OF _ p]) simp
    then show ?thesis using from_tick finish_Pair_state [OF f] by simp
  next
    case (OpDeregisterWorker w)
    then obtain r where r: "deregister_worker cfg env w q = Some (r, q')" using res by (auto simp: map_snd_Some)
    show ?thesis
      using r
    proof (rule deregister_worker_cases)
      fix held s1 s2
      assume e: "expire_held cfg w (en_now env) held ?s = Some s1"
        and p: "(if map_of (qs_workers s1) w \<noteq> None
          then audit_push cfg (en_now env) EvWorkerDeregistered None (Some w) []
            (s1\<lparr>qs_workers := AList.delete w (qs_workers s1)\<rparr>)
          else Some (s1\<lparr>qs_workers := AList.delete w (qs_workers s1)\<rparr>)) = Some s2"
        and f: "(r, q') = finish env () (length held) q s2"
      have "logged cfg s1 s2"
        using p by (auto intro: logged_same elim: logged_after_push [rotated] split: if_splits)
      then show ?thesis
        using from_tick [OF logged_trans [OF expire_held_logged [OF e]]] finish_Pair_state [OF f] by simp
    qed
  next
    case (OpRegisterNamespace n c)
    then have "q_state q' = (namespace_mut n c (q_state q))\<lparr>qs_namespaces :=
        modify_entry n (\<lambda>ns. ns\<lparr>ns_config := c\<rparr>) (qs_namespaces (namespace_mut n c (q_state q)))\<rparr>"
      using res by (auto simp: register_namespace_def Let_def)
    then show ?thesis by (intro logged_same) simp
  next
    case OpObserve
    then show ?thesis using res t by (auto simp: metrics_def Let_def)
  qed
qed

lemma run_ops_logged:
  "queue_wf (q_state q) \<Longrightarrow> run_ops cfg ops q = Some q' \<Longrightarrow> logged cfg (q_state q) (q_state q')"
proof (induction ops arbitrary: q)
  case (Cons x ops)
  obtain env op where x: "x = (env, op)" by (cases x)
  obtain q1 where q1: "exec cfg env op q = Some q1" "run_ops cfg ops q1 = Some q'"
    using Cons.prems(2) by (auto simp: x Option.bind_eq_Some_conv)
  show ?case
    by (rule logged_trans [OF exec_logged [OF Cons.prems(1) q1(1)] Cons.IH [OF exec_wf [OF Cons.prems(1) q1(1)] q1(2)]])
qed (auto intro: logged_same)



end
