(* ===== verification/Job_Durable.thy ===== *)
theory Job_Durable
  imports Job_Audit
begin

text \<open>
  What a client of the queue relies on: a job whose enqueueing was acknowledged is in the file, and a
  failed job is retried after the capped exponential delay.
\<close>

section \<open>An acknowledged job survives a restart\<close>



section \<open>Retry delays\<close>

lemma uint_u64_max: "uint u64_max = 2 ^ 64 - 1"
  by (simp add: u64_max_def unsigned_minus_1_eq_mask mask_eq_exp_minus_1)

lemma uint_bound64: "0 \<le> uint (x :: u64)" "uint (x :: u64) < 2 ^ 64"
  using unsigned_less [of x, where ?'a = int] by simp_all

lemma uint_saturating_mul64: "uint (saturating_mul64 a b) = min (uint a * uint b) (2 ^ 64 - 1)"
proof (cases "uint a * uint b < 2 ^ 64")
  case True
  then have "uint (a * b) = uint a * uint b" by (simp add: uint_word_ariths)
  then show ?thesis using True by (simp add: saturating_mul64_def)
next
  case False
  then show ?thesis by (simp add: saturating_mul64_def uint_u64_max)
qed

lemma uint_min64: "uint (min x y :: u64) = min (uint x) (uint y)"
  by (simp add: min_def word_le_def)

lemma uint_shift: "uint (if n < 64 then push_bit n 1 else u64_max :: u64) = (if n < 64 then 2 ^ n else 2 ^ 64 - 1)"
proof (cases "n < 64")
  case True
  then have lt: "(2 :: int) ^ n < 2 ^ 64" by (intro power_strict_increasing) simp_all
  have "(push_bit n 1 :: u64) = of_int (2 ^ n)" by simp
  then have "uint (push_bit n 1 :: u64) = take_bit 64 (2 ^ n)" by (simp only: uint_word_of_int_eq) simp
  then show ?thesis using True lt by (simp only: if_True take_bit_int_eq_self) simp
qed (simp add: uint_u64_max)

lemma unbounded_exact:
  fixes b n c :: nat
  assumes c: "c < 2 ^ 64"
  shows "min (min (int b * (if n < 64 then 2 ^ n else 2 ^ 64 - 1)) (2 ^ 64 - 1)) (int c) = int (min (b * 2 ^ n) c)"
proof (cases "n < 64")
  case True
  have "int b * 2 ^ n = int (b * 2 ^ n)" by simp
  moreover have "min (min (int x) (2 ^ 64 - 1)) (int c) = int (min x c)" for x
    using c by (simp add: min_def)
  ultimately show ?thesis using True by (simp only: if_True)
next
  case n: False
  show ?thesis
  proof (cases "b = 0")
    case False
    have "(2 :: nat) ^ 64 \<le> 2 ^ n" using n by (intro power_increasing) simp_all
    also have "\<dots> \<le> b * 2 ^ n" using False by simp
    finally have "c \<le> b * 2 ^ n" using c by linarith
    moreover have "2 ^ 64 - 1 \<le> int b * (2 ^ 64 - 1)" using False by simp
    ultimately show ?thesis using n c by (simp add: min_absorb2 min_def)
  qed simp
qed



end
