(* ===== verification/Spec2Isabelle.thy ===== *)
theory Spec2Isabelle
  imports Interner Mode_Exit Effect_Row Comptime_Arith Certificate Job_Durable
begin

text \<open>
  \<^bold>\<open>A verification development for edda-bootstrap.\<close>

  The repository holds the bootstrap compiler of the Edda language (\<^verbatim>\<open>src/crates\<close>) and programs
  that compare Edda with other languages (\<^verbatim>\<open>src/comparisons\<close>). The compiler interns names, keeps
  source positions, checks how bindings are initialised, moved and borrowed (the mode checker),
  checks effect rows, evaluates constant expressions, and turns refinement conditions into proof
  obligations that a solver discharges and that leave certificates behind. The comparison program
  modelled here is the Rust job queue. Definitions carry the names of the Rust functions they
  translate.

  \<^bold>\<open>Conventions.\<close> A Rust panic is \<^const>\<open>None\<close> (or the value \<open>Panicked\<close> where a result type has more
  outcomes); errors are values of sum types. Handles and machine integers are words of their width;
  plain arithmetic wraps as in a release build, and \<^verbatim>\<open>debug_assert\<close> is not modelled. A hash map
  that the code iterates is an association list with distinct keys in iteration order, an ordered
  map one with ascending keys. Code outside the sources (BLAKE3, JSON, the file system, the clock,
  random numbers) is a parameter.

  \<^bold>\<open>Theories.\<close>
  \<^item> \<open>Edda_Prelude\<close>: types, collections \<open>wf_intros\<close> and \<open>codec_simps\<close>, lemmas on association lists,
    lists, words and decimal rendering.
  \<^item> \<open>Interner\<close> (\<^verbatim>\<open>crates/edda-intern\<close>): the interner with its fast and slow path, sequentially and
    as a step relation of concurrent callers; the invariant holds on every interleaving and a
    string never gets two symbols.
  \<^item> \<open>Source_Map\<close> (\<^verbatim>\<open>crates/edda-span\<close>): spans, the file table, line and column by binary search.
  \<^item> \<open>Primitives\<close> (\<^verbatim>\<open>crates/edda-types/src/prim.rs\<close>): the primitive types.
  \<^item> \<open>Mode_Lattice\<close>, \<open>Type_Env\<close>, \<open>Mode_Check\<close>, \<open>Mode_Soundness\<close>, \<open>Mode_Exit\<close>
    (\<^verbatim>\<open>crates/edda-types/src/infer/mode\<close>, \<^verbatim>\<open>infer/env.rs\<close>): binding states with their greatest
    lower bound, scopes, the transitions of calls, fields and assignments, the merge of branches,
    loop re-entry, and the checks at block and function exit. \<open>Mode_Soundness\<close> relates a merged
    environment to each path through a branch; \<open>Mode_Exit\<close> shows what a silent exit check means.
    The locale \<open>state_store\<close> is the contract of the environment, interpreted on it.
  \<^item> \<open>Effect_Row\<close> (\<^verbatim>\<open>effect.rs\<close>, \<^verbatim>\<open>infer/row_acc.rs\<close>, \<^verbatim>\<open>infer/fn_body.rs\<close>): rows, the accumulator
    with checkpoints, discharge by handlers and \<open>?\<close>, and the containment check; the locale
    \<open>canonical_set\<close> is interpreted on sorted rows.
  \<^item> \<open>Comptime_Int\<close>, \<open>Comptime_Arith\<close> (\<^verbatim>\<open>crates/edda-comptime\<close>): integer values at their width, the
    operators and the casts, compared with arithmetic on mathematical integers.
  \<^item> \<open>Wire_Codec\<close>, \<open>Refine_Predicate\<close>, \<open>Refine_Obligation\<close>, \<open>Predicate_Canonical\<close>, \<open>Certificate\<close>
    (\<^verbatim>\<open>crates/edda-refine\<close>): predicates, obligations, their canonical bytes and the certificates keyed
    by them. The locale \<open>prefix_code\<close> is the contract of an encoder whose output can be cut off a
    longer byte string; it is interpreted on varints, strings, integers, sorts, predicates, spans and
    certificates, and every uniqueness result rests on it.
  \<^item> \<open>Job_State\<close>, \<open>Job_Queue\<close>, \<open>Job_Invariant\<close> (\<^verbatim>\<open>comparisons/job-queue/rust/src\<close>): the state of the
    queue, every operation as one atomic step under the mutex, and the invariant of the dependency
    bookkeeping.

  \<^bold>\<open>Termination and bounds.\<close> No definition uses fuel: the recursive walks (\<open>droppable_walk\<close>, binary
  search, \<open>encode_varint\<close>, \<open>cascade_loop\<close>, \<open>visit\<close>) carry termination proofs. Encoders of lengths are
  exact for sequences shorter than \<open>2 ^ 64\<close>, which every Rust slice is.

  \<^bold>\<open>Not modelled.\<close> Lexing, parsing, name resolution, type inference of expressions, lowering to MIR
  and code generation; the solver backend and the lifting of source expressions to predicates; the
  cache, the package manager, the daemon and servers, and the runtime's system interfaces. Floats are
  not modelled in the comptime evaluator, and the jitter of the job queue, computed in floating
  point, is a parameter.
\<close>

end
